(* ===== verification/Prelude.thy ===== *)
theory Prelude
  imports Main "HOL-Library.Char_ord" "HOL-Library.List_Lexorder" "HOL-Library.Sublist"
begin

text \<open>
  Shared vocabulary of the development: the types every component uses (byte strings,
  clock readings), the theorem collections the components declare their facts into, and
  generic lemmas on lists that several components need.

  Go strings and byte slices are lists of 8-bit characters. A \<open>time.Time\<close> is the number
  of nanoseconds since the Unix epoch, as an unbounded integer; the zero \<open>Time\<close> is the
  instant 0001-01-01 00:00 UTC.
\<close>

type_synonym bytes = string

type_synonym instant = int

definition zero_time :: instant where
  "zero_time = - 62135596800 * 1000000000"

named_theorems ring_simps "equations of the ring buffer over its list abstraction"
named_theorems str_simps "characteristic equations of the string operations"
named_theorems scope_simps "facts about normalised resources and their keys"
named_theorems gate_simps "frame facts of the gateway operations"

section \<open>Lists\<close>

lemma nth_mod_shift:
  assumes "h < l" and "i < l"
  shows "(h + i) mod l = (if h + i < l then h + i else h + i - (l::nat))"
  using assms by (auto simp: mod_if)

lemma mod_shift_inj:
  assumes "h < l" "i < l" "j < l" "(h + i) mod l = (h + j) mod (l::nat)"
  shows "i = j"
  using assms by (auto simp: nth_mod_shift split: if_splits)

lemma map_nth_mod_eq:
  assumes "h < length b" and "m \<le> length b"
  shows "map (\<lambda>i. b ! ((h + i) mod length b)) [0..<m] =
    (if h + m \<le> length b then take m (drop h b) else drop h b @ take (h + m - length b) b)"
proof (rule nth_equalityI)
  show "length (map (\<lambda>i. b ! ((h + i) mod length b)) [0..<m]) =
      length (if h + m \<le> length b then take m (drop h b)
        else drop h b @ take (h + m - length b) b)"
    using assms by auto
next
  fix i
  assume "i < length (map (\<lambda>i. b ! ((h + i) mod length b)) [0..<m])"
  then have i: "i < m" by simp
  with assms have "(h + i) mod length b = (if h + i < length b then h + i else h + i - length b)"
    by (intro nth_mod_shift) auto
  with i assms show "map (\<lambda>i. b ! ((h + i) mod length b)) [0..<m] ! i =
      (if h + m \<le> length b then take m (drop h b)
        else drop h b @ take (h + m - length b) b) ! i"
    by (auto simp: nth_append add.commute)
qed

lemma sorted_distinct_set_unique':
  assumes "sorted xs" "distinct xs" "sorted ys" "distinct ys" "set xs = set ys"
  shows "xs = (ys :: 'a::linorder list)"
  using assms by (rule sorted_distinct_set_unique)

lemma in_set_tlD: "x \<in> set (tl xs) \<Longrightarrow> x \<in> set xs"
  by (cases xs) auto

lemma suffix_snocI: "suffix xs ys \<Longrightarrow> suffix (xs @ [x]) (ys @ [x])"
  by (simp add: suffix_def)

lemma suffix_tl_snoc: "suffix xs ys \<Longrightarrow> suffix (tl xs @ [x]) (ys @ [x])"
  by (metis suffix_order.trans suffix_snocI suffix_tl)

lemma takeWhile_rev_filter:
  assumes "sorted_wrt (\<lambda>a b. P a \<longrightarrow> P b) xs"
  shows "takeWhile P (rev xs) = rev (filter P xs)"
  using assms
proof (induction xs)
  case Nil
  then show ?case by simp
next
  case (Cons x xs)
  then have IH: "takeWhile P (rev xs) = rev (filter P xs)" by simp
  show ?case
  proof (cases "\<forall>y \<in> set xs. P y")
    case True
    then have "filter P xs = xs" by (simp add: filter_id_conv)
    with True show ?thesis
      by (simp add: takeWhile_append)
  next
    case False
    then obtain y where y: "y \<in> set xs" "\<not> P y" by blast
    with Cons.prems have "\<not> P x" by auto
    with y show ?thesis
      by (auto simp: IH takeWhile_append)
  qed
qed

section \<open>Options and association lists\<close>

lemma bind_Some_conv: "Option.bind x f = Some y \<longleftrightarrow> (\<exists>a. x = Some a \<and> f a = Some y)"
  by (cases x) auto

end
