(* ===== verification/GoJson.thy ===== *)
theory GoJson
  imports GoStrings "HOL-Library.AList"
begin

text \<open>
  Go's \<open>encoding/json\<close>, as the program uses it: the scanner and parser of a JSON text with
  the bytes of every member kept (what a \<open>json.RawMessage\<close> receives), decoding into \<open>any\<close>
  (last duplicate wins, numbers outside \<open>float64\<close> are an error), field matching of structs
  (exact or up to case), and the encoder. Strings are decoded to UTF-8 with U+FFFD for what
  is not valid.
\<close>

section \<open>UTF-8\<close>

definition is_cont :: "char \<Rightarrow> bool" where
  "is_cont c \<longleftrightarrow> 0x80 \<le> byte c \<and> byte c < 0xC0"

text \<open>Width of the valid sequence a string starts with; 0 when it starts with none.\<close>

fun utf8_len :: "bytes \<Rightarrow> nat" where
  "utf8_len [] = 0"
| "utf8_len (c # s) =
     (let n = byte c in
      if n < 0x80 then 1
      else if 0xC2 \<le> n \<and> n \<le> 0xDF then
        (case s of a # _ \<Rightarrow> if is_cont a then 2 else 0 | _ \<Rightarrow> 0)
      else if 0xE0 \<le> n \<and> n \<le> 0xEF then
        (case s of a # b # _ \<Rightarrow>
            if is_cont a \<and> is_cont b \<and> (n = 0xE0 \<longrightarrow> 0xA0 \<le> byte a) \<and> (n = 0xED \<longrightarrow> byte a < 0xA0)
            then 3 else 0
         | _ \<Rightarrow> 0)
      else if 0xF0 \<le> n \<and> n \<le> 0xF4 then
        (case s of a # b # d # _ \<Rightarrow>
            if is_cont a \<and> is_cont b \<and> is_cont d \<and> (n = 0xF0 \<longrightarrow> 0x90 \<le> byte a) \<and>
               (n = 0xF4 \<longrightarrow> byte a < 0x90)
            then 4 else 0
         | _ \<Rightarrow> 0)
      else 0)"

definition utf8_encode :: "nat \<Rightarrow> bytes" where
  "utf8_encode r =
     map char_of
      (if r < 0x80 then [r]
       else if r < 0x800 then [0xC0 + r div 64, 0x80 + r mod 64]
       else if r < 0x10000 then [0xE0 + r div 4096, 0x80 + r div 64 mod 64, 0x80 + r mod 64]
       else [0xF0 + r div 262144, 0x80 + r div 4096 mod 64, 0x80 + r div 64 mod 64, 0x80 + r mod 64])"

definition RuneError :: bytes where
  "RuneError = [CHR 0xEF, CHR 0xBF, CHR 0xBD]"

section \<open>Values\<close>

datatype json =
    JNull
  | JBool bool
  | JNum bytes
  | JStr bytes
  | JArr "json list"
  | JObj "(bytes \<times> json) list"

section \<open>Lexical elements\<close>

definition is_ws :: "char \<Rightarrow> bool" where
  "is_ws c \<longleftrightarrow> c = CHR 0x20 \<or> c = CHR 0x09 \<or> c = CHR 0x0D \<or> c = CHR 0x0A"

definition skip_ws :: "bytes \<Rightarrow> bytes" where
  "skip_ws s = dropWhile is_ws s"

definition simple_escape :: "char \<Rightarrow> bool" where
  "simple_escape c \<longleftrightarrow> c \<in> {CHR ''b'', CHR ''f'', CHR ''n'', CHR ''r'', CHR ''t'', CHR 0x5C, CHR ''/'', CHR 0x22}"

text \<open>The text of a string literal up to its closing quote, still escaped, and what follows.\<close>

fun scan_string :: "bytes \<Rightarrow> (bytes \<times> bytes) option" where
  "scan_string [] = None"
| "scan_string (c # s) =
     (if c = CHR 0x22 then Some ([], s)
      else if c = CHR 0x5C then
        (case s of
          [] \<Rightarrow> None
        | e # r \<Rightarrow>
            if simple_escape e then map_option (\<lambda>(a, b). (c # e # a, b)) (scan_string r)
            else if e = CHR ''u'' then
              (case r of
                h1 # h2 # h3 # h4 # r' \<Rightarrow>
                  if is_hex h1 \<and> is_hex h2 \<and> is_hex h3 \<and> is_hex h4
                  then map_option (\<lambda>(a, b). (c # e # h1 # h2 # h3 # h4 # a, b)) (scan_string r')
                  else None
              | _ \<Rightarrow> None)
            else None)
      else if byte c < 0x20 then None
      else map_option (\<lambda>(a, b). (c # a, b)) (scan_string s))"

definition hex4 :: "char \<Rightarrow> char \<Rightarrow> char \<Rightarrow> char \<Rightarrow> nat" where
  "hex4 a b c d = ((unhex a * 16 + unhex b) * 16 + unhex c) * 16 + unhex d"

definition escape_value :: "char \<Rightarrow> char" where
  "escape_value e =
     (if e = CHR ''b'' then CHR 0x08 else if e = CHR ''f'' then CHR 0x0C
      else if e = CHR ''n'' then CHR 0x0A else if e = CHR ''r'' then CHR 0x0D
      else if e = CHR ''t'' then CHR 0x09 else e)"

text \<open>A second \<open>\\u\<close> escape directly after the first, if there is one.\<close>

definition next_escape :: "bytes \<Rightarrow> nat option" where
  "next_escape r =
     (case r of
       b # u # h1 # h2 # h3 # h4 # _ \<Rightarrow>
         if b = CHR 0x5C \<and> u = CHR ''u'' then Some (hex4 h1 h2 h3 h4) else None
     | _ \<Rightarrow> None)"

function unquote :: "bytes \<Rightarrow> bytes" where
  "unquote s =
     (case s of
       [] \<Rightarrow> []
     | c # r \<Rightarrow>
         if c = CHR 0x5C then
           (case r of
             [] \<Rightarrow> []
           | e # r1 \<Rightarrow>
               if e = CHR ''u'' then
                 (case r1 of
                   h1 # h2 # h3 # h4 # r2 \<Rightarrow>
                     let v = hex4 h1 h2 h3 h4 in
                     if 0xD800 \<le> v \<and> v < 0xE000 then
                       (case next_escape r2 of
                         Some w \<Rightarrow>
                           if v < 0xDC00 \<and> 0xDC00 \<le> w \<and> w < 0xE000
                           then utf8_encode (0x10000 + (v - 0xD800) * 0x400 + (w - 0xDC00)) @ unquote (drop 6 r2)
                           else RuneError @ unquote r2
                       | None \<Rightarrow> RuneError @ unquote r2)
                     else utf8_encode v @ unquote r2
                 | _ \<Rightarrow> [])
               else escape_value e # unquote r1)
         else if byte c < 0x80 then c # unquote r
         else
           let w = utf8_len s in
           if w = 0 then RuneError @ unquote r else take w s @ unquote (drop w s))"
  by pat_completeness auto
termination
  by (relation "measure length") auto

declare unquote.simps [simp del]

text \<open>A number literal and what follows: an optional minus, an integer without leading zeros,
  an optional fraction, an optional exponent.\<close>

definition take_digits :: "bytes \<Rightarrow> bytes \<times> bytes" where
  "take_digits s = (takeWhile is_digit s, dropWhile is_digit s)"

definition scan_int :: "bytes \<Rightarrow> (bytes \<times> bytes) option" where
  "scan_int s =
     (if HasPrefix s ''0'' then Some (''0'', drop 1 s)
      else let (ds, r) = take_digits s in if ds = [] then None else Some (ds, r))"

definition scan_frac :: "bytes \<Rightarrow> (bytes \<times> bytes) option" where
  "scan_frac s =
     (if HasPrefix s ''.'' then
        let (fs, r) = take_digits (drop 1 s) in if fs = [] then None else Some (CHR ''.'' # fs, r)
      else Some ([], s))"

definition scan_exp :: "bytes \<Rightarrow> (bytes \<times> bytes) option" where
  "scan_exp s =
     (if HasPrefix s ''e'' \<or> HasPrefix s ''E'' then
        let s1 = drop 1 s;
            k = (if HasPrefix s1 ''+'' \<or> HasPrefix s1 ''-'' then 1 else 0);
            (es, r) = take_digits (drop k s1)
        in if es = [] then None else Some (take 1 s @ take k s1 @ es, r)
      else Some ([], s))"

definition scan_number :: "bytes \<Rightarrow> (bytes \<times> bytes) option" where
  "scan_number s =
     (let (sign, s1) = (if HasPrefix s ''-'' then (''-'', drop 1 s) else ([], s)) in
      case scan_int s1 of
        None \<Rightarrow> None
      | Some (ds, s2) \<Rightarrow>
        (case scan_frac s2 of
          None \<Rightarrow> None
        | Some (fs, s3) \<Rightarrow>
          map_option (\<lambda>(es, r). (sign @ ds @ fs @ es, r)) (scan_exp s3)))"

section \<open>The parser\<close>

definition literal :: "bytes \<Rightarrow> json \<Rightarrow> bytes \<Rightarrow> (json \<times> bytes) option" where
  "literal w j s = (if HasPrefix s w then Some (j, drop (length w) s) else None)"

lemma skip_ws_le: "length (skip_ws s) \<le> length s"
  by (simp add: skip_ws_def length_dropWhile_le)

lemma skip_sep_less: "HasPrefix (skip_ws r) [c] \<Longrightarrow> length (skip_ws (drop (Suc 0) (skip_ws r))) < length r"
  using skip_ws_le [of "drop (Suc 0) (skip_ws r)"] skip_ws_le [of r]
  by (cases "skip_ws r") (auto simp: HasPrefix_def)

text \<open>\<open>depth\<close> is how many more arrays and objects may be opened. The comparisons of lengths
  hold of every parse and make the recursion well-founded.\<close>

function parse_value :: "nat \<Rightarrow> bytes \<Rightarrow> (json \<times> bytes) option"
  and parse_elems :: "nat \<Rightarrow> bytes \<Rightarrow> ((bytes \<times> json) list \<times> bytes) option"
  and parse_members :: "nat \<Rightarrow> bytes \<Rightarrow> ((bytes \<times> bytes \<times> json) list \<times> bytes) option"
where
  "parse_value depth s =
     (case s of
       [] \<Rightarrow> None
     | c # r \<Rightarrow>
         if c = CHR ''{'' then
           (if depth = 0 then None
            else if HasPrefix (skip_ws r) ''}'' then Some (JObj [], drop 1 (skip_ws r))
            else map_option (\<lambda>(ms, r'). (JObj (map (\<lambda>(k, _, v). (k, v)) ms), r'))
              (parse_members (depth - 1) (skip_ws r)))
         else if c = CHR ''['' then
           (if depth = 0 then None
            else if HasPrefix (skip_ws r) '']'' then Some (JArr [], drop 1 (skip_ws r))
            else map_option (\<lambda>(es, r'). (JArr (map snd es), r')) (parse_elems (depth - 1) (skip_ws r)))
         else if c = CHR 0x22 then map_option (\<lambda>(q, r'). (JStr (unquote q), r')) (scan_string r)
         else if c = CHR ''t'' then literal ''true'' (JBool True) s
         else if c = CHR ''f'' then literal ''false'' (JBool False) s
         else if c = CHR ''n'' then literal ''null'' JNull s
         else map_option (\<lambda>(n, r'). (JNum n, r')) (scan_number s))"
| "parse_elems depth s =
     (case parse_value depth s of
       None \<Rightarrow> None
     | Some (v, r) \<Rightarrow>
         if \<not> length r < length s then None
         else
           let raw = take (length s - length r) s; r1 = skip_ws r in
           if HasPrefix r1 '','' then
             map_option (\<lambda>(es, r'). ((raw, v) # es, r')) (parse_elems depth (skip_ws (drop 1 r1)))
           else if HasPrefix r1 '']'' then Some ([(raw, v)], drop 1 r1)
           else None)"
| "parse_members depth s =
     (if \<not> HasPrefix s [CHR 0x22] then None
      else case scan_string (drop 1 s) of
        None \<Rightarrow> None
      | Some (q, r) \<Rightarrow>
          if \<not> length r < length s \<or> \<not> HasPrefix (skip_ws r) '':'' then None
          else
            let s1 = skip_ws (drop 1 (skip_ws r)) in
            case parse_value depth s1 of
              None \<Rightarrow> None
            | Some (v, r1) \<Rightarrow>
                if \<not> length r1 < length s1 then None
                else
                  let raw = take (length s1 - length r1) s1; m = (unquote q, raw, v); r2 = skip_ws r1 in
                  if HasPrefix r2 '','' then
                    map_option (\<lambda>(ms, r'). (m # ms, r')) (parse_members depth (skip_ws (drop 1 r2)))
                  else if HasPrefix r2 ''}'' then Some ([m], drop 1 r2)
                  else None)"
  by pat_completeness auto

termination
proof (relation "measure (\<lambda>x. case x of Inl (d, s) \<Rightarrow> 2 * length s
      | Inr (Inl (d, s)) \<Rightarrow> 2 * length s + 1 | Inr (Inr (d, s)) \<Rightarrow> 2 * length s + 1)"; clarsimp)
  fix r :: bytes
  show "2 * length (skip_ws r) < Suc (2 * length r)"
    using skip_ws_le [of r] by simp
next
  fix r :: bytes
  show "2 * length (skip_ws r) < Suc (2 * length r)"
    using skip_ws_le [of r] by simp
next
  fix s b :: bytes
  assume "length b < length s" "HasPrefix (skip_ws b) '',''"
  then show "length (skip_ws (drop (Suc 0) (skip_ws b))) < length s"
    using skip_sep_less [of b] by fastforce
next
  fix s b :: bytes
  assume "length b < length s" "HasPrefix (skip_ws b) '':''"
  then show "2 * length (skip_ws (drop (Suc 0) (skip_ws b))) < Suc (2 * length s)"
    using skip_sep_less [of b] by fastforce
next
  fix s b ba :: bytes
  assume "length b < length s" "HasPrefix (skip_ws b) '':''"
    "length ba < length (skip_ws (drop (Suc 0) (skip_ws b)))" "HasPrefix (skip_ws ba) '',''"
  then show "length (skip_ws (drop (Suc 0) (skip_ws ba))) < length s"
    using skip_sep_less [of b] skip_sep_less [of ba] by fastforce
qed

declare parse_value.simps [simp del] parse_elems.simps [simp del] parse_members.simps [simp del]

section \<open>Decoding\<close>

definition max_depth :: nat where
  "max_depth = 10000"

text \<open>A whole text: one value with nothing but white space around it.\<close>

definition parse_json :: "bytes \<Rightarrow> json option" where
  "parse_json s =
     (case parse_value max_depth (skip_ws s) of
       Some (v, r) \<Rightarrow> if skip_ws r = [] then Some v else None
     | None \<Rightarrow> None)"

text \<open>The members of a text that is an object, with the bytes of each value; the elements of
  one that is an array.\<close>

definition object_members :: "bytes \<Rightarrow> (bytes \<times> bytes \<times> json) list option" where
  "object_members s =
     (let s1 = skip_ws s; s2 = skip_ws (drop 1 s1) in
      if \<not> HasPrefix s1 ''{'' then None
      else if HasPrefix s2 ''}'' then Some []
      else map_option fst (parse_members (max_depth - 1) s2))"

definition array_elems :: "bytes \<Rightarrow> (bytes \<times> json) list option" where
  "array_elems s =
     (let s1 = skip_ws s; s2 = skip_ws (drop 1 s1) in
      if \<not> HasPrefix s1 ''['' then None
      else if HasPrefix s2 '']'' then Some []
      else map_option fst (parse_elems (max_depth - 1) s2))"

text \<open>Struct fields are matched exactly or up to the simple case folding that maps the long s
  to S and the Kelvin sign to K; the field names here are ASCII.\<close>

fun fold_name :: "bytes \<Rightarrow> bytes" where
  "fold_name [] = []"
| "fold_name (c # s) =
     (if HasPrefix (c # s) long_s then CHR ''S'' # fold_name (drop 1 s)
      else if HasPrefix (c # s) kelvin then CHR ''K'' # fold_name (drop 2 s)
      else upper_byte c # fold_name s)"

definition field_matches :: "bytes \<Rightarrow> bytes \<Rightarrow> bool" where
  "field_matches f key \<longleftrightarrow> key = f \<or> fold_name key = fold_name f"

text \<open>Decoding into a map: a later duplicate replaces an earlier one.\<close>

definition last_wins :: "(bytes \<times> 'a) list \<Rightarrow> (bytes \<times> 'a) list" where
  "last_wins ms = foldl (\<lambda>m (k, v). AList.update k v m) [] ms"

fun to_any :: "json \<Rightarrow> json" where
  "to_any (JArr es) = JArr (map to_any es)"
| "to_any (JObj ms) = JObj (last_wins (map (\<lambda>(k, v). (k, to_any v)) ms))"
| "to_any j = j"

text \<open>Whether a number literal is in the range of \<open>float64\<close>: its magnitude is below the
  midpoint between the largest float and \<open>2 ^ 1024\<close>.\<close>

definition float_limit :: nat where
  "float_limit = 2 ^ 1024 - 2 ^ 970"

definition number_in_range :: "bytes \<Rightarrow> bool" where
  "number_in_range n =
     (let s = (if HasPrefix n ''-'' then drop 1 n else n);
          (ds, s2) = take_digits s;
          (fs, s3) = (if HasPrefix s2 ''.'' then take_digits (drop 1 s2) else ([], s2));
          neg = HasPrefix (drop 1 s3) ''-'';
          es = dropWhile (\<lambda>c. \<not> is_digit c) s3;
          m = the (digits_value 0 (ds @ fs)); e = the (digits_value 0 es);
          x = (if neg then - int e else int e) - int (length fs)
      in if x \<ge> 0 then m * 10 ^ nat x < float_limit else m < float_limit * 10 ^ nat (- x))"

fun numbers_ok :: "json \<Rightarrow> bool" where
  "numbers_ok (JNum n) = number_in_range n"
| "numbers_ok (JArr es) = list_all numbers_ok es"
| "numbers_ok (JObj ms) = list_all (\<lambda>(k, v). numbers_ok v) ms"
| "numbers_ok j = True"

section \<open>The encoder\<close>

definition hex_digit :: "nat \<Rightarrow> char" where
  "hex_digit d = (if d < 10 then char_of (48 + d) else char_of (87 + d))"

text \<open>ASCII bytes \<open>json.Marshal\<close> escapes (with the HTML escaping it applies by default).\<close>

definition escape_ascii :: "char \<Rightarrow> bytes" where
  "escape_ascii c =
     (if c = CHR 0x22 \<or> c = CHR 0x5C then [CHR 0x5C, c]
      else if c = CHR 0x08 then [CHR 0x5C, CHR ''b''] else if c = CHR 0x0C then [CHR 0x5C, CHR ''f'']
      else if c = CHR 0x0A then [CHR 0x5C, CHR ''n''] else if c = CHR 0x0D then [CHR 0x5C, CHR ''r'']
      else if c = CHR 0x09 then [CHR 0x5C, CHR ''t'']
      else if byte c < 0x20 \<or> c \<in> set ''<>&''
      then [CHR 0x5C, CHR ''u'', CHR ''0'', CHR ''0'', hex_digit (byte c div 16), hex_digit (byte c mod 16)]
      else [c])"

function escape_string :: "bytes \<Rightarrow> bytes" where
  "escape_string s =
     (case s of
       [] \<Rightarrow> []
     | c # r \<Rightarrow>
         if byte c < 0x80 then escape_ascii c @ escape_string r
         else
           let w = utf8_len s in
           if w = 0 then CHR 0x5C # ''ufffd'' @ escape_string r
           else if take w s = [CHR 0xE2, CHR 0x80, CHR 0xA8] then CHR 0x5C # ''u2028'' @ escape_string (drop w s)
           else if take w s = [CHR 0xE2, CHR 0x80, CHR 0xA9] then CHR 0x5C # ''u2029'' @ escape_string (drop w s)
           else take w s @ escape_string (drop w s))"
  by pat_completeness auto
termination
  by (relation "measure length") auto

declare escape_string.simps [simp del]

definition encode_string :: "bytes \<Rightarrow> bytes" where
  "encode_string s = CHR 0x22 # escape_string s @ [CHR 0x22]"

fun encode_json :: "json \<Rightarrow> bytes"
  and encode_elems :: "json list \<Rightarrow> bytes"
  and encode_members :: "(bytes \<times> json) list \<Rightarrow> bytes" where
  "encode_json JNull = ''null''"
| "encode_json (JBool b) = (if b then ''true'' else ''false'')"
| "encode_json (JNum n) = n"
| "encode_json (JStr s) = encode_string s"
| "encode_json (JArr es) = CHR ''['' # encode_elems es @ '']''"
| "encode_json (JObj ms) = CHR ''{'' # encode_members ms @ ''}''"
| "encode_elems [] = []"
| "encode_elems (e # es) = encode_json e @ (if es = [] then [] else CHR '','' # encode_elems es)"
| "encode_members [] = []"
| "encode_members ((k, v) # ms) =
     encode_string k @ CHR '':'' # encode_json v @ (if ms = [] then [] else CHR '','' # encode_members ms)"

text \<open>The members of an object whose values are already encoded.\<close>

fun raw_members :: "(bytes \<times> bytes) list \<Rightarrow> bytes" where
  "raw_members [] = []"
| "raw_members ((k, raw) # ms) =
     encode_string k @ CHR '':'' # raw @ (if ms = [] then [] else CHR '','' # raw_members ms)"

text \<open>A Go map, encoded with its keys in byte order.\<close>

definition JMap :: "(bytes \<times> json) list \<Rightarrow> json" where
  "JMap ms = JObj (sort_key fst ms)"

end
