(* ===== verification/GoJsonRound.thy ===== *)
theory GoJsonRound
  imports GoJson
begin

text \<open>
  The encoder and the parser of \<open>GoJson\<close> are inverse: parsing an encoded value gives it back,
  whatever follows it. The replies the program writes are read back through these lemmas.
\<close>

section \<open>Strings\<close>

function valid_utf8 :: "bytes \<Rightarrow> bool" where
  "valid_utf8 s \<longleftrightarrow> (if s = [] then True else 0 < utf8_len s \<and> (0 < utf8_len s \<longrightarrow> valid_utf8 (drop (utf8_len s) s)))"
  by pat_completeness auto
termination
  by (relation "measure length") auto

declare valid_utf8.simps [simp del]

lemma utf8_len_shape:
  assumes "\<not> byte c < 0x80" "utf8_len (c # r) \<noteq> 0"
  shows "(\<exists>a t. r = a # t \<and> is_cont a \<and> utf8_len (c # r) = 2) \<or>
    (\<exists>a b t. r = a # b # t \<and> is_cont a \<and> is_cont b \<and> utf8_len (c # r) = 3) \<or>
    (\<exists>a b d t. r = a # b # d # t \<and> is_cont a \<and> is_cont b \<and> is_cont d \<and> utf8_len (c # r) = 4)"
proof -
  consider "194 \<le> byte c \<and> byte c \<le> 223" | "224 \<le> byte c \<and> byte c \<le> 239" | "240 \<le> byte c \<and> byte c \<le> 244"
    using assms by (auto simp: Let_def split: if_splits)
  then show ?thesis
    by cases (use assms in \<open>auto simp: Let_def split: list.splits if_splits\<close>)
qed

lemma utf8_len_cases:
  obtains "utf8_len s = 0" | c r where "s = c # r" "byte c < 0x80" "utf8_len s = 1"
  | "s \<noteq> []" "2 \<le> utf8_len s" "utf8_len s \<le> length s" "\<forall>c \<in> set (take (utf8_len s) s). 0x80 \<le> byte c"
proof (cases s)
  case (Cons c r)
  show thesis
  proof (cases "byte c < 0x80")
    case True
    with Cons that(2) show thesis by simp
  next
    case False
    have "utf8_len s = 0 \<or> 2 \<le> utf8_len s \<and> utf8_len s \<le> length s \<and>
        (\<forall>c \<in> set (take (utf8_len s) s). 0x80 \<le> byte c)"
    proof (cases "utf8_len (c # r) = 0")
      case no: False
      from utf8_len_shape [OF False no] False show ?thesis
        unfolding Cons by (elim disjE exE conjE) (auto simp: is_cont_def simp del: utf8_len.simps)
    qed (simp add: Cons)
    moreover have "s \<noteq> []" using Cons by simp
    ultimately show thesis using that(1,3) by blast
  qed
qed (use that in simp)

lemma utf8_len_prefix: "0 < utf8_len s \<Longrightarrow> utf8_len (take (utf8_len s) s @ t) = utf8_len s"
  by (cases s) (auto simp: Let_def split: list.splits if_splits)

lemma escape_Nil [simp]: "escape_string [] = []"
  by (subst escape_string.simps) simp

lemma escape_ascii_step: "byte c < 0x80 \<Longrightarrow> escape_string (c # r) = escape_ascii c @ escape_string r"
  by (subst escape_string.simps) simp

lemma escape_invalid: "s = c # r \<Longrightarrow> \<not> byte c < 0x80 \<Longrightarrow> utf8_len s = 0 \<Longrightarrow>
  escape_string s = CHR 0x5C # ''ufffd'' @ escape_string r"
  by (subst escape_string.simps) simp

lemma escape_multi:
  assumes "2 \<le> utf8_len s"
  obtains "take (utf8_len s) s = [CHR 0xE2, CHR 0x80, CHR 0xA8]"
      "escape_string s = CHR 0x5C # ''u2028'' @ escape_string (drop (utf8_len s) s)"
  | "take (utf8_len s) s = [CHR 0xE2, CHR 0x80, CHR 0xA9]"
      "escape_string s = CHR 0x5C # ''u2029'' @ escape_string (drop (utf8_len s) s)"
  | "take (utf8_len s) s \<noteq> [CHR 0xE2, CHR 0x80, CHR 0xA8]"
      "take (utf8_len s) s \<noteq> [CHR 0xE2, CHR 0x80, CHR 0xA9]"
      "escape_string s = take (utf8_len s) s @ escape_string (drop (utf8_len s) s)"
proof -
  obtain c r where s: "s = c # r" using assms by (cases s) auto
  with assms have b: "\<not> byte c < 0x80" by (auto simp: Let_def)
  have "escape_string s =
      (if take (utf8_len s) s = [CHR 0xE2, CHR 0x80, CHR 0xA8] then CHR 0x5C # ''u2028'' @ escape_string (drop (utf8_len s) s)
       else if take (utf8_len s) s = [CHR 0xE2, CHR 0x80, CHR 0xA9] then CHR 0x5C # ''u2029'' @ escape_string (drop (utf8_len s) s)
       else take (utf8_len s) s @ escape_string (drop (utf8_len s) s))"
    using assms by (subst escape_string.simps) (simp add: s b Let_def del: utf8_len.simps)
  with that show thesis by presburger
qed

lemma scan_escape_ascii:
  assumes "byte c < 0x80"
  shows "scan_string (escape_ascii c @ t) = map_option (\<lambda>(a, b). (escape_ascii c @ a, b)) (scan_string t)"
proof -
  have hex: "is_hex (hex_digit d)" if "d < 16" for d
    using that by (auto simp: hex_digit_def is_hex_def is_digit_def byte_def)
  have "byte c div 16 < 16" "byte c mod 16 < 16" using assms by auto
  then show ?thesis
    using assms hex
    by (auto simp: escape_ascii_def simple_escape_def is_hex_def is_digit_def byte_def option.map_comp
        comp_def case_prod_beta intro!: option.map_cong0)
qed

lemma scan_plain:
  "\<forall>c \<in> set w. 0x80 \<le> byte c \<Longrightarrow>
   scan_string (w @ t) = map_option (\<lambda>(a, b). (w @ a, b)) (scan_string t)"
proof (induction w)
  case Nil
  then show ?case by (cases "scan_string t") auto
next
  case (Cons c w)
  moreover have "c \<noteq> CHR 0x22" "c \<noteq> CHR 0x5C" using Cons.prems by (auto simp: byte_def)
  ultimately show ?case by (auto simp: option.map_comp comp_def case_prod_beta)
qed

lemma scan_u_escape:
  "is_hex h1 \<Longrightarrow> is_hex h2 \<Longrightarrow> is_hex h3 \<Longrightarrow> is_hex h4 \<Longrightarrow>
   scan_string (CHR 0x5C # CHR ''u'' # h1 # h2 # h3 # h4 # t) =
   map_option (\<lambda>(a, b). (CHR 0x5C # CHR ''u'' # h1 # h2 # h3 # h4 # a, b)) (scan_string t)"
  by (simp add: simple_escape_def)

lemma is_hex_consts:
  "is_hex CHR ''f''" "is_hex CHR ''d''" "is_hex CHR ''2''" "is_hex CHR ''0''" "is_hex CHR ''8''" "is_hex CHR ''9''"
  by (simp_all add: is_hex_def is_digit_def byte_def)

lemma scan_escape_string:
  "scan_string (escape_string s @ CHR 0x22 # t) = Some (escape_string s, t)"
proof (induction s rule: escape_string.induct)
  case (1 s)
  show ?case
  proof (cases s)
    case Nil
    then show ?thesis by simp
  next
    case (Cons c r)
    show ?thesis
    proof (cases "byte c < 0x80")
      case True
      with 1(1) [OF Cons] Cons show ?thesis by (simp add: escape_ascii_step scan_escape_ascii)
    next
      case False
      show ?thesis
      proof (cases rule: utf8_len_cases [of s])
        case 1
        note e = escape_invalid [OF Cons False 1]
        from "1.IH"(2) [OF Cons False refl 1] show ?thesis
          unfolding e by (simp add: scan_u_escape is_hex_consts del: scan_string.simps)
      next
        case (2 c' r')
        with Cons False show ?thesis by simp
      next
        case 3
        then have w: "2 \<le> utf8_len s" "utf8_len s \<noteq> 0" by auto
        from w(1) show ?thesis
        proof (cases rule: escape_multi)
          case a: 1
          from "1.IH"(3) [OF Cons False refl w(2) a(1)] show ?thesis
            unfolding a(2) by (simp add: scan_u_escape is_hex_consts del: scan_string.simps)
        next
          case a: 2
          then have "take (utf8_len s) s \<noteq> [CHR 0xE2, CHR 0x80, CHR 0xA8]" by simp
          from "1.IH"(4) [OF Cons False refl w(2) this a(1)] show ?thesis
            unfolding a(2) by (simp add: scan_u_escape is_hex_consts del: scan_string.simps)
        next
          case a: 3
          from "1.IH"(5) [OF Cons False refl w(2) a(1,2)] show ?thesis
            unfolding a(3) append_assoc scan_plain [OF 3(4)] by simp
        qed
      qed
    qed
  qed
qed

lemma unquote_Nil [simp]: "unquote [] = []"
  by (subst unquote.simps) simp

lemma unquote_plain: "c \<noteq> CHR 0x5C \<Longrightarrow> byte c < 0x80 \<Longrightarrow> unquote (c # t) = c # unquote t"
  by (subst unquote.simps) simp

lemma unquote_simple: "e \<noteq> CHR ''u'' \<Longrightarrow> unquote (CHR 0x5C # e # t) = escape_value e # unquote t"
  by (subst unquote.simps) simp

lemma unquote_u: "\<not> (0xD800 \<le> hex4 h1 h2 h3 h4 \<and> hex4 h1 h2 h3 h4 < 0xE000) \<Longrightarrow>
  unquote (CHR 0x5C # CHR ''u'' # h1 # h2 # h3 # h4 # t) = utf8_encode (hex4 h1 h2 h3 h4) @ unquote t"
  by (subst unquote.simps) (auto simp: Let_def)

lemma unquote_multi:
  assumes "2 \<le> utf8_len s"
  shows "unquote (take (utf8_len s) s @ t) = take (utf8_len s) s @ unquote t"
proof -
  obtain c r where s: "s = c # r" using assms by (cases s) auto
  with assms have c: "\<not> byte c < 0x80" "c \<noteq> CHR 0x5C" by (auto simp: Let_def byte_def)
  obtain w where w: "utf8_len s = Suc w" using assms by (cases "utf8_len s") auto
  have len: "utf8_len s \<le> length s"
    using assms by (cases rule: utf8_len_cases [of s]) auto
  have p: "utf8_len (take (utf8_len s) s @ t) = utf8_len s" using assms by (intro utf8_len_prefix) simp
  have "take (utf8_len s) s @ t = c # (take w r @ t)" unfolding w by (simp add: s)
  then have "unquote (take (utf8_len s) s @ t) =
      (let k = utf8_len (take (utf8_len s) s @ t) in if k = 0 then RuneError @ unquote (take w r @ t)
       else take k (take (utf8_len s) s @ t) @ unquote (drop k (take (utf8_len s) s @ t)))"
    using c by (subst unquote.simps) simp
  then show ?thesis using assms len unfolding p Let_def by simp
qed

lemma unquote_escape_ascii:
  assumes "byte c < 0x80"
  shows "unquote (escape_ascii c @ t) = c # unquote t"
proof (cases "byte c < 0x20 \<or> c \<in> set ''<>&''")
  case True
  let ?u = "hex4 CHR ''0'' CHR ''0'' (hex_digit (byte c div 16)) (hex_digit (byte c mod 16))"
  have "unhex (hex_digit d) = d" if "d < 16" for d
    using that by (auto simp: hex_digit_def unhex_def is_digit_def byte_def)
  then have u: "?u = byte c" using assms by (simp add: hex4_def) (simp add: unhex_def is_digit_def byte_def)
  have "utf8_encode (byte c) = [c]" using assms by (simp add: utf8_encode_def) (simp add: byte_def)
  with u assms True show ?thesis
    by (auto simp: escape_ascii_def unquote_simple unquote_u escape_value_def)
next
  case False
  with assms show ?thesis
    by (auto simp: escape_ascii_def unquote_simple unquote_plain escape_value_def)
qed

lemma line_separators:
  "utf8_encode 0x2028 = [CHR 0xE2, CHR 0x80, CHR 0xA8]" "utf8_encode 0x2029 = [CHR 0xE2, CHR 0x80, CHR 0xA9]"
  using char_of_char [of "CHR 0xE2", where 'a = nat] char_of_char [of "CHR 0x80", where 'a = nat]
    char_of_char [of "CHR 0xA8", where 'a = nat] char_of_char [of "CHR 0xA9", where 'a = nat]
  by (simp_all add: utf8_encode_def)

lemma unquote_escape: "valid_utf8 s \<Longrightarrow> unquote (escape_string s) = s"
proof (induction s rule: valid_utf8.induct)
  case (1 s)
  show ?case
  proof (cases rule: utf8_len_cases [of s])
    case a: 1
    with "1.prems" show ?thesis by (subst (asm) valid_utf8.simps) (auto split: if_splits)
  next
    case (2 c r)
    then have "valid_utf8 r" using "1.prems" by (subst (asm) valid_utf8.simps) auto
    with "1.IH" 2 show ?thesis by (simp add: escape_ascii_step unquote_escape_ascii)
  next
    case 3
    then have v: "valid_utf8 (drop (utf8_len s) s)" using "1.prems"
      by (subst (asm) valid_utf8.simps) auto
    have IH: "unquote (escape_string (drop (utf8_len s) s)) = drop (utf8_len s) s"
      using 3 v by (intro "1.IH") auto
    from 3(2) show ?thesis
    proof (cases rule: escape_multi)
      case a: 1
      have "hex4 CHR ''2'' CHR ''0'' CHR ''2'' CHR ''8'' = 0x2028" by (simp add: hex4_def unhex_def is_digit_def byte_def)
      moreover note line_separators
      ultimately have "unquote (escape_string s) = take (utf8_len s) s @ drop (utf8_len s) s"
        unfolding a by (simp add: unquote_u IH)
      then show ?thesis by simp
    next
      case a: 2
      have "hex4 CHR ''2'' CHR ''0'' CHR ''2'' CHR ''9'' = 0x2029" by (simp add: hex4_def unhex_def is_digit_def byte_def)
      moreover note line_separators
      ultimately have "unquote (escape_string s) = take (utf8_len s) s @ drop (utf8_len s) s"
        unfolding a by (simp add: unquote_u IH)
      then show ?thesis by simp
    next
      case a: 3
      show ?thesis unfolding a(3) unquote_multi [OF 3(2)] IH by simp
    qed
  qed
qed

section \<open>Numbers\<close>

definition ends :: "bytes \<Rightarrow> bool" where
  "ends t \<longleftrightarrow> t = [] \<or> hd t \<in> set '',]}'' \<or> is_ws (hd t)"

lemma ends_simps [simp]: "ends []" "ends (CHR '','' # t)" "ends (CHR '']'' # t)" "ends (CHR ''}'' # t)"
  by (simp_all add: ends_def)

lemma ends_prefix:
  assumes "ends t" "c \<notin> set '',]}''" "\<not> is_ws c"
  shows "HasPrefix (xs @ t) [c] \<longleftrightarrow> HasPrefix xs [c]"
  using assms by (cases xs; cases t) (auto simp: HasPrefix_def ends_def)

lemma ends_digits: "ends t \<Longrightarrow> take_digits (xs @ t) = (fst (take_digits xs), snd (take_digits xs) @ t)"
  by (cases t) (auto simp: take_digits_def takeWhile_append dropWhile_append ends_def is_ws_def is_digit_def byte_def
      takeWhile_eq_all_conv [THEN iffD2] dropWhile_eq_Nil_conv [THEN iffD2])

lemma prefix_hd: "HasPrefix s [c] \<longleftrightarrow> s \<noteq> [] \<and> hd s = c"
  by (cases s) (auto simp: HasPrefix_def)

lemma prefix_head: "HasPrefix (x # s) [c] \<longleftrightarrow> x = c" "\<not> HasPrefix [] [c]"
  by (auto simp: HasPrefix_def)

lemma prefix_ends:
  assumes "ends t"
  shows "HasPrefix (xs @ t) ''-'' = HasPrefix xs ''-''" "HasPrefix (xs @ t) ''0'' = HasPrefix xs ''0''"
    "HasPrefix (xs @ t) ''.'' = HasPrefix xs ''.''" "HasPrefix (xs @ t) ''e'' = HasPrefix xs ''e''"
    "HasPrefix (xs @ t) ''E'' = HasPrefix xs ''E''" "HasPrefix (xs @ t) ''+'' = HasPrefix xs ''+''"
  using assms by (simp_all add: ends_prefix is_ws_def)

abbreviation followed :: "(bytes \<times> bytes) option \<Rightarrow> bytes \<Rightarrow> (bytes \<times> bytes) option" where
  "followed x t \<equiv> map_option (\<lambda>(a, b). (a, b @ t)) x"

lemma scan_int_append: "ends t \<Longrightarrow> scan_int (xs @ t) = followed (scan_int xs) t"
  using prefix_ends(2) [of t xs] ends_digits [of t xs]
  by (cases xs) (auto simp: scan_int_def prefix_head take_digits_def)

lemma scan_frac_append: "ends t \<Longrightarrow> scan_frac (xs @ t) = followed (scan_frac xs) t"
  using prefix_ends(3) [of t xs] ends_digits [of t "tl xs"]
  by (cases xs) (auto simp: scan_frac_def prefix_head case_prod_beta Let_def)

lemma scan_exp_append:
  assumes t: "ends t"
  shows "scan_exp (xs @ t) = followed (scan_exp xs) t"
proof (cases xs)
  case Nil
  then show ?thesis using prefix_ends(4,5) [OF t, of "[]"] by (simp add: scan_exp_def prefix_head)
next
  case (Cons e ys)
  have "take 1 (ys @ t) = take 1 ys \<and> drop 1 (ys @ t) = drop 1 ys @ t" if "HasPrefix ys ''+'' \<or> HasPrefix ys ''-''"
    using that by (cases ys) (auto simp: prefix_head)
  with Cons ends_digits [OF t, of ys] ends_digits [OF t, of "drop 1 ys"] show ?thesis
    by (auto simp: scan_exp_def prefix_head prefix_ends [OF t] case_prod_beta Let_def simp del: drop_append take_append)
qed

lemma scan_number_append:
  assumes t: "ends t"
  shows "scan_number (xs @ t) = followed (scan_number xs) t"
proof -
  have s: "(if HasPrefix (xs @ t) ''-'' then (''-'', drop 1 (xs @ t)) else ([], xs @ t)) =
      (\<lambda>(a, b). (a, b @ t)) (if HasPrefix xs ''-'' then (''-'', drop 1 xs) else ([], xs))"
    using prefix_ends(1) [OF t, of xs] by (cases xs) (auto simp: prefix_head)
  show ?thesis unfolding scan_number_def s
    by (auto simp: scan_int_append [OF t] scan_frac_append [OF t] scan_exp_append [OF t]
        option.map_comp comp_def case_prod_beta simp del: drop_append split: option.splits)
qed

definition number_ok :: "bytes \<Rightarrow> bool" where
  "number_ok n \<longleftrightarrow> scan_number n = Some (n, [])"

lemma number_ok_scan: "number_ok n \<Longrightarrow> ends t \<Longrightarrow> scan_number (n @ t) = Some (n, t)"
  by (simp add: number_ok_def scan_number_append)

lemma number_ok_hd:
  assumes "number_ok n"
  obtains c r where "n = c # r" "c = CHR ''-'' \<or> is_digit c"
proof (cases n)
  case Nil
  with assms show thesis by (simp add: number_ok_def scan_number_def scan_int_def HasPrefix_def take_digits_def)
next
  case (Cons c r)
  have "c = CHR ''-'' \<or> is_digit c"
  proof (rule ccontr)
    assume "\<not> (c = CHR ''-'' \<or> is_digit c)"
    moreover from this have "c \<noteq> CHR ''0''" by (auto simp: is_digit_def byte_def)
    ultimately have "scan_number n = None"
      by (simp add: Cons scan_number_def scan_int_def HasPrefix_def take_digits_def)
    with assms show False by (simp add: number_ok_def)
  qed
  with Cons that show thesis by blast
qed

section \<open>Values\<close>

fun valid_json :: "nat \<Rightarrow> json \<Rightarrow> bool" where
  "valid_json d (JNum n) = number_ok n"
| "valid_json d (JStr s) = valid_utf8 s"
| "valid_json d (JArr es) = (0 < d \<and> list_all (valid_json (d - 1)) es)"
| "valid_json d (JObj ms) = (0 < d \<and> list_all (\<lambda>(k, v). valid_utf8 k \<and> valid_json (d - 1) v) ms)"
| "valid_json d j = True"

lemma skip_ws_id: "s \<noteq> [] \<Longrightarrow> \<not> is_ws (hd s) \<Longrightarrow> skip_ws s = s"
  by (cases s) (auto simp: skip_ws_def)

lemma encode_hd:
  assumes "valid_json d j"
  shows "encode_json j \<noteq> [] \<and> hd (encode_json j) \<notin> set ''}],:'' \<and> \<not> is_ws (hd (encode_json j))"
proof (cases j)
  case (JNum n)
  with assms have "number_ok n" by simp
  with JNum show ?thesis
    by (elim number_ok_hd) (auto simp: is_ws_def is_digit_def byte_def)
qed (auto simp: encode_string_def is_ws_def)

lemma parse_value_number:
  assumes "number_ok n" "ends t"
  shows "parse_value d (n @ t) = Some (JNum n, t)"
proof -
  from assms(1) obtain c r where n: "n = c # r" "c = CHR ''-'' \<or> is_digit c" by (rule number_ok_hd)
  then have "c \<notin> set ''{[tfn'' \<and> c \<noteq> CHR 0x22" by (auto simp: is_digit_def byte_def)
  with n number_ok_scan [OF assms] show ?thesis
    by (subst parse_value.simps) simp
qed

lemma parse_value_string:
  "valid_utf8 s \<Longrightarrow> parse_value d (encode_string s @ t) = Some (JStr s, t)"
  by (subst parse_value.simps) (simp add: encode_string_def scan_escape_string unquote_escape)

lemma parse_value_literals:
  "parse_value d (''null'' @ t) = Some (JNull, t)"
  "parse_value d ((if b then ''true'' else ''false'') @ t) = Some (JBool b, t)"
  by (subst parse_value.simps; simp add: literal_def HasPrefix_def)+

definition parses :: "nat \<Rightarrow> json \<Rightarrow> bool" where
  "parses d j \<longleftrightarrow> (\<forall>t. ends t \<longrightarrow> parse_value d (encode_json j @ t) = Some (j, t))"

lemma parse_encoded_elems:
  assumes "list_all (\<lambda>e. parses d e \<and> valid_json d e) es" "es \<noteq> []"
  shows "parse_elems d (encode_elems es @ CHR '']'' # t) = Some (map (\<lambda>e. (encode_json e, e)) es, t)"
  using assms
proof (induction es)
  case (Cons e es)
  let ?t = "(if es = [] then [] else CHR '','' # encode_elems es) @ CHR '']'' # t"
  have p: "parse_value d (encode_json e @ ?t) = Some (e, ?t)"
    using Cons.prems(1) by (auto simp: parses_def)
  have len: "length ?t < length (encode_json e @ ?t)"
    using Cons.prems(1) encode_hd [of d e] by auto
  show ?case
  proof (cases "es = []")
    case True
    with p len show ?thesis
      by (subst parse_elems.simps) (simp add: HasPrefix_def skip_ws_def is_ws_def)
  next
    case False
    then obtain e' es' where es: "es = e' # es'" by (cases es) auto
    have "skip_ws (encode_elems es @ CHR '']'' # t) = encode_elems es @ CHR '']'' # t"
      using encode_hd [of d e'] Cons.prems(1) es by (intro skip_ws_id) auto
    with p len False Cons.IH Cons.prems(1) show ?thesis
      by (subst parse_elems.simps) (simp add: HasPrefix_def skip_ws_id is_ws_def)
  qed
qed simp

lemma scan_encoded:
  "HasPrefix (encode_string k @ u) [CHR 0x22] \<and>
   scan_string (drop 1 (encode_string k @ u)) = Some (escape_string k, u)"
  by (simp add: encode_string_def HasPrefix_def scan_escape_string)

text \<open>A raw value: its bytes parse to a value and leave whatever follows.\<close>

definition raw_ok :: "nat \<Rightarrow> bytes \<Rightarrow> json \<Rightarrow> bool" where
  "raw_ok d raw v \<longleftrightarrow> raw \<noteq> [] \<and> \<not> is_ws (hd raw) \<and> (\<forall>t. ends t \<longrightarrow> parse_value d (raw @ t) = Some (v, t))"

lemma parse_raw_members:
  assumes "list_all (\<lambda>(k, raw, v). valid_utf8 k \<and> raw_ok d raw v) ms" "ms \<noteq> []"
  shows "parse_members d (raw_members (map (\<lambda>(k, raw, _). (k, raw)) ms) @ CHR ''}'' # t) = Some (ms, t)"
  using assms
proof (induction ms)
  case (Cons m ms)
  obtain k raw v where m: "m = (k, raw, v)" by (cases m)
  let ?f = "\<lambda>(k, raw, _). (k, raw)"
  let ?t = "(if ms = [] then [] else CHR '','' # raw_members (map ?f ms)) @ CHR ''}'' # t"
  let ?u = "CHR '':'' # raw @ ?t"
  have p: "parse_value d (raw @ ?t) = Some (v, ?t)"
    using Cons.prems(1) m by (auto simp: raw_ok_def)
  have h: "raw \<noteq> []" "\<not> is_ws (hd raw)" and k: "unquote (escape_string k) = k"
    using Cons.prems(1) m by (auto simp: raw_ok_def unquote_escape)
  have w: "skip_ws ?u = ?u" "skip_ws (raw @ ?t) = raw @ ?t" "skip_ws ?t = ?t"
    using h by (auto intro!: skip_ws_id simp: is_ws_def)
  have len: "length ?t < length (raw @ ?t)" "length ?u < length (encode_string k @ ?u)"
    using h by (auto simp: encode_string_def)
  have e: "raw_members (map ?f (m # ms)) @ CHR ''}'' # t = encode_string k @ ?u" by (simp add: m)
  have step: "parse_members d (encode_string k @ ?u) =
      (let m = (unquote (escape_string k), raw, v) in
       if HasPrefix ?t '','' then
         map_option (\<lambda>(ms, r'). (m # ms, r')) (parse_members d (skip_ws (drop 1 ?t)))
       else if HasPrefix ?t ''}'' then Some ([m], drop 1 ?t) else None)"
    using p len h scan_encoded [of k ?u] w
    by (subst parse_members.simps) (simp add: Let_def HasPrefix_def del: scan_string.simps)
  show ?case
  proof (cases "ms = []")
    case True
    then show ?thesis unfolding e step k by (simp add: HasPrefix_def m)
  next
    case False
    then obtain k' raw' v' ms' where ms: "ms = (k', raw', v') # ms'" by (cases ms) auto
    have "skip_ws (raw_members (map ?f ms) @ CHR ''}'' # t) = raw_members (map ?f ms) @ CHR ''}'' # t"
      by (intro skip_ws_id) (auto simp: ms encode_string_def is_ws_def)
    then show ?thesis unfolding e step k using False Cons.IH Cons.prems(1) by (simp add: HasPrefix_def m)
  qed
qed simp

lemma encode_members_raw: "encode_members ms = raw_members (map (\<lambda>(k, v). (k, encode_json v)) ms)"
  by (induction ms) auto

lemma encoded_raw_ok: "parses d v \<Longrightarrow> valid_json d v \<Longrightarrow> raw_ok d (encode_json v) v"
  using encode_hd [of d v] by (simp add: raw_ok_def parses_def)

lemma parse_encoded_members:
  assumes "list_all (\<lambda>(k, v). valid_utf8 k \<and> parses d v \<and> valid_json d v) ms" "ms \<noteq> []"
  shows "parse_members d (encode_members ms @ CHR ''}'' # t) =
    Some (map (\<lambda>(k, v). (k, encode_json v, v)) ms, t)"
  using parse_raw_members [of d "map (\<lambda>(k, v). (k, encode_json v, v)) ms" t] assms
  by (simp add: encode_members_raw list_all_iff split_beta' comp_def encoded_raw_ok)

lemma encode_parses: "valid_json d j \<Longrightarrow> parses d j"
proof (induction j arbitrary: d)
  case (JNum n)
  then show ?case by (simp add: parses_def parse_value_number)
next
  case (JStr s)
  then show ?case by (simp add: parses_def parse_value_string)
next
  case JNull
  then show ?case using parse_value_literals(1) by (simp add: parses_def)
next
  case (JBool b)
  show ?case using parse_value_literals(2) by (simp add: parses_def)
next
  case (JArr es)
  show ?case unfolding parses_def
  proof (intro allI impI)
    fix t
    assume "ends t"
    have es: "list_all (\<lambda>e. parses (d - 1) e \<and> valid_json (d - 1) e) es" "0 < d"
      using JArr by (auto simp: list_all_iff)
    show "parse_value d (encode_json (JArr es) @ t) = Some (JArr es, t)"
    proof (cases es)
      case Nil
      with es show ?thesis by (subst parse_value.simps) (simp add: skip_ws_def is_ws_def HasPrefix_def)
    next
      case (Cons e es')
      have w: "skip_ws (encode_elems es @ CHR '']'' # t) = encode_elems es @ CHR '']'' # t"
        and h: "\<not> HasPrefix (encode_elems es @ CHR '']'' # t) '']''"
        using encode_hd [of "d - 1" e] es(1) Cons
        by (auto intro!: skip_ws_id simp: prefix_hd)
      from parse_encoded_elems [OF es(1)] Cons es(2) w h show ?thesis
        by (subst parse_value.simps) (simp add: comp_def)
    qed
  qed
next
  case (JObj ms)
  show ?case unfolding parses_def
  proof (intro allI impI)
    fix t
    assume "ends t"
    have ms: "list_all (\<lambda>(k, v). valid_utf8 k \<and> parses (d - 1) v \<and> valid_json (d - 1) v) ms" "0 < d"
      using JObj by (fastforce simp: list_all_iff)+
    show "parse_value d (encode_json (JObj ms) @ t) = Some (JObj ms, t)"
    proof (cases ms)
      case Nil
      with ms show ?thesis by (subst parse_value.simps) (simp add: skip_ws_def is_ws_def HasPrefix_def)
    next
      case (Cons m ms')
      have w: "skip_ws (encode_members ms @ CHR ''}'' # t) = encode_members ms @ CHR ''}'' # t"
        and h: "\<not> HasPrefix (encode_members ms @ CHR ''}'' # t) ''}''"
        using Cons by (cases m; auto intro!: skip_ws_id simp: encode_string_def is_ws_def HasPrefix_def)+
      from parse_encoded_members [OF ms(1)] Cons ms(2) w h show ?thesis
        by (subst parse_value.simps) (simp add: comp_def case_prod_beta)
    qed
  qed
qed

lemma parse_json_encode: "valid_json max_depth j \<Longrightarrow> parse_json (encode_json j) = Some j"
  using encode_parses [of max_depth j] encode_hd [of max_depth j]
  by (auto simp: parse_json_def parses_def skip_ws_id dest!: spec [of _ "[]"]) (simp add: skip_ws_def)

end
