(* ===== verification/GoQuote.thy ===== *)
theory GoQuote
  imports GoJsonRound
begin

text \<open>
  \<open>strconv.Quote\<close>, which is also \<open>fmt\<close>'s \<open>%q\<close>, on byte strings. Which code points outside ASCII
  are printable comes from Go's Unicode tables: \<open>pr\<close> says it of a code point's UTF-8 encoding.
  The quoted form determines the string, whatever the tables say.
\<close>

section \<open>Definitions\<close>

fun utf8_rune :: "bytes \<Rightarrow> nat" where
  "utf8_rune [a, b] = (byte a - 0xC0) * 64 + (byte b - 0x80)"
| "utf8_rune [a, b, c] = (byte a - 0xE0) * 4096 + (byte b - 0x80) * 64 + (byte c - 0x80)"
| "utf8_rune [a, b, c, d] =
     (byte a - 0xF0) * 262144 + (byte b - 0x80) * 4096 + (byte c - 0x80) * 64 + (byte d - 0x80)"
| "utf8_rune s = 0"

fun hex_text :: "nat \<Rightarrow> nat \<Rightarrow> bytes" where
  "hex_text 0 r = []"
| "hex_text (Suc n) r = hex_text n (r div 16) @ [hex_digit (r mod 16)]"

definition backslash :: char where "backslash = CHR 0x5C"

definition quote_ascii :: "char \<Rightarrow> bytes" where
  "quote_ascii c =
     (if c = CHR 0x22 \<or> c = CHR 0x5C then [backslash, c]
      else if 0x20 \<le> byte c \<and> byte c < 0x7F then [c]
      else if c = CHR 0x07 then [backslash, CHR ''a''] else if c = CHR 0x08 then [backslash, CHR ''b'']
      else if c = CHR 0x0C then [backslash, CHR ''f''] else if c = CHR 0x0A then [backslash, CHR ''n'']
      else if c = CHR 0x0D then [backslash, CHR ''r''] else if c = CHR 0x09 then [backslash, CHR ''t'']
      else if c = CHR 0x0B then [backslash, CHR ''v'']
      else backslash # CHR ''x'' # hex_text 2 (byte c))"

definition quote_rune :: "(bytes \<Rightarrow> bool) \<Rightarrow> bytes \<Rightarrow> bytes" where
  "quote_rune pr u =
     (if pr u then u
      else if utf8_rune u < 0x10000 then backslash # CHR ''u'' # hex_text 4 (utf8_rune u)
      else backslash # CHR ''U'' # hex_text 8 (utf8_rune u))"

function quote_body :: "(bytes \<Rightarrow> bool) \<Rightarrow> bytes \<Rightarrow> bytes" where
  "quote_body pr s =
     (case s of
       [] \<Rightarrow> []
     | c # r \<Rightarrow>
         if byte c < 0x80 then quote_ascii c @ quote_body pr r
         else if utf8_len s = 0 then backslash # CHR ''x'' # hex_text 2 (byte c) @ quote_body pr r
         else quote_rune pr (take (utf8_len s) s) @ quote_body pr (drop (utf8_len s) s))"
  by pat_completeness auto
termination
  by (relation "measure (\<lambda>(pr, s). length s)") auto

declare quote_body.simps [simp del]

definition quote :: "(bytes \<Rightarrow> bool) \<Rightarrow> bytes \<Rightarrow> bytes" where
  "quote pr s = CHR 0x22 # quote_body pr s @ [CHR 0x22]"

section \<open>Reading a quoted string\<close>

definition escape_letter :: "char \<Rightarrow> char" where
  "escape_letter e =
     (if e = CHR ''a'' then CHR 0x07 else if e = CHR ''b'' then CHR 0x08 else if e = CHR ''f'' then CHR 0x0C
      else if e = CHR ''n'' then CHR 0x0A else if e = CHR ''r'' then CHR 0x0D
      else if e = CHR ''t'' then CHR 0x09 else if e = CHR ''v'' then CHR 0x0B else e)"

fun hex_value :: "nat \<Rightarrow> bytes \<Rightarrow> nat" where
  "hex_value v [] = v"
| "hex_value v (h # hs) = hex_value (v * 16 + unhex h) hs"

definition escape_width :: "char \<Rightarrow> nat" where
  "escape_width e = (if e = CHR ''x'' then 2 else if e = CHR ''u'' then 4 else if e = CHR ''U'' then 8 else 0)"

function read_quoted :: "bytes \<Rightarrow> (bytes \<times> bytes) option" where
  "read_quoted s =
     (case s of
       [] \<Rightarrow> None
     | c # r \<Rightarrow>
         if c = CHR 0x22 then Some ([], r)
         else if c = backslash then
           (case r of
             [] \<Rightarrow> None
           | e # r1 \<Rightarrow>
               let v = hex_value 0 (take (escape_width e) r1);
                   u = (if e = CHR ''x'' then [char_of v]
                        else if escape_width e = 0 then [escape_letter e] else utf8_encode v)
               in map_option (\<lambda>(a, b). (u @ a, b)) (read_quoted (drop (escape_width e) r1)))
         else map_option (\<lambda>(a, b). (c # a, b)) (read_quoted r))"
  by pat_completeness auto
termination
  by (relation "measure length") auto

declare read_quoted.simps [simp del]

lemma byte_of_char: "n < 256 \<Longrightarrow> byte (char_of n) = n"
  by (simp add: byte_def)

lemma char_of_byte: "char_of (byte c) = c"
  by (simp add: byte_def)

lemma byte_less: "byte c < 256"
  unfolding byte_def using range_nat_of_char by force

lemma unhex_digit: "d < 16 \<Longrightarrow> unhex (hex_digit d) = d"
  by (auto simp: unhex_def hex_digit_def is_digit_def byte_of_char)

lemma hex_value_append: "hex_value v (xs @ ys) = hex_value (hex_value v xs) ys"
  by (induction v xs rule: hex_value.induct) auto

lemma hex_text_length [simp]: "length (hex_text n r) = n"
  by (induction n r rule: hex_text.induct) auto

lemma hex_value_text: "hex_value 0 (hex_text n r) = r mod 16 ^ n"
proof (induction n r rule: hex_text.induct)
  case (2 n r)
  have "hex_value 0 (hex_text (Suc n) r) = (r div 16 mod 16 ^ n) * 16 + r mod 16"
    using 2 by (simp add: hex_value_append unhex_digit)
  also have "\<dots> = r mod 16 ^ Suc n"
    by (simp add: mod_mult2_eq)
  finally show ?case .
qed simp

lemma read_hex:
  "read_quoted (backslash # CHR ''x'' # hex_text 2 v @ t) =
    map_option (\<lambda>(a, b). (char_of (v mod 256) # a, b)) (read_quoted t)"
  "read_quoted (backslash # CHR ''u'' # hex_text 4 v @ t) =
    map_option (\<lambda>(a, b). (utf8_encode (v mod 65536) @ a, b)) (read_quoted t)"
  "read_quoted (backslash # CHR ''U'' # hex_text 8 v @ t) =
    map_option (\<lambda>(a, b). (utf8_encode (v mod 4294967296) @ a, b)) (read_quoted t)"
  by (subst read_quoted.simps;
      simp add: backslash_def escape_width_def hex_value_text hex_text.simps [of 1] Let_def del: hex_text.simps)+

lemma read_escape: "e \<notin> set ''xuU'' \<Longrightarrow>
  read_quoted (backslash # e # t) = map_option (\<lambda>(a, b). (escape_letter e # a, b)) (read_quoted t)"
  by (subst read_quoted.simps) (simp add: backslash_def escape_width_def)

lemma read_plain: "c \<noteq> CHR 0x22 \<Longrightarrow> c \<noteq> backslash \<Longrightarrow>
  read_quoted (c # t) = map_option (\<lambda>(a, b). (c # a, b)) (read_quoted t)"
  by (subst read_quoted.simps) simp

lemma read_ascii: "read_quoted (quote_ascii c @ t) = map_option (\<lambda>(a, b). (c # a, b)) (read_quoted t)"
proof -
  consider "c = CHR 0x22 \<or> c = CHR 0x5C" | "c \<in> {CHR 0x07, CHR 0x08, CHR 0x0C, CHR 0x0A, CHR 0x0D, CHR 0x09, CHR 0x0B}"
    | "c \<noteq> CHR 0x22" "c \<noteq> CHR 0x5C" "0x20 \<le> byte c \<and> byte c < 0x7F"
    | "quote_ascii c = backslash # CHR ''x'' # hex_text 2 (byte c)"
    unfolding quote_ascii_def by (cases "c = CHR 0x22 \<or> c = CHR 0x5C"; cases "0x20 \<le> byte c \<and> byte c < 0x7F";
        cases "c \<in> {CHR 0x07, CHR 0x08, CHR 0x0C, CHR 0x0A, CHR 0x0D, CHR 0x09, CHR 0x0B}") auto
  then show ?thesis
  proof cases
    case 1
    then show ?thesis by (auto simp: quote_ascii_def read_escape escape_letter_def)
  next
    case 2
    then show ?thesis
      by (elim insertE emptyE) (simp_all add: quote_ascii_def byte_def read_escape escape_letter_def)
  next
    case 3
    then show ?thesis by (simp add: quote_ascii_def read_plain backslash_def)
  next
    case 4
    then show ?thesis using read_hex(1) [of "byte c" t] byte_less [of c] by (simp add: char_of_byte del: hex_text.simps)
  qed
qed

lemma read_high: "\<forall>c \<in> set u. 0x80 \<le> byte c \<Longrightarrow>
  read_quoted (u @ t) = map_option (\<lambda>(a, b). (u @ a, b)) (read_quoted t)"
proof (induction u)
  case (Cons c u)
  then have "c \<noteq> CHR 0x22" "c \<noteq> backslash" by (auto simp: byte_def backslash_def)
  with Cons show ?case by (simp add: read_plain option.map_comp comp_def case_prod_beta)
qed (simp add: option.map_id case_prod_beta)

lemma byte_offset: "k \<le> byte c \<Longrightarrow> c = char_of (k + (byte c - k))"
  by (simp add: char_of_byte)

lemma is_cont_offset:
  assumes "is_cont a"
  obtains q where "q < 64" "a = char_of (0x80 + q)" "byte a = 0x80 + q"
  using assms that [of "byte a - 0x80"] byte_offset [of 128 a] by (auto simp: is_cont_def)

lemma encode_two: "2 \<le> p \<Longrightarrow> p < 32 \<Longrightarrow> q < 64 \<Longrightarrow>
  utf8_encode (p * 64 + q) = [char_of (0xC0 + p), char_of (0x80 + q)] \<and> p * 64 + q < 0x110000"
  by (simp add: utf8_encode_def)

lemma div64: "q < 64 \<Longrightarrow> (p * 64 + q) div 64 = (p::nat)" "q < 64 \<Longrightarrow> (p * 64 + q) mod 64 = (q::nat)"
  by simp_all

lemma div64_twice: "n div 4096 = n div 64 div (64::nat)" "n div 262144 = n div 64 div 64 div (64::nat)"
  by (simp_all add: div_mult2_eq [symmetric])

lemma encode_three:
  assumes "p < 16" "q < 64" "r < 64" "0x800 \<le> p * 4096 + q * 64 + r"
  shows "utf8_encode (p * 4096 + q * 64 + r) = [char_of (0xE0 + p), char_of (0x80 + q), char_of (0x80 + r)] \<and>
    p * 4096 + q * 64 + r < 0x110000"
proof -
  have n: "p * 4096 + q * 64 + r = (p * 64 + q) * 64 + r" by simp
  have "p * 4096 + q * 64 + r < 0x10000" using assms by simp
  then show ?thesis
    using assms unfolding utf8_encode_def n div64_twice by (simp only: div64) simp
qed

lemma encode_four:
  assumes "p < 5" "q < 64" "r < 64" "u < 64" "0x10000 \<le> p * 262144 + q * 4096 + r * 64 + u"
  shows "utf8_encode (p * 262144 + q * 4096 + r * 64 + u) =
    [char_of (0xF0 + p), char_of (0x80 + q), char_of (0x80 + r), char_of (0x80 + u)]"
proof -
  have n: "p * 262144 + q * 4096 + r * 64 + u = ((p * 64 + q) * 64 + r) * 64 + u" by simp
  show ?thesis
    using assms unfolding utf8_encode_def n div64_twice by (simp only: div64) simp
qed

lemma utf8_encode_rune:
  assumes "\<not> byte c < 0x80" "utf8_len (c # t) \<noteq> 0"
  defines "u \<equiv> take (utf8_len (c # t)) (c # t)"
  shows "utf8_encode (utf8_rune u) = u \<and> utf8_rune u < 0x140000"
proof -
  consider (two) a t' where "t = a # t'" "is_cont a" "utf8_len (c # t) = 2" "194 \<le> byte c" "byte c \<le> 223"
    | (three) a b t' where "t = a # b # t'" "is_cont a" "is_cont b" "utf8_len (c # t) = 3"
        "224 \<le> byte c" "byte c \<le> 239" "byte c = 224 \<longrightarrow> 160 \<le> byte a"
    | (four) a b d t' where "t = a # b # d # t'" "is_cont a" "is_cont b" "is_cont d" "utf8_len (c # t) = 4"
        "240 \<le> byte c" "byte c \<le> 244" "byte c = 240 \<longrightarrow> 144 \<le> byte a"
  proof -
    consider "194 \<le> byte c \<and> byte c \<le> 223" | "224 \<le> byte c \<and> byte c \<le> 239" | "240 \<le> byte c \<and> byte c \<le> 244"
      using assms(1,2) by (auto simp: Let_def split: if_splits)
    then show thesis
      by cases (use assms(1,2) two three four in \<open>auto simp: Let_def split: list.splits if_splits\<close>)
  qed
  then show ?thesis
  proof cases
    case two
    from two(2) obtain q where q: "q < 64" "a = char_of (0x80 + q)" "byte a = 0x80 + q" by (rule is_cont_offset)
    with two encode_two [of "byte c - 192" q] byte_offset [of 192 c]
    show ?thesis by (simp add: u_def del: utf8_len.simps)
  next
    case three
    from three(2) obtain q where q: "q < 64" "a = char_of (0x80 + q)" "byte a = 0x80 + q" by (rule is_cont_offset)
    from three(3) obtain r where r: "r < 64" "b = char_of (0x80 + r)" "byte b = 0x80 + r" by (rule is_cont_offset)
    have "0x800 \<le> (byte c - 224) * 4096 + q * 64 + r" using three q by (cases "byte c = 224") auto
    with three q r encode_three [of "byte c - 224" q r] byte_offset [of 224 c]
    show ?thesis by (simp add: u_def del: utf8_len.simps)
  next
    case four
    from four(2) obtain q where q: "q < 64" "a = char_of (0x80 + q)" "byte a = 0x80 + q" by (rule is_cont_offset)
    from four(3) obtain r where r: "r < 64" "b = char_of (0x80 + r)" "byte b = 0x80 + r" by (rule is_cont_offset)
    from four(4) obtain v where v: "v < 64" "d = char_of (0x80 + v)" "byte d = 0x80 + v" by (rule is_cont_offset)
    have "0x10000 \<le> (byte c - 240) * 262144 + q * 4096 + r * 64 + v" using four q by (cases "byte c = 240") auto
    with four q r v encode_four [of "byte c - 240" q r v] byte_offset [of 240 c]
    show ?thesis by (simp add: u_def del: utf8_len.simps)
  qed
qed

lemma read_rune:
  assumes "\<not> byte c < 0x80" "utf8_len (c # t) \<noteq> 0"
  defines "u \<equiv> take (utf8_len (c # t)) (c # t)"
  shows "read_quoted (quote_rune pr u @ x) = map_option (\<lambda>(a, b). (u @ a, b)) (read_quoted x)"
proof -
  have e: "utf8_encode (utf8_rune u) = u" "utf8_rune u < 0x140000"
    using utf8_encode_rune [OF assms(1,2)] by (auto simp: u_def)
  have "\<forall>c \<in> set u. 0x80 \<le> byte c"
    using assms(1,2) by (cases "c # t" rule: utf8_len_cases) (auto simp: u_def simp del: utf8_len.simps)
  then show ?thesis
    using read_high [of u x] read_hex(2,3) [of "utf8_rune u" x] e
    by (simp add: quote_rune_def del: hex_text.simps)
qed

lemma read_quote_body: "read_quoted (quote_body pr s @ CHR 0x22 # t) = Some (s, t)"
proof (induction pr s rule: quote_body.induct)
  case (1 pr s)
  show ?case
  proof (cases s)
    case Nil
    then show ?thesis by (simp add: quote_body.simps [of pr "[]"] read_quoted.simps [of "CHR 0x22 # t"])
  next
    case (Cons c r)
    consider "byte c < 0x80" | "\<not> byte c < 0x80" "utf8_len s = 0" | "\<not> byte c < 0x80" "utf8_len s \<noteq> 0" by blast
    then show ?thesis
    proof cases
      case 1
      with "1.IH"(1) [OF Cons] Cons show ?thesis
        by (subst quote_body.simps) (simp add: read_ascii)
    next
      case 2
      with "1.IH"(2) [OF Cons] Cons read_hex(1) [of "byte c"] byte_less [of c] show ?thesis
        by (subst quote_body.simps) (simp add: char_of_byte del: hex_text.simps utf8_len.simps)
    next
      case 3
      with "1.IH"(3) [OF Cons] Cons read_rune [of c r] show ?thesis
        by (subst quote_body.simps) (simp add: case_prod_beta del: utf8_len.simps)
    qed
  qed
qed

text \<open>Quoting is injective, and a quoted string is delimited: what follows it can be told apart.\<close>

lemma quote_prefix_code: "quote pr s @ x = quote pr t @ y \<longleftrightarrow> s = t \<and> x = y"
proof
  assume "quote pr s @ x = quote pr t @ y"
  then have "quote_body pr s @ CHR 0x22 # x = quote_body pr t @ CHR 0x22 # y" by (simp add: quote_def)
  then have "read_quoted (quote_body pr s @ CHR 0x22 # x) = read_quoted (quote_body pr t @ CHR 0x22 # y)"
    by (rule arg_cong)
  then show "s = t \<and> x = y" unfolding read_quote_body by simp
qed simp

lemma quote_inject [simp]: "quote pr s = quote pr t \<longleftrightarrow> s = t"
  using quote_prefix_code [of pr s "[]" t "[]"] by simp

end
