(* ===== verification/GoJsonRaw.thy ===== *)
theory GoJsonRaw
  imports GoJsonRound
begin

text \<open>
  The parser is local: what it accepts it consumes as a definite text, which parses to the
  same value on its own and at any greater depth. So the bytes of a member, kept as a raw
  message and decoded again later, mean what they meant in the message they came from.
\<close>

section \<open>Lexical elements\<close>

definition no_digit :: "bytes \<Rightarrow> bool" where
  "no_digit x \<longleftrightarrow> x = [] \<or> \<not> is_digit (hd x)"

lemma take_digits_local:
  assumes "take_digits s = (ds, r)"
  shows "s = ds @ r" "no_digit x \<Longrightarrow> take_digits (ds @ x) = (ds, x)" "no_digit r"
  using assms hd_dropWhile [of is_digit s]
  by (cases x; auto simp: take_digits_def no_digit_def takeWhile_append dropWhile_append dest: set_takeWhileD)+

lemma scan_int_local:
  assumes "scan_int s = Some (ds, r)"
  shows "s = ds @ r" "no_digit x \<Longrightarrow> scan_int (ds @ x) = Some (ds, x)"
proof -
  have "s = ds @ r \<and> (no_digit x \<longrightarrow> scan_int (ds @ x) = Some (ds, x))"
  proof (cases "HasPrefix s ''0''")
    case True
    with assms have "ds = ''0''" "r = drop 1 s" by (auto simp: scan_int_def)
    with True show ?thesis by (cases s) (auto simp: HasPrefix_def scan_int_def)
  next
    case False
    obtain a b where ab: "take_digits s = (a, b)" by (cases "take_digits s")
    with False assms have *: "a = ds" "b = r" "ds \<noteq> []" by (auto simp: scan_int_def split: if_splits)
    with take_digits_local [OF ab] False have "s = ds @ r" "\<not> HasPrefix (ds @ x) ''0''"
      by (cases ds; auto simp: HasPrefix_def)+
    with * take_digits_local(2) [OF ab, of x] show ?thesis by (auto simp: scan_int_def)
  qed
  then show "s = ds @ r" "no_digit x \<Longrightarrow> scan_int (ds @ x) = Some (ds, x)" by blast+
qed

lemma scan_frac_local:
  assumes "scan_frac s = Some (fs, r)"
  shows "s = fs @ r" "no_digit x \<Longrightarrow> \<not> HasPrefix x ''.'' \<Longrightarrow> scan_frac (fs @ x) = Some (fs, x)"
    "fs = [] \<or> hd fs = CHR ''.''"
proof -
  have "s = fs @ r \<and> (no_digit x \<longrightarrow> \<not> HasPrefix x ''.'' \<longrightarrow> scan_frac (fs @ x) = Some (fs, x)) \<and>
      (fs = [] \<or> hd fs = CHR ''.'')"
  proof (cases "HasPrefix s ''.''")
    case True
    obtain a b where ab: "take_digits (drop 1 s) = (a, b)" by (cases "take_digits (drop 1 s)")
    with True assms have "fs = CHR ''.'' # a" "r = b" "a \<noteq> []" by (auto simp: scan_frac_def split: if_splits)
    with True take_digits_local(1) [OF ab] take_digits_local(2) [OF ab, of x] show ?thesis
      by (cases s) (auto simp: HasPrefix_def scan_frac_def)
  next
    case False
    with assms show ?thesis by (auto simp: scan_frac_def)
  qed
  then show "s = fs @ r" "no_digit x \<Longrightarrow> \<not> HasPrefix x ''.'' \<Longrightarrow> scan_frac (fs @ x) = Some (fs, x)"
    "fs = [] \<or> hd fs = CHR ''.''" by blast+
qed

lemma scan_exp_local:
  assumes "scan_exp s = Some (es, r)"
  shows "s = es @ r" "no_digit x \<Longrightarrow> \<not> HasPrefix x ''e'' \<Longrightarrow> \<not> HasPrefix x ''E'' \<Longrightarrow> scan_exp (es @ x) = Some (es, x)"
    "es = [] \<or> hd es = CHR ''e'' \<or> hd es = CHR ''E''"
proof -
  have "s = es @ r \<and> (no_digit x \<longrightarrow> \<not> HasPrefix x ''e'' \<longrightarrow> \<not> HasPrefix x ''E'' \<longrightarrow> scan_exp (es @ x) = Some (es, x)) \<and>
    (es = [] \<or> hd es = CHR ''e'' \<or> hd es = CHR ''E'')"
  proof (cases "HasPrefix s ''e'' \<or> HasPrefix s ''E''")
    case True
    then obtain e s1 where s: "s = e # s1" "e = CHR ''e'' \<or> e = CHR ''E''" by (cases s) (auto simp: HasPrefix_def)
    define sg where "sg = (if HasPrefix s1 ''+'' \<or> HasPrefix s1 ''-'' then take 1 s1 else [])"
    define s2 where "s2 = drop (length sg) s1"
    have s1: "s1 = sg @ s2" by (cases s1) (auto simp: sg_def s2_def HasPrefix_def)
    obtain a b where ab: "take_digits s2 = (a, b)" by (cases "take_digits s2")
    have k: "(if HasPrefix s1 ''+'' \<or> HasPrefix s1 ''-'' then 1 else 0) = length sg"
      by (cases s1) (auto simp: sg_def HasPrefix_def)
    have "take (length sg) s1 = sg" "drop (length sg) s1 = s2" using s1 by auto
    moreover have "HasPrefix (e # y) ''e'' \<or> HasPrefix (e # y) ''E''" for y
      using s(2) by (auto simp: HasPrefix_def)
    ultimately have step: "scan_exp (e # s1) = (if a = [] then None else Some (e # sg @ a, b))"
      unfolding scan_exp_def Let_def using k ab by simp
    with assms s have r: "es = e # sg @ a" "r = b" "a \<noteq> []" by (auto split: if_splits)
    have k': "(if HasPrefix (sg @ a @ x) ''+'' \<or> HasPrefix (sg @ a @ x) ''-'' then 1 else 0) = length sg"
      using k s1 r(3) take_digits_local(1) [OF ab] by (cases sg; cases a) (auto simp: HasPrefix_def split: if_splits)
    have "take (length sg) (sg @ y) = sg" "drop (length sg) (sg @ y) = y" for y by simp_all
    moreover have "HasPrefix (e # y) ''e'' \<or> HasPrefix (e # y) ''E''" for y
      using s(2) by (auto simp: HasPrefix_def)
    ultimately have "no_digit x \<Longrightarrow> scan_exp (e # sg @ a @ x) = Some (e # sg @ a, x)"
      unfolding scan_exp_def Let_def using k' take_digits_local(2) [OF ab, of x] r(3) by simp
    then show ?thesis
      using r s s1 take_digits_local(1) [OF ab] by auto
  next
    case False
    with assms show ?thesis by (auto simp: scan_exp_def)
  qed
  then show "s = es @ r" "no_digit x \<Longrightarrow> \<not> HasPrefix x ''e'' \<Longrightarrow> \<not> HasPrefix x ''E'' \<Longrightarrow> scan_exp (es @ x) = Some (es, x)"
    "es = [] \<or> hd es = CHR ''e'' \<or> hd es = CHR ''E''" by blast+
qed

lemma ends_no_digit:
  assumes "ends t"
  shows "no_digit t" "\<not> HasPrefix t ''.''" "\<not> HasPrefix t ''e''" "\<not> HasPrefix t ''E''"
  using assms by (cases t; auto simp: ends_def no_digit_def HasPrefix_def is_ws_def is_digit_def byte_def)+

lemma scan_number_local:
  assumes "scan_number s = Some (n, r)"
  shows "s = n @ r \<and> n \<noteq> [] \<and> (\<forall>t. ends t \<longrightarrow> scan_number (n @ t) = Some (n, t))"
proof -
  define sg where "sg = (if HasPrefix s ''-'' then ''-'' else [])"
  define s1 where "s1 = drop (length sg) s"
  have s: "s = sg @ s1" by (cases s) (auto simp: sg_def s1_def HasPrefix_def)
  have "(if HasPrefix s ''-'' then (''-'', drop 1 s) else ([], s)) = (sg, s1)"
    by (simp add: sg_def s1_def)
  with assms obtain ds s2 fs s3 es where i: "scan_int s1 = Some (ds, s2)" and f: "scan_frac s2 = Some (fs, s3)"
    and e: "scan_exp s3 = Some (es, r)" and n: "n = sg @ ds @ fs @ es"
    by (auto simp: scan_number_def split: option.splits)
  have ds: "ds \<noteq> []" "hd ds \<noteq> CHR ''-''" using i
    by (cases s1; auto simp: scan_int_def take_digits_def is_digit_def byte_def split: if_splits)+
  show ?thesis
  proof (intro conjI allI impI)
    show "s = n @ r" using s n scan_int_local(1) [OF i] scan_frac_local(1) [OF f] scan_exp_local(1) [OF e] by simp
    show "n \<noteq> []" using n ds by simp
    fix t
    assume t: "ends t"
    note nd = ends_no_digit [OF t]
    have x: "no_digit (es @ t)" "\<not> HasPrefix (es @ t) ''.''" "no_digit (fs @ es @ t)"
      using scan_exp_local(3) [OF e] scan_frac_local(3) [OF f] nd
      by (cases es; cases fs; auto simp: no_digit_def is_digit_def byte_def HasPrefix_def)+
    have p: "(if HasPrefix (n @ t) ''-'' then (''-'', drop 1 (n @ t)) else ([], n @ t)) = (sg, ds @ fs @ es @ t)"
      using ds n by (cases ds) (auto simp: sg_def HasPrefix_def)
    show "scan_number (n @ t) = Some (n, t)"
      using scan_int_local(2) [OF i x(3)] scan_frac_local(2) [OF f x(1,2)] scan_exp_local(2) [OF e nd(1,3,4)]
      unfolding scan_number_def p by (simp add: n)
  qed
qed

lemma scan_string_local:
  "scan_string s = Some (q, r) \<Longrightarrow> \<exists>u. s = u @ r \<and> u \<noteq> [] \<and> (\<forall>t. scan_string (u @ t) = Some (q, t))"
proof (induction s arbitrary: q r rule: scan_string.induct)
  case (2 c s)
  consider "c = CHR 0x22" | e s' where "c = CHR 0x5C" "s = e # s'" "simple_escape e"
    | e h1 h2 h3 h4 s' where "c = CHR 0x5C" "s = e # h1 # h2 # h3 # h4 # s'" "\<not> simple_escape e" "e = CHR ''u''"
        "is_hex h1 \<and> is_hex h2 \<and> is_hex h3 \<and> is_hex h4"
    | "c \<noteq> CHR 0x22" "c \<noteq> CHR 0x5C" "\<not> byte c < 0x20"
    using "2.prems" by (auto split: if_splits list.splits)
  then show ?case
  proof cases
    case 1
    with "2.prems" show ?thesis by (intro exI [of _ "[c]"]) auto
  next
    case 2
    with "2.prems" obtain q' where q: "scan_string s' = Some (q', r)" "q = c # e # q'" by auto
    with "2.IH"(1) 2 obtain u where "s' = u @ r" "\<forall>t. scan_string (u @ t) = Some (q', t)" by fastforce
    with 2 q show ?thesis by (intro exI [of _ "c # e # u"]) auto
  next
    case 3
    with "2.prems" obtain q' where q: "scan_string s' = Some (q', r)" "q = c # e # h1 # h2 # h3 # h4 # q'" by auto
    with "2.IH"(2) 3 obtain u where "s' = u @ r" "\<forall>t. scan_string (u @ t) = Some (q', t)" by fastforce
    with 3 q show ?thesis by (intro exI [of _ "c # e # h1 # h2 # h3 # h4 # u"]) auto
  next
    case 4
    with "2.prems" obtain q' where q: "scan_string s = Some (q', r)" "q = c # q'" by auto
    with "2.IH"(3) 4 obtain u where "s = u @ r" "\<forall>t. scan_string (u @ t) = Some (q', t)" by fastforce
    with 4 q show ?thesis by (intro exI [of _ "c # u"]) auto
  qed
qed simp

section \<open>White space\<close>

definition spaces :: "bytes \<Rightarrow> bool" where
  "spaces w \<longleftrightarrow> (\<forall>c \<in> set w. is_ws c)"

lemma skip_ws_split:
  obtains w where "s = w @ skip_ws s" "spaces w"
  using that [of "takeWhile is_ws s"] by (auto simp: skip_ws_def spaces_def dest: set_takeWhileD)

lemma skip_spaces: "spaces w \<Longrightarrow> skip_ws (w @ x) = skip_ws x"
  by (induction w) (auto simp: spaces_def skip_ws_def)

lemma skip_ws_hd: "skip_ws s = c # x \<Longrightarrow> \<not> is_ws c"
  using hd_dropWhile [of is_ws s] by (auto simp: skip_ws_def)

lemma skip_ws_front: "u \<noteq> [] \<Longrightarrow> skip_ws s = u @ x \<Longrightarrow> skip_ws (u @ y) = u @ y"
  using skip_ws_hd [of s "hd u" "tl u @ x"] by (cases u) (auto simp: skip_ws_def)

lemma ends_spaces: "spaces w \<Longrightarrow> ends x \<Longrightarrow> ends (w @ x)"
  by (cases w) (simp_all add: ends_def spaces_def)

lemmas sep_ws = skip_spaces skip_ws_id is_ws_def ends_spaces HasPrefix_def

section \<open>Values\<close>

lemma one_sep:
  assumes "HasPrefix (skip_ws r) [c]" "\<not> is_ws c"
  obtains w y where "r = w @ c # y" "spaces w" "\<And>x. skip_ws (w @ c # x) = c # x" "skip_ws r = c # y"
proof -
  obtain w where w: "r = w @ skip_ws r" "spaces w" by (rule skip_ws_split)
  from assms(1) obtain y where "skip_ws r = c # y" by (cases "skip_ws r") (auto simp: HasPrefix_def)
  with w assms(2) show thesis by (intro that [of w y]) (auto simp: skip_spaces skip_ws_id)
qed

lemma literal_Some: "literal l w s = Some (v, r) \<Longrightarrow> s = l @ r \<and> v = w"
  unfolding literal_def HasPrefix_def by (auto split: if_splits) (metis append_take_drop_id)

lemma parse_literal:
  assumes "parse_value d (c # s) = Some (v, r)" "c \<in> set ''tfn''"
  shows "\<exists>u. c # s = u @ r \<and> u \<noteq> [] \<and> (\<forall>d' t. parse_value d' (u @ t) = Some (v, t))"
proof -
  consider "c = CHR ''t''" | "c = CHR ''f''" | "c = CHR ''n''" using assms(2) by auto
  then show ?thesis
  proof cases
    case 1
    with assms(1) have "literal ''true'' (JBool True) (c # s) = Some (v, r)" by (subst (asm) parse_value.simps) simp
    from literal_Some [OF this] show ?thesis
      using parse_value_literals(2) [of _ True] by (intro exI [of _ "''true''"]) simp
  next
    case 2
    with assms(1) have "literal ''false'' (JBool False) (c # s) = Some (v, r)" by (subst (asm) parse_value.simps) simp
    from literal_Some [OF this] show ?thesis
      using parse_value_literals(2) [of _ False] by (intro exI [of _ "''false''"]) simp
  next
    case 3
    with assms(1) have "literal ''null'' JNull (c # s) = Some (v, r)" by (subst (asm) parse_value.simps) simp
    from literal_Some [OF this] show ?thesis
      using parse_value_literals(1) by (intro exI [of _ "''null''"]) simp
  qed
qed

text \<open>
  A text that is read as a value, as the elements of an array or as the members of an object: whatever
  follows it, at its depth and any greater one. What follows a value must end a number.
\<close>

definition reads_value :: "nat \<Rightarrow> bytes \<Rightarrow> json \<Rightarrow> bool" where
  "reads_value d u v \<longleftrightarrow> u \<noteq> [] \<and> (\<forall>d' t. d \<le> d' \<longrightarrow> ends t \<longrightarrow> parse_value d' (u @ t) = Some (v, t))"

definition reads_elems :: "nat \<Rightarrow> bytes \<Rightarrow> (bytes \<times> json) list \<Rightarrow> bool" where
  "reads_elems d u es \<longleftrightarrow> u \<noteq> [] \<and> (\<forall>d' t. d \<le> d' \<longrightarrow> parse_elems d' (u @ t) = Some (es, t))"

definition reads_members :: "nat \<Rightarrow> bytes \<Rightarrow> (bytes \<times> bytes \<times> json) list \<Rightarrow> bool" where
  "reads_members d u ms \<longleftrightarrow> u \<noteq> [] \<and> (\<forall>d' t. d \<le> d' \<longrightarrow> parse_members d' (u @ t) = Some (ms, t))"

definition front :: "bytes \<Rightarrow> bool" where
  "front u \<longleftrightarrow> (\<forall>y. skip_ws (u @ y) = u @ y)"

lemma skip_ws_text:
  assumes "skip_ws s = u @ r" "u \<noteq> []"
  obtains w where "s = w @ u @ r" "spaces w" "front u" "\<And>y. skip_ws (w @ u @ y) = u @ y"
proof -
  obtain w where w: "s = w @ skip_ws s" "spaces w" by (rule skip_ws_split)
  have f: "front u" unfolding front_def using skip_ws_front [OF assms(2,1)] by simp
  show thesis by (rule that [of w]) (use w assms(1) f in \<open>simp_all add: skip_spaces front_def\<close>)
qed

lemma sep_skip: "spaces w \<Longrightarrow> \<not> is_ws c \<Longrightarrow> skip_ws (w @ c # y) = c # y"
  by (simp add: skip_spaces skip_ws_id)

lemma HasPrefix_first: "u \<noteq> [] \<Longrightarrow> HasPrefix (u @ t) [c] \<longleftrightarrow> HasPrefix u [c]"
  by (cases u) (simp_all add: HasPrefix_def)

subsection \<open>Composite values\<close>

lemma reads_object:
  assumes "0 < d" "spaces w"
  shows "reads_value d (CHR ''{'' # w @ ''}'') (JObj [])"
    and "reads_members (d - 1) u ms \<Longrightarrow> front u \<Longrightarrow> \<not> HasPrefix u ''}'' \<Longrightarrow>
      reads_value d (CHR ''{'' # w @ u) (JObj (map (\<lambda>(k, _, v). (k, v)) ms))"
  using assms
  by (auto simp: reads_value_def reads_members_def front_def parse_value.simps [of _ "CHR ''{'' # _"] skip_spaces skip_ws_id is_ws_def
      skip_spaces HasPrefix_first HasPrefix_def [of "CHR ''}'' # _"])

lemma reads_array:
  assumes "0 < d" "spaces w"
  shows "reads_value d (CHR ''['' # w @ '']'') (JArr [])"
    and "reads_elems (d - 1) u es \<Longrightarrow> front u \<Longrightarrow> \<not> HasPrefix u '']'' \<Longrightarrow> reads_value d (CHR ''['' # w @ u) (JArr (map snd es))"
  using assms
  by (auto simp: reads_value_def reads_elems_def front_def parse_value.simps [of _ "CHR ''['' # _"] skip_spaces skip_ws_id is_ws_def
      skip_spaces HasPrefix_first HasPrefix_def [of "CHR '']'' # _"])

lemma elems_front:
  assumes "reads_value d u v" "d \<le> d'" "ends t"
  shows "parse_elems d' (u @ t) =
    (if HasPrefix (skip_ws t) '','' then map_option (\<lambda>(es, r). ((u, v) # es, r)) (parse_elems d' (skip_ws (drop 1 (skip_ws t))))
     else if HasPrefix (skip_ws t) '']'' then Some ([(u, v)], drop 1 (skip_ws t)) else None)"
  using assms by (subst parse_elems.simps) (simp add: reads_value_def Let_def)

lemma reads_elems_cons:
  assumes "reads_value d u v" "spaces w"
  shows "reads_elems d (u @ w @ '']'') [(u, v)]"
    and "spaces w' \<Longrightarrow> front u' \<Longrightarrow> reads_elems d u' es \<Longrightarrow> reads_elems d (u @ w @ CHR '','' # w' @ u') ((u, v) # es)"
proof -
  show "reads_elems d (u @ w @ '']'') [(u, v)]"
    unfolding reads_elems_def
    using elems_front [OF assms(1)] assms(2) by (auto simp: ends_spaces skip_spaces skip_ws_id is_ws_def HasPrefix_def)
  show "spaces w' \<Longrightarrow> front u' \<Longrightarrow> reads_elems d u' es \<Longrightarrow> reads_elems d (u @ w @ CHR '','' # w' @ u') ((u, v) # es)"
    unfolding reads_elems_def front_def
    using elems_front [OF assms(1)] assms(2) by (auto simp: ends_spaces skip_spaces skip_ws_id is_ws_def HasPrefix_def skip_spaces)
qed

text \<open>One member: a key, a colon and a value, with white space around the colon.\<close>

lemma member_front:
  assumes "uq \<noteq> []" "\<And>t. scan_string (uq @ t) = Some (q, t)" "spaces wc" "spaces wv" "front u" "reads_value d u v" "d \<le> d'" "ends t"
  shows "parse_members d' (CHR 0x22 # uq @ wc @ CHR '':'' # wv @ u @ t) =
    (if HasPrefix (skip_ws t) '',''
     then map_option (\<lambda>(ms, r). ((unquote q, u, v) # ms, r)) (parse_members d' (skip_ws (drop 1 (skip_ws t))))
     else if HasPrefix (skip_ws t) ''}'' then Some ([(unquote q, u, v)], drop 1 (skip_ws t)) else None)"
  using assms
  by (subst parse_members.simps) (simp add: reads_value_def front_def skip_spaces skip_ws_id is_ws_def skip_spaces HasPrefix_def [of "_ # _"] Let_def)

lemma reads_members_cons:
  assumes "uq \<noteq> []" "\<And>t. scan_string (uq @ t) = Some (q, t)" "spaces wc" "spaces wv" "front u" "reads_value d u v" "spaces w"
  shows "reads_members d (CHR 0x22 # uq @ wc @ CHR '':'' # wv @ u @ w @ ''}'') [(unquote q, u, v)]"
    and "spaces w' \<Longrightarrow> front u' \<Longrightarrow> reads_members d u' ms \<Longrightarrow>
      reads_members d (CHR 0x22 # uq @ wc @ CHR '':'' # wv @ u @ w @ CHR '','' # w' @ u') ((unquote q, u, v) # ms)"
proof -
  note front = member_front [OF assms(1-6)]
  show "reads_members d (CHR 0x22 # uq @ wc @ CHR '':'' # wv @ u @ w @ ''}'') [(unquote q, u, v)]"
    unfolding reads_members_def
    using front assms(7) by (auto simp: ends_spaces skip_spaces skip_ws_id is_ws_def HasPrefix_def)
  show "spaces w' \<Longrightarrow> front u' \<Longrightarrow> reads_members d u' ms \<Longrightarrow>
      reads_members d (CHR 0x22 # uq @ wc @ CHR '':'' # wv @ u @ w @ CHR '','' # w' @ u') ((unquote q, u, v) # ms)"
    unfolding reads_members_def front_def
    using front assms(7) by (auto simp: ends_spaces skip_spaces skip_ws_id is_ws_def HasPrefix_def skip_spaces)
qed

subsection \<open>Taking a parse apart\<close>

lemma elems_local:
  assumes p: "parse_elems d s = Some (es, r)"
    and first: "\<And>v r. parse_value d s = Some (v, r) \<Longrightarrow> \<exists>u. s = u @ r \<and> reads_value d u v"
    and more: "\<And>v r1 es. parse_value d s = Some (v, r1) \<Longrightarrow> length r1 < length s \<Longrightarrow> HasPrefix (skip_ws r1) '','' \<Longrightarrow>
      parse_elems d (skip_ws (drop 1 (skip_ws r1))) = Some (es, r) \<Longrightarrow> \<exists>u. skip_ws (drop 1 (skip_ws r1)) = u @ r \<and> reads_elems d u es"
  shows "\<exists>u. s = u @ r \<and> reads_elems d u es"
proof -
  from p obtain v r1 where v: "parse_value d s = Some (v, r1)" "length r1 < length s"
    by (subst (asm) parse_elems.simps) (auto split: option.splits if_splits)
  from first [OF v(1)] obtain u where u: "s = u @ r1" "reads_value d u v" by blast
  consider (more) es' where "HasPrefix (skip_ws r1) '',''" "es = (u, v) # es'"
      "parse_elems d (skip_ws (drop 1 (skip_ws r1))) = Some (es', r)"
    | (last) "HasPrefix (skip_ws r1) '']''" "es = [(u, v)]" "r = drop 1 (skip_ws r1)"
    using p v u(1) by (subst (asm) parse_elems.simps) (auto simp: Let_def split: if_splits)
  then show ?thesis
  proof cases
    case more
    obtain w y where w: "r1 = w @ CHR '','' # y" "spaces w" "skip_ws r1 = CHR '','' # y"
      using more(1) by (rule one_sep) (auto simp: is_ws_def)
    from assms(3) [OF v more(1,3)] w(3) obtain u' where u': "skip_ws y = u' @ r" "reads_elems d u' es'" by auto
    then obtain w' where w': "y = w' @ u' @ r" "spaces w'" "front u'"
      using skip_ws_text [OF u'(1)] by (auto simp: reads_elems_def)
    from reads_elems_cons(2) [OF u(2) w(2) w'(2,3) u'(2)] u(1) w(1) w'(1) more(2) show ?thesis
      by (intro exI [of _ "u @ w @ CHR '','' # w' @ u'"]) simp
  next
    case last
    obtain w y where w: "r1 = w @ CHR '']'' # y" "spaces w" "skip_ws r1 = CHR '']'' # y"
      using last(1) by (rule one_sep) (auto simp: is_ws_def)
    from reads_elems_cons(1) [OF u(2) w(2)] u(1) w last(2,3) show ?thesis
      by (intro exI [of _ "u @ w @ '']''"]) simp
  qed
qed

text \<open>The key of a member with its colon, and where its value begins.\<close>

lemma member_key:
  assumes "parse_members d s = Some (ms, r)"
  obtains q r0 uq wc y where "scan_string (drop 1 s) = Some (q, r0)" "HasPrefix s [CHR 0x22]" "length r0 < length s"
    "HasPrefix (skip_ws r0) '':''" "s = CHR 0x22 # uq @ wc @ CHR '':'' # y" "uq \<noteq> []"
    "\<And>t. scan_string (uq @ t) = Some (q, t)" "spaces wc" "skip_ws (drop 1 (skip_ws r0)) = skip_ws y"
proof -
  from assms obtain q r0 where q: "HasPrefix s [CHR 0x22]" "scan_string (drop 1 s) = Some (q, r0)"
    "length r0 < length s" "HasPrefix (skip_ws r0) '':''"
    by (subst (asm) parse_members.simps) (auto split: option.splits if_splits)
  obtain uq where uq: "drop 1 s = uq @ r0" "uq \<noteq> []" "\<And>t. scan_string (uq @ t) = Some (q, t)"
    using scan_string_local [OF q(2)] by blast
  obtain wc y where wc: "r0 = wc @ CHR '':'' # y" "spaces wc" "skip_ws r0 = CHR '':'' # y"
    using q(4) by (rule one_sep) (auto simp: is_ws_def)
  have "s = CHR 0x22 # uq @ wc @ CHR '':'' # y" using q(1) uq(1) wc(1) by (cases s) (auto simp: HasPrefix_def)
  then show thesis by (rule that [OF q(2,1,3,4) _ uq(2,3) wc(2)]) (simp add: wc(3))
qed

lemma members_local:
  assumes p: "parse_members d s = Some (ms, r)"
    and first: "\<And>q r0 v r1. HasPrefix s [CHR 0x22] \<Longrightarrow> scan_string (drop 1 s) = Some (q, r0) \<Longrightarrow> length r0 < length s \<Longrightarrow>
      HasPrefix (skip_ws r0) '':'' \<Longrightarrow> parse_value d (skip_ws (drop 1 (skip_ws r0))) = Some (v, r1) \<Longrightarrow>
      \<exists>u. skip_ws (drop 1 (skip_ws r0)) = u @ r1 \<and> reads_value d u v"
    and more: "\<And>q r0 v r1 ms. HasPrefix s [CHR 0x22] \<Longrightarrow> scan_string (drop 1 s) = Some (q, r0) \<Longrightarrow> length r0 < length s \<Longrightarrow>
      HasPrefix (skip_ws r0) '':'' \<Longrightarrow> parse_value d (skip_ws (drop 1 (skip_ws r0))) = Some (v, r1) \<Longrightarrow>
      length r1 < length (skip_ws (drop 1 (skip_ws r0))) \<Longrightarrow> HasPrefix (skip_ws r1) '','' \<Longrightarrow>
      parse_members d (skip_ws (drop 1 (skip_ws r1))) = Some (ms, r) \<Longrightarrow>
      \<exists>u. skip_ws (drop 1 (skip_ws r1)) = u @ r \<and> reads_members d u ms"
  shows "\<exists>u. s = u @ r \<and> reads_members d u ms"
proof -
  obtain q r0 uq wc y where k: "scan_string (drop 1 s) = Some (q, r0)" "HasPrefix s [CHR 0x22]" "length r0 < length s"
    "HasPrefix (skip_ws r0) '':''" "s = CHR 0x22 # uq @ wc @ CHR '':'' # y" "uq \<noteq> []"
    "\<And>t. scan_string (uq @ t) = Some (q, t)" "spaces wc" "skip_ws (drop 1 (skip_ws r0)) = skip_ws y"
    using p by (rule member_key) blast
  note key = k(2,1,3,4)
  from p key obtain v r1 where v: "parse_value d (skip_ws y) = Some (v, r1)" "length r1 < length (skip_ws y)"
    unfolding k(9) [symmetric] by (subst (asm) parse_members.simps) (auto simp: Let_def split: option.splits if_splits)
  from first [OF key] v(1) obtain u where u: "skip_ws y = u @ r1" "reads_value d u v" unfolding k(9) by blast
  then obtain wv where wv: "y = wv @ u @ r1" "spaces wv" "front u"
    using skip_ws_text [OF u(1)] by (auto simp: reads_value_def)
  note cons = reads_members_cons [OF k(6,7,8) wv(2,3) u(2)]
  have "take (length (skip_ws y) - length r1) (skip_ws y) = u" using u(1) by simp
  with p key v k(9) consider (more) ms' where "HasPrefix (skip_ws r1) '',''" "ms = (unquote q, u, v) # ms'"
      "parse_members d (skip_ws (drop 1 (skip_ws r1))) = Some (ms', r)"
    | (last) "HasPrefix (skip_ws r1) ''}''" "ms = [(unquote q, u, v)]" "r = drop 1 (skip_ws r1)"
    by (subst (asm) parse_members.simps) (auto simp: Let_def split: if_splits)
  then show ?thesis
  proof cases
    case more
    obtain w z where w: "r1 = w @ CHR '','' # z" "spaces w" "skip_ws r1 = CHR '','' # z"
      using more(1) by (rule one_sep) (auto simp: is_ws_def)
    from assms(3) [OF key _ _ more(1,3)] v w(3) obtain u' where u': "skip_ws z = u' @ r" "reads_members d u' ms'" unfolding k(9) by auto
    then obtain w' where w': "z = w' @ u' @ r" "spaces w'" "front u'"
      using skip_ws_text [OF u'(1)] by (auto simp: reads_members_def)
    from cons(2) [OF w(2) w'(2,3) u'(2)] k(5) wv(1) w(1) w'(1) more(2) show ?thesis
      by (intro exI [of _ "CHR 0x22 # uq @ wc @ CHR '':'' # wv @ u @ w @ CHR '','' # w' @ u'"]) simp
  next
    case last
    obtain w z where w: "r1 = w @ CHR ''}'' # z" "spaces w" "skip_ws r1 = CHR ''}'' # z"
      using last(1) by (rule one_sep) (auto simp: is_ws_def)
    from cons(1) [OF w(2)] k(5) wv(1) w last(2,3) show ?thesis
      by (intro exI [of _ "CHR 0x22 # uq @ wc @ CHR '':'' # wv @ u @ w @ ''}''"]) simp
  qed
qed

lemma object_local:
  assumes "parse_value d (CHR ''{'' # s) = Some (v, r)"
    and members: "\<And>ms. d \<noteq> 0 \<Longrightarrow> \<not> HasPrefix (skip_ws s) ''}'' \<Longrightarrow> parse_members (d - 1) (skip_ws s) = Some (ms, r) \<Longrightarrow>
      \<exists>u. skip_ws s = u @ r \<and> reads_members (d - 1) u ms"
  shows "\<exists>u. CHR ''{'' # s = u @ r \<and> reads_value d u v"
proof (cases "HasPrefix (skip_ws s) ''}''")
  case True
  obtain w y where w: "s = w @ CHR ''}'' # y" "spaces w" "skip_ws s = CHR ''}'' # y"
    using True by (rule one_sep) (auto simp: is_ws_def)
  with assms(1) True have "0 < d" "v = JObj []" "r = y" by (auto simp: parse_value.simps [of _ "_ # _"] split: if_splits)
  with reads_object(1) [OF \<open>0 < d\<close> w(2)] w(1) show ?thesis by (intro exI [of _ "CHR ''{'' # w @ ''}''"]) simp
next
  case False
  with assms(1) obtain ms where ms: "0 < d" "parse_members (d - 1) (skip_ws s) = Some (ms, r)" "v = JObj (map (\<lambda>(k, _, v). (k, v)) ms)"
    by (auto simp: parse_value.simps [of _ "_ # _"] split: if_splits)
  with members [OF _ False] obtain u where u: "skip_ws s = u @ r" "reads_members (d - 1) u ms" by auto
  then obtain w where w: "s = w @ u @ r" "spaces w" "front u" using skip_ws_text [OF u(1)] by (auto simp: reads_members_def)
  have "\<not> HasPrefix u ''}''" using False u by (simp add: reads_members_def HasPrefix_first)
  from reads_object(2) [OF ms(1) w(2) u(2) w(3) this] w(1) ms(3) show ?thesis by (intro exI [of _ "CHR ''{'' # w @ u"]) simp
qed

lemma array_local:
  assumes "parse_value d (CHR ''['' # s) = Some (v, r)"
    and elems: "\<And>es. d \<noteq> 0 \<Longrightarrow> \<not> HasPrefix (skip_ws s) '']'' \<Longrightarrow> parse_elems (d - 1) (skip_ws s) = Some (es, r) \<Longrightarrow>
      \<exists>u. skip_ws s = u @ r \<and> reads_elems (d - 1) u es"
  shows "\<exists>u. CHR ''['' # s = u @ r \<and> reads_value d u v"
proof (cases "HasPrefix (skip_ws s) '']''")
  case True
  obtain w y where w: "s = w @ CHR '']'' # y" "spaces w" "skip_ws s = CHR '']'' # y"
    using True by (rule one_sep) (auto simp: is_ws_def)
  with assms(1) True have "0 < d" "v = JArr []" "r = y" by (auto simp: parse_value.simps [of _ "_ # _"] split: if_splits)
  with reads_array(1) [OF \<open>0 < d\<close> w(2)] w(1) show ?thesis by (intro exI [of _ "CHR ''['' # w @ '']''"]) simp
next
  case False
  with assms(1) obtain es where es: "0 < d" "parse_elems (d - 1) (skip_ws s) = Some (es, r)" "v = JArr (map snd es)"
    by (auto simp: parse_value.simps [of _ "_ # _"] split: if_splits)
  with elems [OF _ False] obtain u where u: "skip_ws s = u @ r" "reads_elems (d - 1) u es" by auto
  then obtain w where w: "s = w @ u @ r" "spaces w" "front u" using skip_ws_text [OF u(1)] by (auto simp: reads_elems_def)
  have "\<not> HasPrefix u '']''" using False u by (simp add: reads_elems_def HasPrefix_first)
  from reads_array(2) [OF es(1) w(2) u(2) w(3) this] w(1) es(3) show ?thesis by (intro exI [of _ "CHR ''['' # w @ u"]) simp
qed

text \<open>Strings, literals and numbers.\<close>

lemma scalar_local:
  assumes "parse_value d (c # s) = Some (v, r)" "c \<notin> {CHR ''{'', CHR ''[''}"
  shows "\<exists>u. c # s = u @ r \<and> reads_value d u v"
proof -
  consider (str) "c = CHR 0x22" | (lit) "c \<in> set ''tfn''" | (num) "c \<noteq> CHR 0x22" "c \<notin> set ''tfn''" by auto
  then show ?thesis
  proof cases
    case str
    with assms(1) obtain q where q: "scan_string s = Some (q, r)" "v = JStr (unquote q)"
      by (auto simp: parse_value.simps [of _ "_ # _"])
    with scan_string_local [OF q(1)] obtain u where "s = u @ r" "\<forall>t. scan_string (u @ t) = Some (q, t)" by blast
    with str q show ?thesis
      by (intro exI [of _ "c # u"]) (auto simp: reads_value_def parse_value.simps [of _ "CHR 0x22 # _"])
  next
    case lit
    with parse_literal [OF assms(1)] show ?thesis by (auto simp: reads_value_def)
  next
    case num
    with assms obtain n where n: "scan_number (c # s) = Some (n, r)" "v = JNum n"
      by (auto simp: parse_value.simps [of _ "_ # _"])
    with scan_number_local [OF n(1)] have u: "c # s = n @ r" "n \<noteq> []" "\<And>t. ends t \<Longrightarrow> scan_number (n @ t) = Some (n, t)" by auto
    then obtain n' where n': "n = c # n'" by (cases n) auto
    have "parse_value d' (n @ t) = Some (v, t)" if "ends t" for d' t
      using u(3) [OF that] num assms(2) n n' by (subst parse_value.simps) auto
    with u show ?thesis by (auto simp: reads_value_def)
  qed
qed

lemma parse_reads:
  "parse_value d s = Some (v, r) \<Longrightarrow> \<exists>u. s = u @ r \<and> reads_value d u v"
  "parse_elems d s = Some (es, r) \<Longrightarrow> \<exists>u. s = u @ r \<and> reads_elems d u es"
  "parse_members d s = Some (ms, r) \<Longrightarrow> \<exists>u. s = u @ r \<and> reads_members d u ms"
proof (induction d s and d s and d s arbitrary: v r and es r and ms r
    rule: parse_value_parse_elems_parse_members.induct)
  case (1 d s)
  then obtain c s' where s: "s = c # s'" by (cases s) (auto simp: parse_value.simps [of d "[]"])
  show ?case
  proof (cases "c \<in> {CHR ''{'', CHR ''[''}")
    case True
    with "1.IH" [OF s] "1.prems" s object_local [of d s' v r] array_local [of d s' v r] show ?thesis by auto
  next
    case False
    with scalar_local "1.prems" s show ?thesis by simp
  qed
next
  case (2 d s)
  show ?case by (rule elems_local [OF "2.prems"]) (use "2.IH" in \<open>fastforce+\<close>)
next
  case (3 d s)
  show ?case by (rule members_local [OF "3.prems"]) (use "3.IH" in \<open>fastforce+\<close>)
qed

lemma parse_local:
  "parse_value d s = Some (v, r) \<Longrightarrow>
    \<exists>u. s = u @ r \<and> u \<noteq> [] \<and> (\<forall>d' t. d \<le> d' \<longrightarrow> ends t \<longrightarrow> parse_value d' (u @ t) = Some (v, t))"
  "parse_elems d s = Some (es, r) \<Longrightarrow>
    \<exists>u. s = u @ r \<and> u \<noteq> [] \<and> (\<forall>d' t. d \<le> d' \<longrightarrow> parse_elems d' (u @ t) = Some (es, t))"
  "parse_members d s = Some (ms, r) \<Longrightarrow>
    \<exists>u. s = u @ r \<and> u \<noteq> [] \<and> (\<forall>d' t. d \<le> d' \<longrightarrow> parse_members d' (u @ t) = Some (ms, t))"
  using parse_reads unfolding reads_value_def reads_elems_def reads_members_def by blast+

section \<open>Raw values\<close>

lemma skip_ws_trim [simp]: "skip_ws (skip_ws s) = skip_ws s"
  by (simp add: skip_ws_def dropWhile_idem)

text \<open>The bytes of a member or an element, kept raw, parse on their own to the value they had.\<close>

lemma raw_of_value:
  assumes "parse_value d s = Some (v, r)" "d \<le> max_depth" "\<not> is_ws (hd s)" "s \<noteq> []"
  shows "raw_ok d (take (length s - length r) s) v \<and> parse_json (take (length s - length r) s) = Some v"
proof -
  from parse_local(1) [OF assms(1)] obtain u where u: "s = u @ r" "u \<noteq> []"
    "\<And>d' t. d \<le> d' \<Longrightarrow> ends t \<Longrightarrow> parse_value d' (u @ t) = Some (v, t)" by blast
  then have hd: "\<not> is_ws (hd u)" using assms(3) by (cases u) auto
  then have "skip_ws u = u" using u(2) by (simp add: skip_ws_id)
  with u(3) [OF assms(2), of "[]"] have "parse_json u = Some v" by (simp add: parse_json_def skip_ws_def)
  moreover have "take (length s - length r) s = u" using u(1) by simp
  ultimately show ?thesis using u(2,3) hd by (simp add: raw_ok_def)
qed

lemma parse_value_Nil [simp]: "parse_value d [] = None"
  by (subst parse_value.simps) simp

lemma raw_of_members:
  "parse_members d s = Some (ms, r) \<Longrightarrow> d \<le> max_depth \<Longrightarrow>
    list_all (\<lambda>(_, raw, v). raw_ok d raw v \<and> parse_json raw = Some v) ms"
proof (induction "length s" arbitrary: s ms rule: less_induct)
  case less
  from less.prems(1) obtain q r0 v r1 where q: "HasPrefix s [CHR 0x22]" "scan_string (drop 1 s) = Some (q, r0)"
    "length r0 < length s" "HasPrefix (skip_ws r0) '':''"
    and v: "parse_value d (skip_ws (drop 1 (skip_ws r0))) = Some (v, r1)" "length r1 < length (skip_ws (drop 1 (skip_ws r0)))"
    by (subst (asm) parse_members.simps) (auto simp: Let_def split: option.splits if_splits)
  define s1 where "s1 = skip_ws (drop 1 (skip_ws r0))"
  have s1: "s1 \<noteq> []" using v by (auto simp: s1_def)
  then have hd: "\<not> is_ws (hd s1)" using skip_ws_hd [of "drop 1 (skip_ws r0)" "hd s1" "tl s1"] by (simp add: s1_def)
  have len: "length s1 < length s" "length (skip_ws r1) \<le> length r1"
    using q(3) skip_ws_le [of r0] skip_ws_le [of "drop 1 (skip_ws r0)"] skip_ws_le [of r1] by (auto simp: s1_def)
  have raw: "raw_ok d (take (length s1 - length r1) s1) v \<and> parse_json (take (length s1 - length r1) s1) = Some v"
    using raw_of_value [of d s1 v r1] v(1) less.prems(2) hd s1 by (simp add: s1_def)
  have "ms = [(unquote q, take (length s1 - length r1) s1, v)] \<or>
      (\<exists>ms'. ms = (unquote q, take (length s1 - length r1) s1, v) # ms' \<and>
        parse_members d (skip_ws (drop 1 (skip_ws r1))) = Some (ms', r))"
    using less.prems(1) q v s1_def by (subst (asm) parse_members.simps) (auto simp: Let_def split: if_splits)
  moreover have "length (skip_ws (drop 1 (skip_ws r1))) < length s"
    using len v(2) skip_ws_le [of "drop 1 (skip_ws r1)"] by (simp add: s1_def)
  ultimately show ?case using raw less.hyps less.prems(2) by auto
qed

lemma raw_of_elems:
  "parse_elems d s = Some (es, r) \<Longrightarrow> d \<le> max_depth \<Longrightarrow> \<not> is_ws (hd s) \<Longrightarrow>
    list_all (\<lambda>(raw, v). raw_ok d raw v \<and> parse_json raw = Some v) es"
proof (induction "length s" arbitrary: s es rule: less_induct)
  case less
  from less.prems(1) obtain v r1 where v: "parse_value d s = Some (v, r1)" "length r1 < length s"
    by (subst (asm) parse_elems.simps) (auto split: option.splits if_splits)
  then have raw: "raw_ok d (take (length s - length r1) s) v \<and> parse_json (take (length s - length r1) s) = Some v"
    using less.prems(2,3) by (intro raw_of_value) auto
  let ?s = "skip_ws (drop 1 (skip_ws r1))"
  have "es = [(take (length s - length r1) s, v)] \<or>
      (\<exists>es'. es = (take (length s - length r1) s, v) # es' \<and> parse_elems d ?s = Some (es', r))"
    using less.prems(1) v by (subst (asm) parse_elems.simps) (auto simp: Let_def split: if_splits)
  moreover have "length ?s < length s"
    using v(2) skip_ws_le [of r1] skip_ws_le [of "drop 1 (skip_ws r1)"] by simp
  moreover have "\<not> is_ws (hd ?s)" if "parse_elems d ?s = Some (es', r)" for es'
  proof -
    from parse_local(2) [OF that] obtain u where "?s = u @ r" "u \<noteq> []" by blast
    then show ?thesis using skip_ws_hd [of "drop 1 (skip_ws r1)" "hd ?s" "tl ?s"] by simp
  qed
  ultimately show ?case using raw less.hyps less.prems(2) by auto
qed

text \<open>Decoding a text member by member agrees with parsing it.\<close>

lemma object_members_parse:
  assumes "parse_json s = Some (JObj ms)"
  obtains rms where "object_members s = Some rms" "ms = map (\<lambda>(k, _, v). (k, v)) rms"
    "list_all (\<lambda>(_, raw, v). raw_ok (max_depth - 1) raw v \<and> parse_json raw = Some v) rms"
proof -
  from assms obtain r where r: "parse_value max_depth (skip_ws s) = Some (JObj ms, r)"
    by (auto simp: parse_json_def split: option.splits prod.splits if_splits)
  then obtain s' where s': "skip_ws s = CHR ''{'' # s'"
    by (subst (asm) parse_value.simps) (auto simp: literal_def split: list.splits if_splits)
  show thesis
  proof (cases "HasPrefix (skip_ws s') ''}''")
    case True
    with r s' have "ms = []" by (subst (asm) parse_value.simps) (auto split: if_splits)
    with True s' that [of "[]"] show thesis by (simp add: object_members_def HasPrefix_def [of "_ # _"])
  next
    case False
    with r s' obtain rms where rms: "parse_members (max_depth - 1) (skip_ws s') = Some (rms, r)"
      "ms = map (\<lambda>(k, _, v). (k, v)) rms"
      by (subst (asm) parse_value.simps) (auto split: if_splits)
    have "object_members s = Some rms"
      using rms(1) s' False by (simp add: object_members_def HasPrefix_def [of "_ # _"])
    with that [of rms] rms raw_of_members [OF rms(1)] show thesis by simp
  qed
qed

lemma array_elems_parse:
  assumes "parse_json s = Some (JArr es)"
  obtains res where "array_elems s = Some res" "es = map snd res"
    "list_all (\<lambda>(raw, v). raw_ok (max_depth - 1) raw v \<and> parse_json raw = Some v) res"
proof -
  from assms obtain r where r: "parse_value max_depth (skip_ws s) = Some (JArr es, r)"
    by (auto simp: parse_json_def split: option.splits prod.splits if_splits)
  then obtain s' where s': "skip_ws s = CHR ''['' # s'"
    by (subst (asm) parse_value.simps) (auto simp: literal_def split: list.splits if_splits)
  show thesis
  proof (cases "HasPrefix (skip_ws s') '']''")
    case True
    with r s' have "es = []" by (subst (asm) parse_value.simps) (auto split: if_splits)
    with True s' that [of "[]"] show thesis by (simp add: array_elems_def HasPrefix_def [of "_ # _"])
  next
    case False
    with r s' obtain res where res: "parse_elems (max_depth - 1) (skip_ws s') = Some (res, r)" "es = map snd res"
      by (subst (asm) parse_value.simps) (auto split: if_splits)
    have "\<not> is_ws (hd (skip_ws s'))"
      using parse_local(2) [OF res(1)] skip_ws_hd [of s' "hd (skip_ws s')" "tl (skip_ws s')"] by (cases "skip_ws s'") auto
    with raw_of_elems [OF res(1)] have "list_all (\<lambda>(raw, v). raw_ok (max_depth - 1) raw v \<and> parse_json raw = Some v) res"
      by simp
    moreover have "array_elems s = Some res"
      using res(1) s' False by (simp add: array_elems_def HasPrefix_def [of "_ # _"])
    ultimately show thesis using that res(2) by blast
  qed
qed

text \<open>An object written member by member is read back with the same bytes.\<close>

definition raw_object :: "(bytes \<times> bytes \<times> json) list \<Rightarrow> bytes" where
  "raw_object ms = CHR ''{'' # raw_members (map (\<lambda>(k, raw, _). (k, raw)) ms) @ ''}''"

lemma skip_ws_Cons: "\<not> is_ws c \<Longrightarrow> skip_ws (c # s) = c # s"
  by (simp add: skip_ws_def)

lemma raw_object_read:
  assumes "list_all (\<lambda>(k, raw, v). valid_utf8 k \<and> raw_ok (max_depth - 1) raw v) ms" "ms \<noteq> []"
  shows "parse_json (raw_object ms) = Some (JObj (map (\<lambda>(k, _, v). (k, v)) ms))" "object_members (raw_object ms) = Some ms"
proof -
  let ?s = "raw_members (map (\<lambda>(k, raw, _). (k, raw)) ms)"
  obtain k raw v ms' where ms: "ms = (k, raw, v) # ms'" using assms(2) by (cases ms) auto
  then have h: "\<exists>x. ?s = CHR 0x22 # x" by (simp add: encode_string_def)
  then have w: "skip_ws (?s @ t) = ?s @ t" "\<not> HasPrefix (?s @ t) ''}''" for t
    by (auto simp: skip_ws_Cons is_ws_def HasPrefix_def)
  have p: "parse_members (max_depth - 1) (?s @ ''}'') = Some (ms, [])"
    by (rule parse_raw_members [OF assms])
  have "max_depth \<noteq> 0" by (simp add: max_depth_def)
  then have "parse_value max_depth (CHR ''{'' # ?s @ ''}'') = Some (JObj (map (\<lambda>(k, _, v). (k, v)) ms), [])"
    using w p by (subst parse_value.simps) simp
  then show "parse_json (raw_object ms) = Some (JObj (map (\<lambda>(k, _, v). (k, v)) ms))"
    by (simp add: parse_json_def raw_object_def skip_ws_Cons is_ws_def) (simp add: skip_ws_def)
  show "object_members (raw_object ms) = Some ms"
    using w p by (simp add: object_members_def raw_object_def skip_ws_Cons is_ws_def HasPrefix_def [of "_ # _"])
qed

end
