(* ===== verification/JsonRpc.thy ===== *)
theory JsonRpc
  imports GoQuote GoJsonRaw
begin

text \<open>
  JSON-RPC messages, \<open>internal/jsonrpc/message.go\<close>: decoding an envelope while keeping the bytes,
  classifying it, the error reply, and the check for keys two parsers would read differently.
  A \<open>json.RawMessage\<close> is its bytes; the empty string stands for nil, since a raw message the
  decoder stores is never empty.
\<close>

section \<open>Definitions\<close>

definition Version :: bytes where
  "Version = ''2.0''"

record message =
  m_Raw :: bytes
  m_ID :: bytes
  m_Method :: bytes
  m_Params :: bytes
  m_Result :: bytes
  m_Error :: bytes

record envelope =
  env_JSONRPC :: bytes
  env_ID :: bytes
  env_Method :: bytes
  env_Params :: bytes
  env_Result :: bytes
  env_Error :: bytes

datatype parse_error = DecodeError | ErrNotJSONRPC

text \<open>A string field: \<open>null\<close> leaves it alone, anything but a string is a type error.\<close>

definition string_field :: "bytes \<Rightarrow> json \<Rightarrow> bytes option" where
  "string_field old v = (case v of JNull \<Rightarrow> Some old | JStr s \<Rightarrow> Some s | _ \<Rightarrow> None)"

definition decode_member :: "envelope \<Rightarrow> bytes \<times> bytes \<times> json \<Rightarrow> envelope option" where
  "decode_member env = (\<lambda>(key, raw, v).
     if field_matches ''jsonrpc'' key then map_option (\<lambda>s. env\<lparr>env_JSONRPC := s\<rparr>) (string_field (env_JSONRPC env) v)
     else if field_matches ''id'' key then Some (env\<lparr>env_ID := raw\<rparr>)
     else if field_matches ''method'' key then map_option (\<lambda>s. env\<lparr>env_Method := s\<rparr>) (string_field (env_Method env) v)
     else if field_matches ''params'' key then Some (env\<lparr>env_Params := raw\<rparr>)
     else if field_matches ''result'' key then Some (env\<lparr>env_Result := raw\<rparr>)
     else if field_matches ''error'' key then Some (env\<lparr>env_Error := raw\<rparr>)
     else Some env)"

fun decode_members :: "envelope \<Rightarrow> (bytes \<times> bytes \<times> json) list \<Rightarrow> envelope option" where
  "decode_members env [] = Some env"
| "decode_members env (m # ms) = Option.bind (decode_member env m) (\<lambda>env. decode_members env ms)"

definition no_envelope :: envelope where
  "no_envelope = \<lparr>env_JSONRPC = [], env_ID = [], env_Method = [], env_Params = [], env_Result = [], env_Error = []\<rparr>"

text \<open>\<open>json.Unmarshal\<close> into the envelope: \<open>null\<close> sets nothing, and only an object has members.\<close>

definition decode_envelope :: "bytes \<Rightarrow> envelope option" where
  "decode_envelope raw =
     (case parse_json raw of
       Some JNull \<Rightarrow> Some no_envelope
     | Some (JObj _) \<Rightarrow> Option.bind (object_members raw) (decode_members no_envelope)
     | _ \<Rightarrow> None)"

definition Parse :: "bytes \<Rightarrow> parse_error + message" where
  "Parse raw =
     (case decode_envelope raw of
       None \<Rightarrow> Inl DecodeError
     | Some env \<Rightarrow>
         if env_JSONRPC env \<noteq> Version then Inl ErrNotJSONRPC
         else Inr \<lparr>m_Raw = raw, m_ID = env_ID env, m_Method = env_Method env, m_Params = env_Params env,
                m_Result = env_Result env, m_Error = env_Error env\<rparr>)"

definition IsRequest :: "message \<Rightarrow> bool" where
  "IsRequest m \<longleftrightarrow> m_Method m \<noteq> [] \<and> 0 < length (m_ID m) \<and> m_ID m \<noteq> ''null''"

definition IsNotification :: "message \<Rightarrow> bool" where
  "IsNotification m \<longleftrightarrow> m_Method m \<noteq> [] \<and> (length (m_ID m) = 0 \<or> m_ID m = ''null'')"

definition IsResponse :: "message \<Rightarrow> bool" where
  "IsResponse m \<longleftrightarrow> m_Method m = [] \<and> (m_Result m \<noteq> [] \<or> m_Error m \<noteq> [])"

definition IDKey :: "message \<Rightarrow> bytes" where
  "IDKey m = (if length (m_ID m) = 0 then [] else m_ID m)"

definition CodeParseError :: int where "CodeParseError = - 32700"
definition CodePolicyDenied :: int where "CodePolicyDenied = - 32001"

subsection \<open>The error reply\<close>

text \<open>\<open>json.Marshal\<close> of a raw message: it must be valid JSON, white space outside strings is
  dropped, and the characters HTML would interpret are escaped.\<close>

fun html_escape :: "bytes \<Rightarrow> bytes" where
  "html_escape [] = []"
| "html_escape (c # s) =
     (if c = CHR 0xE2 \<and> (HasPrefix s [CHR 0x80, CHR 0xA8] \<or> HasPrefix s [CHR 0x80, CHR 0xA9])
      then CHR 0x5C # ''u202'' @ hex_digit (byte (s ! 1) mod 16) # html_escape (drop 2 s)
      else if c \<in> set ''<>&''
      then [CHR 0x5C, CHR ''u'', CHR ''0'', CHR ''0'', hex_digit (byte c div 16), hex_digit (byte c mod 16)] @ html_escape s
      else c # html_escape s)"

text \<open>The scanner's position: inside a string, after a backslash.\<close>

fun drop_space :: "bool \<Rightarrow> bool \<Rightarrow> bytes \<Rightarrow> bytes" where
  "drop_space str esc [] = []"
| "drop_space str esc (c # s) =
     (if \<not> str then
        if is_ws c then drop_space False False s else c # drop_space (c = CHR 0x22) False s
      else if esc then c # drop_space True False s
      else c # drop_space (c \<noteq> CHR 0x22) (c = CHR 0x5C) s)"

definition compact :: "bytes \<Rightarrow> bytes option" where
  "compact raw = (if parse_json raw = None then None else Some (html_escape (drop_space False False raw)))"

text \<open>The reply, its keys in order. \<open>dat\<close> is the marshalled \<open>data\<close> value, if there is one.\<close>

definition errObj :: "int \<Rightarrow> bytes \<Rightarrow> json option \<Rightarrow> json" where
  "errObj code msg dat =
     JMap ([(''code'', JNum (Itoa code)), (''message'', JStr msg)] @ (case dat of None \<Rightarrow> [] | Some d \<Rightarrow> [(''data'', d)]))"

definition ErrorResponse :: "bytes \<Rightarrow> int \<Rightarrow> bytes \<Rightarrow> json option \<Rightarrow> bytes option" where
  "ErrorResponse ident code msg dat =
     (let rid = (if length ident = 0 then ''null'' else ident) in
      map_option (\<lambda>rawid. CHR ''{'' #
           raw_members [(''error'', encode_json (errObj code msg dat)), (''id'', rawid), (''jsonrpc'', encode_string Version)] @ ''}'')
         (compact rid))"

subsection \<open>Ambiguity\<close>

text \<open>What \<open>json.Decoder.Token\<close> yields, one token after the other.\<close>

datatype token = OpenObject | OpenArray | Close | TString bytes | TScalar

fun tokens_of :: "json \<Rightarrow> token list"
  and elem_tokens :: "json list \<Rightarrow> token list"
  and member_tokens :: "(bytes \<times> json) list \<Rightarrow> token list" where
  "tokens_of (JObj ms) = OpenObject # member_tokens ms @ [Close]"
| "tokens_of (JArr es) = OpenArray # elem_tokens es @ [Close]"
| "tokens_of (JStr s) = [TString s]"
| "tokens_of j = [TScalar]"
| "elem_tokens [] = []"
| "elem_tokens (e # es) = tokens_of e @ elem_tokens es"
| "member_tokens [] = []"
| "member_tokens ((k, v) # ms) = TString k # tokens_of v @ member_tokens ms"

record frame =
  fr_object :: bool
  fr_keys :: "(bytes \<times> bytes) list"
  fr_wantKey :: bool

definition fold_key :: "bytes \<Rightarrow> bytes" where
  "fold_key t = ToLower (ToUpper t)"

text \<open>A value in the object on top of the stack was read: the next string is a key.\<close>

definition want_key :: "frame list \<Rightarrow> frame list" where
  "want_key st =
     (case st of
       [] \<Rightarrow> []
     | fr # rest \<Rightarrow> if fr_object fr then fr\<lparr>fr_wantKey := True\<rparr> # rest else fr # rest)"

definition duplicate_text :: "(bytes \<Rightarrow> bool) \<Rightarrow> bytes \<Rightarrow> bytes \<Rightarrow> bytes" where
  "duplicate_text pr t prev = ''key '' @ quote pr t @ '' duplicates '' @ quote pr prev"

fun ambiguity_loop :: "(bytes \<Rightarrow> bool) \<Rightarrow> frame list \<Rightarrow> token list \<Rightarrow> bytes" where
  "ambiguity_loop pr st [] = []"
| "ambiguity_loop pr st (OpenObject # ts) =
     ambiguity_loop pr (\<lparr>fr_object = True, fr_keys = [], fr_wantKey = True\<rparr> # want_key st) ts"
| "ambiguity_loop pr st (OpenArray # ts) =
     ambiguity_loop pr (\<lparr>fr_object = False, fr_keys = [], fr_wantKey = False\<rparr> # want_key st) ts"
| "ambiguity_loop pr st (Close # ts) = ambiguity_loop pr (tl st) ts"
| "ambiguity_loop pr st (TString t # ts) =
     (case st of
       fr # rest \<Rightarrow>
         if fr_object fr \<and> fr_wantKey fr then
           (case map_of (fr_keys fr) (fold_key t) of
             Some prev \<Rightarrow> duplicate_text pr t prev
           | None \<Rightarrow>
               ambiguity_loop pr (fr\<lparr>fr_keys := (fold_key t, t) # fr_keys fr, fr_wantKey := False\<rparr> # rest) ts)
         else ambiguity_loop pr (want_key st) ts
     | [] \<Rightarrow> ambiguity_loop pr st ts)"
| "ambiguity_loop pr st (TScalar # ts) = ambiguity_loop pr (want_key st) ts"

text \<open>Of a message \<open>Parse\<close> returned, whose bytes are one JSON value.\<close>

definition Ambiguity :: "(bytes \<Rightarrow> bool) \<Rightarrow> message \<Rightarrow> bytes" where
  "Ambiguity pr m = (case parse_json (m_Raw m) of None \<Rightarrow> [] | Some v \<Rightarrow> ambiguity_loop pr [] (tokens_of v))"

section \<open>Classification\<close>

lemma message_kinds:
  "\<not> (IsRequest m \<and> IsNotification m)" "\<not> (IsRequest m \<and> IsResponse m)" "\<not> (IsNotification m \<and> IsResponse m)"
  "m_Method m \<noteq> [] \<Longrightarrow> IsRequest m \<or> IsNotification m" "IDKey m = m_ID m"
  by (auto simp: IsRequest_def IsNotification_def IsResponse_def IDKey_def)

lemma Parse_raw: "Parse raw = Inr m \<Longrightarrow> m_Raw m = raw"
  by (auto simp: Parse_def split: option.splits if_splits)

section \<open>Ambiguity is the absence of duplicate keys\<close>

fun unambiguous :: "json \<Rightarrow> bool" where
  "unambiguous (JObj ms) = (distinct (map (\<lambda>(k, _). fold_key k) ms) \<and> list_all (\<lambda>(_, v). unambiguous v) ms)"
| "unambiguous (JArr es) = list_all unambiguous es"
| "unambiguous j = True"

text \<open>A frame list that is not waiting for a key.\<close>

definition takes_value :: "frame list \<Rightarrow> bool" where
  "takes_value st \<longleftrightarrow> (case st of [] \<Rightarrow> True | fr # _ \<Rightarrow> \<not> (fr_object fr \<and> fr_wantKey fr))"

lemma duplicate_text_neq_Nil [simp]: "duplicate_text pr t prev \<noteq> []"
  by (simp add: duplicate_text_def)

definition loop_spec :: "(bytes \<Rightarrow> bool) \<Rightarrow> bool \<Rightarrow> frame list \<Rightarrow> token list \<Rightarrow> frame list \<Rightarrow> token list \<Rightarrow> bool" where
  "loop_spec pr ok st ts st' rest \<longleftrightarrow>
     (if ok then ambiguity_loop pr st ts = ambiguity_loop pr st' rest else ambiguity_loop pr st ts \<noteq> [])"

lemma want_key_array [simp]: "\<not> fr_object fr \<Longrightarrow> want_key (fr # st) = fr # st"
  by (simp add: want_key_def)

lemma loop_step: "loop_spec pr ok1 st ts st1 ts1 \<Longrightarrow> loop_spec pr ok2 st1 ts1 st2 ts2 \<Longrightarrow>
  loop_spec pr (ok1 \<and> ok2) st ts st2 ts2"
  by (simp add: loop_spec_def split: if_splits)

lemma loop_eq: "ambiguity_loop pr st ts = ambiguity_loop pr st1 ts1 \<Longrightarrow> loop_spec pr ok st1 ts1 st2 ts2 \<Longrightarrow>
  loop_spec pr ok st ts st2 ts2"
  by (simp add: loop_spec_def)

definition fresh :: "(bytes \<times> bytes) list \<Rightarrow> (bytes \<times> json) list \<Rightarrow> bool" where
  "fresh keys ms \<longleftrightarrow> distinct (map (\<lambda>(k, _). fold_key k) ms) \<and>
     list_all (\<lambda>(k, _). map_of keys (fold_key k) = None) ms"

abbreviation key_frame :: "(bytes \<times> bytes) list \<Rightarrow> bool \<Rightarrow> frame" where
  "key_frame keys want \<equiv> \<lparr>fr_object = True, fr_keys = keys, fr_wantKey = want\<rparr>"

definition seen_keys :: "(bytes \<times> json) list \<Rightarrow> (bytes \<times> bytes) list" where
  "seen_keys ms = rev (map (\<lambda>(k, _). (fold_key k, k)) ms)"

lemma fresh_Cons: "fresh keys ((k, v) # ms) \<longleftrightarrow> map_of keys (fold_key k) = None \<and> fresh ((fold_key k, k) # keys) ms"
proof -
  have "list_all (\<lambda>(k', _). map_of ((fold_key k, k) # keys) (fold_key k') = None) ms \<longleftrightarrow>
      fold_key k \<notin> (\<lambda>(k, _). fold_key k) ` set ms \<and> list_all (\<lambda>(k', _). map_of keys (fold_key k') = None) ms"
    by (induction ms) (auto split: if_splits)
  then show ?thesis by (auto simp: fresh_def)
qed

lemma loop_value:
  "takes_value st \<Longrightarrow> loop_spec pr (unambiguous v) st (tokens_of v @ rest) (want_key st) rest"
  "\<not> fr_object fr \<Longrightarrow> loop_spec pr (list_all unambiguous es) (fr # st) (elem_tokens es @ rest) (fr # st) rest"
  "loop_spec pr (fresh keys ms \<and> list_all (\<lambda>(_, v). unambiguous v) ms)
    (key_frame keys True # st) (member_tokens ms @ rest) (key_frame (seen_keys ms @ keys) True # st) rest"
proof (induction v and es and ms arbitrary: st rest and fr st rest and keys st rest
    rule: tokens_of_elem_tokens_member_tokens.induct)
  case (1 ms)
  have "loop_spec pr (fresh [] ms \<and> list_all (\<lambda>(_, v). unambiguous v) ms)
      (key_frame [] True # want_key st) (member_tokens ms @ Close # rest)
      (key_frame (seen_keys ms @ []) True # want_key st) (Close # rest)" by (rule "1.IH")
  then show ?case by (auto simp: loop_spec_def fresh_def list_all_iff split: if_splits)
next
  case (2 es)
  have "loop_spec pr (list_all unambiguous es)
      (\<lparr>fr_object = False, fr_keys = [], fr_wantKey = False\<rparr> # want_key st) (elem_tokens es @ Close # rest)
      (\<lparr>fr_object = False, fr_keys = [], fr_wantKey = False\<rparr> # want_key st) (Close # rest)" by (rule "2.IH") simp
  then show ?case by (auto simp: loop_spec_def split: if_splits)
next
  case (3 s)
  then show ?case by (auto simp: loop_spec_def takes_value_def want_key_def split: list.splits)
next
  case (6 e es)
  have "loop_spec pr (unambiguous e) (fr # st) (tokens_of e @ elem_tokens es @ rest) (want_key (fr # st)) (elem_tokens es @ rest)"
    using "6.prems" by (intro "6.IH"(1)) (simp add: takes_value_def)
  from loop_step [OF this] "6.IH"(2) "6.prems" show ?case by simp
next
  case (8 k v ms)
  show ?case
  proof (cases "map_of keys (fold_key k)")
    case (Some prev)
    then show ?thesis by (simp add: loop_spec_def fresh_Cons)
  next
    case None
    let ?st = "key_frame ((fold_key k, k) # keys) False # st"
    have "loop_spec pr (unambiguous v) ?st (tokens_of v @ member_tokens ms @ rest) (want_key ?st) (member_tokens ms @ rest)"
      by (intro "8.IH"(1)) (simp add: takes_value_def)
    moreover have "want_key ?st = key_frame ((fold_key k, k) # keys) True # st" by (simp add: want_key_def)
    ultimately have "loop_spec pr (unambiguous v \<and> fresh ((fold_key k, k) # keys) ms \<and> list_all (\<lambda>(_, v). unambiguous v) ms)
        ?st (tokens_of v @ member_tokens ms @ rest) (key_frame (seen_keys ms @ (fold_key k, k) # keys) True # st) rest"
      using loop_step "8.IH"(2) by metis
    then have "loop_spec pr (unambiguous v \<and> fresh ((fold_key k, k) # keys) ms \<and> list_all (\<lambda>(_, v). unambiguous v) ms)
        (key_frame keys True # st) (member_tokens ((k, v) # ms) @ rest)
        (key_frame (seen_keys ms @ (fold_key k, k) # keys) True # st) rest"
      by (rule loop_eq [rotated]) (simp add: None)
    then show ?thesis using None
      by (simp add: fresh_Cons seen_keys_def conj_ac)
  qed
qed (auto simp: loop_spec_def want_key_def fresh_def seen_keys_def takes_value_def)

lemma ambiguity_iff: "ambiguity_loop pr [] (tokens_of v) = [] \<longleftrightarrow> unambiguous v"
proof -
  have "loop_spec pr (unambiguous v) [] (tokens_of v @ []) (want_key []) []"
    by (rule loop_value(1)) (simp add: takes_value_def)
  then show ?thesis by (simp add: loop_spec_def want_key_def split: if_splits)
qed

lemma parsed_json: "Parse raw = Inr m \<Longrightarrow> \<exists>ms. parse_json raw = Some (JObj ms)"
  by (auto simp: Parse_def decode_envelope_def Version_def no_envelope_def split: option.splits json.splits if_splits)

lemma Parse_unambiguous:
  assumes "Parse raw = Inr m"
  shows "Ambiguity pr m = [] \<longleftrightarrow> (case parse_json raw of Some v \<Rightarrow> unambiguous v | None \<Rightarrow> False)"
proof -
  obtain ms where "parse_json raw = Some (JObj ms)" using parsed_json [OF assms] by blast
  then show ?thesis
    by (simp add: Ambiguity_def Parse_raw [OF assms] ambiguity_iff del: tokens_of.simps unambiguous.simps)
qed

text \<open>
  C17: A message \<open>Parse\<close> accepts passes the ambiguity check exactly when no object in it, at
  any depth, has two keys that are equal up to the folding of \<open>encoding/json\<close>: the stack
  machine over the token stream computes the recursive definition.\<close>

theorem Ambiguity_iff:
  assumes "Parse raw = Inr m"
  shows "Ambiguity pr m = [] \<longleftrightarrow> (case parse_json raw of Some v \<Rightarrow> unambiguous v | None \<Rightarrow> False)"
  using assms by (rule Parse_unambiguous)

section \<open>No second reading\<close>

lemma fold_name_fields: "fold_name ''jsonrpc'' = ''JSONRPC''" "fold_name ''id'' = ''ID''" "fold_name ''method'' = ''METHOD''"
  "fold_name ''params'' = ''PARAMS''" "fold_name ''result'' = ''RESULT''" "fold_name ''error'' = ''ERROR''"
  by code_simp+

lemma field_matches_iff: "field_matches f key \<longleftrightarrow> fold_name key = fold_name f"
  by (auto simp: field_matches_def)

definition last_raw :: "bytes \<Rightarrow> bytes \<Rightarrow> (bytes \<times> bytes \<times> json) list \<Rightarrow> bytes" where
  "last_raw f old ms = foldl (\<lambda>x (k, raw, v). if field_matches f k then raw else x) old ms"

definition last_string :: "bytes \<Rightarrow> bytes \<Rightarrow> (bytes \<times> bytes \<times> json) list \<Rightarrow> bytes" where
  "last_string f old ms =
     foldl (\<lambda>x (k, raw, v). if field_matches f k then (case v of JStr s \<Rightarrow> s | _ \<Rightarrow> x) else x) old ms"

lemma string_field_Some: "string_field old v = Some s \<Longrightarrow> (case v of JStr s \<Rightarrow> s | _ \<Rightarrow> old) = s"
  by (cases v) (auto simp: string_field_def)

lemma decode_members_fields:
  "decode_members env ms = Some env' \<Longrightarrow>
    env_ID env' = last_raw ''id'' (env_ID env) ms \<and> env_Params env' = last_raw ''params'' (env_Params env) ms \<and>
    env_Method env' = last_string ''method'' (env_Method env) ms \<and>
    env_Result env' = last_raw ''result'' (env_Result env) ms \<and> env_Error env' = last_raw ''error'' (env_Error env) ms"
proof (induction env ms rule: decode_members.induct)
  case (2 env m ms)
  obtain k raw v where m: "m = (k, raw, v)" by (cases m)
  from "2.prems" obtain e1 where e1: "decode_member env m = Some e1" "decode_members e1 ms = Some env'"
    by (auto simp: bind_Some_conv)
  have "env_ID e1 = (if field_matches ''id'' k then raw else env_ID env) \<and>
      env_Params e1 = (if field_matches ''params'' k then raw else env_Params env) \<and>
      env_Result e1 = (if field_matches ''result'' k then raw else env_Result env) \<and>
      env_Error e1 = (if field_matches ''error'' k then raw else env_Error env) \<and>
      env_Method e1 = (if field_matches ''method'' k then (case v of JStr s \<Rightarrow> s | _ \<Rightarrow> env_Method env) else env_Method env)"
    using e1(1) unfolding m decode_member_def field_matches_iff fold_name_fields prod.case
    by (cases "fold_name k = ''JSONRPC''"; cases "fold_name k = ''ID''"; cases "fold_name k = ''METHOD''";
        cases "fold_name k = ''PARAMS''"; cases "fold_name k = ''RESULT''"; cases "fold_name k = ''ERROR''")
      (auto dest: string_field_Some)
  with "2.IH" [OF e1(1) e1(2)] show ?case by (simp add: m last_raw_def last_string_def)
qed (simp add: last_raw_def last_string_def)

text \<open>The two foldings: what a struct field matches, the ambiguity check takes to be equal.\<close>

definition tail_byte :: "char \<Rightarrow> bool" where
  "tail_byte b \<longleftrightarrow> b \<in> {CHR 0xB0, CHR 0xB1, CHR 0xBF, CHR 0x84, CHR 0xAA}"

lemma upper_byte_high: "0x80 \<le> byte b \<Longrightarrow> upper_byte c = b \<longleftrightarrow> c = b"
proof -
  assume b: "0x80 \<le> byte b"
  then have "b \<noteq> upper_byte c" if "is_lower c"
    using that byte_of_char [of "byte c - 32"] by (auto simp: upper_byte_def is_lower_def)
  with b show ?thesis by (cases "is_lower c") (auto simp: upper_byte_def is_lower_def)
qed

lemma tail_byte_high: "tail_byte b \<Longrightarrow> 0x80 \<le> byte b" "tail_byte b \<Longrightarrow> b \<notin> {CHR 0xC4, CHR 0xC5, CHR 0xE2} \<and> \<not> is_upper b"
  by (auto simp: tail_byte_def byte_def is_upper_def)

lemma HasPrefix_seq: "HasPrefix s (b # bs) \<longleftrightarrow> (\<exists>t. s = b # t \<and> HasPrefix t bs)"
  by (cases s) (auto simp: HasPrefix_def)

lemma ascii_not_tail: "\<not> tail_byte CHR ''S''" "\<not> tail_byte CHR ''K''" "\<not> tail_byte CHR ''I''"
  by (simp_all add: tail_byte_def)

lemmas encodings = HasPrefix_seq long_s_def kelvin_def dotless_i_def dotted_I_def

lemma fold_name_tail: "tail_byte b \<Longrightarrow> fold_name s = b # t \<longleftrightarrow> (\<exists>s'. s = b # s' \<and> t = fold_name s')"
  using tail_byte_high ascii_not_tail
  by (cases s) (auto simp: encodings upper_byte_high)

lemma ToUpper_tail: "tail_byte b \<Longrightarrow> ToUpper s = b # t \<longleftrightarrow> (\<exists>s'. s = b # s' \<and> t = ToUpper s')"
  using tail_byte_high ascii_not_tail
  by (cases s) (auto simp: encodings upper_byte_high)

lemmas tails = fold_name_tail fold_name_tail [THEN eq_commute [THEN trans]] ToUpper_tail
  ToUpper_tail [THEN eq_commute [THEN trans]]

lemma upper_byte_idem [simp]: "upper_byte (upper_byte c) = upper_byte c"
  using byte_of_char [of "byte c - 32"] byte_less [of c] by (auto simp: upper_byte_def is_lower_def)

lemma lower_K: "lower_byte CHR ''K'' = CHR ''k''"
  by code_simp

lemma fold_key_fold_name: "fold_key (fold_name s) = fold_key s"
  unfolding fold_key_def
proof (induction "length s" arbitrary: s rule: less_induct)
  case less
  note IH = less.hyps
  show ?case
  proof (cases s)
    case (Cons c r)
    have t: "tail_byte CHR 0xB0" "tail_byte CHR 0xB1" "tail_byte CHR 0xBF" "tail_byte CHR 0x84" "tail_byte CHR 0xAA"
      by (simp_all add: tail_byte_def)
    consider (s) r' where "c = CHR 0xC5" "r = CHR 0xBF # r'" | (k) r' where "c = CHR 0xE2" "r = CHR 0x84 # CHR 0xAA # r'"
      | (i) r' where "c = CHR 0xC4" "r = CHR 0xB1 # r'" | (d) r' where "c = CHR 0xC4" "r = CHR 0xB0 # r'"
      | (o) "\<not> HasPrefix s long_s" "\<not> HasPrefix s kelvin" "\<not> HasPrefix s dotless_i" "\<not> HasPrefix s dotted_I"
      unfolding Cons by (auto simp: encodings)
    then show ?thesis
    proof cases
      case s
      with IH [of r'] Cons show ?thesis by (simp add: encodings upper_byte_def is_lower_def byte_def)
    next
      case k
      with IH [of r'] Cons show ?thesis
        by (simp add: encodings upper_byte_def is_lower_def lower_K byte_def)
    next
      case i
      with IH [of r'] Cons show ?thesis by (simp add: encodings upper_byte_def is_lower_def byte_def)
    next
      case d
      with IH [of r'] Cons show ?thesis by (simp add: encodings upper_byte_def is_lower_def byte_def)
    next
      case o
      have f: "fold_name s = upper_byte c # fold_name r" using o(1,2) by (simp add: Cons)
      have u: "ToUpper s = upper_byte c # ToUpper r" using o(1,3) by (simp add: Cons)
      have fu: "ToUpper (fold_name s) = upper_byte c # ToUpper (fold_name r)"
        using o(1,3) unfolding f unfolding Cons by (auto simp: encodings upper_byte_high byte_def tails t)
      have l: "ToLower (ToUpper s) = lower_byte (upper_byte c) # ToLower (ToUpper r)"
        using o(2,4) unfolding u unfolding Cons by (auto simp: encodings upper_byte_high byte_def tails t)
      have "ToLower (ToUpper (fold_name s)) = lower_byte (upper_byte c) # ToLower (ToUpper (fold_name r))"
        using o(2,4) unfolding fu unfolding Cons by (auto simp: encodings upper_byte_high byte_def tails t)
      with l IH [of r] Cons show ?thesis by simp
    qed
  qed simp
qed

lemma field_matches_fold_key: "field_matches f k \<Longrightarrow> fold_key k = fold_key f"
  using fold_key_fold_name [of k] fold_key_fold_name [of f] by (simp add: field_matches_iff)

lemma last_raw_none: "\<forall>(k, raw, v) \<in> set ms. \<not> field_matches f k \<Longrightarrow> last_raw f old ms = old"
  by (induction ms arbitrary: old) (auto simp: last_raw_def)

lemma last_string_none: "\<forall>(k, raw, v) \<in> set ms. \<not> field_matches f k \<Longrightarrow> last_string f old ms = old"
  by (induction ms arbitrary: old) (auto simp: last_string_def)

lemma only_match:
  assumes "distinct (map (\<lambda>(k, _). fold_key k) ms)" "(k, raw, v) \<in> set ms" "field_matches f k"
  shows "last_raw f old ms = raw" "v = JStr s \<Longrightarrow> last_string f old ms = s"
proof -
  from assms(2) obtain xs ys where ms: "ms = xs @ (k, raw, v) # ys" by (meson split_list)
  have "fold_key k \<notin> (\<lambda>(k, _). fold_key k) ` (set xs \<union> set ys)" using assms(1) by (simp add: ms image_Un)
  then have "fold_key k' \<noteq> fold_key k" if "(k', raw', v') \<in> set xs \<union> set ys" for k' raw' v'
    using that by (metis (mono_tags, lifting) case_prod_conv image_eqI)
  then have "\<not> field_matches f k'" if "(k', raw', v') \<in> set xs \<union> set ys" for k' raw' v'
    using that field_matches_fold_key [OF assms(3)] field_matches_fold_key [of f k'] by metis
  then have *: "\<forall>(k, raw, v) \<in> set xs. \<not> field_matches f k" "\<forall>(k, raw, v) \<in> set ys. \<not> field_matches f k" by auto
  have "last_raw f old ms = last_raw f (last_raw f old [(k, raw, v)]) ys"
    using last_raw_none [OF *(1), of old] by (simp add: ms last_raw_def)
  with last_raw_none [OF *(2)] assms(3) show "last_raw f old ms = raw" by (simp add: last_raw_def)
  have "last_string f old ms = last_string f (last_string f old [(k, raw, v)]) ys"
    using last_string_none [OF *(1), of old] by (simp add: ms last_string_def)
  with last_string_none [OF *(2)] assms(3) show "last_string f old ms = s" if "v = JStr s"
    using that by (simp add: last_string_def)
qed

lemma method_member_string:
  "decode_members env ms = Some env' \<Longrightarrow> (''method'', raw, v) \<in> set ms \<Longrightarrow> v = JNull \<or> (\<exists>s. v = JStr s)"
proof (induction env ms rule: decode_members.induct)
  case (2 env m ms)
  from "2.prems"(1) obtain e1 where e1: "decode_member env m = Some e1" "decode_members e1 ms = Some env'"
    by (auto simp: bind_Some_conv)
  have "v = JNull \<or> (\<exists>s. v = JStr s)" if "m = (''method'', raw, v)"
    using e1(1) unfolding that decode_member_def field_matches_iff fold_name_fields prod.case
    by (cases v) (auto simp: string_field_def)
  with "2.IH" [OF e1] "2.prems"(2) show ?case by auto
qed simp

definition members_of :: "bytes \<Rightarrow> (bytes \<times> bytes \<times> json) list" where
  "members_of raw = (case object_members raw of Some ms \<Rightarrow> ms | None \<Rightarrow> [])"

lemma Parse_members:
  assumes "Parse raw = Inr m"
  obtains env where "decode_members no_envelope (members_of raw) = Some env" "env_JSONRPC env = Version"
    "m_ID m = env_ID env" "m_Method m = env_Method env" "m_Params m = env_Params env"
    "m_Result m = env_Result env" "m_Error m = env_Error env" "m_Raw m = raw"
    "parse_json raw = Some (JObj (map (\<lambda>(k, _, v). (k, v)) (members_of raw)))"
    "list_all (\<lambda>(_, r, v). raw_ok (max_depth - 1) r v \<and> parse_json r = Some v) (members_of raw)"
proof -
  obtain ms where ms: "parse_json raw = Some (JObj ms)" using parsed_json [OF assms] by blast
  then obtain rms where rms: "object_members raw = Some rms" "ms = map (\<lambda>(k, _, v). (k, v)) rms"
    "list_all (\<lambda>(_, r, v). raw_ok (max_depth - 1) r v \<and> parse_json r = Some v) rms"
    by (rule object_members_parse)
  with assms ms that show thesis
    by (auto simp: Parse_def decode_envelope_def members_of_def split: option.splits if_splits)
qed

text \<open>
  C15: A message that passes the ambiguity check has no second reading: whatever member an
  exactly matching parser finds under a field's name, first or last, holds the bytes and the
  method the proxy decided on.\<close>

theorem unambiguous_message_has_one_reading:
  assumes "Parse raw = Inr m" "Ambiguity pr m = []" "(key, bytes, v) \<in> set (members_of raw)"
  shows "(if key = ''id'' then m_ID m = bytes else True) \<and> (if key = ''params'' then m_Params m = bytes else True) \<and>
    (if key = ''method'' \<and> v \<noteq> JNull then v = JStr (m_Method m) else True) \<and>
    (if key = ''result'' then m_Result m = bytes else True) \<and> (if key = ''error'' then m_Error m = bytes else True)"
proof -
  from assms(1) obtain env where env: "decode_members no_envelope (members_of raw) = Some env"
    "m_ID m = env_ID env" "m_Method m = env_Method env" "m_Params m = env_Params env"
    "m_Result m = env_Result env" "m_Error m = env_Error env"
    "parse_json raw = Some (JObj (map (\<lambda>(k, _, v). (k, v)) (members_of raw)))"
    by (rule Parse_members)
  have "unambiguous (JObj (map (\<lambda>(k, _, v). (k, v)) (members_of raw)))"
    using Parse_unambiguous [OF assms(1), of pr] assms(2) env(7) by simp
  then have d: "distinct (map (\<lambda>(k, _). fold_key k) (members_of raw))"
    by (simp add: comp_def split_beta')
  note fields = decode_members_fields [OF env(1)] and exact = only_match [OF d assms(3)]
  have "v = JStr (env_Method env)" if k: "key = ''method''" and n: "v \<noteq> JNull"
  proof -
    obtain s where "v = JStr s" using method_member_string [OF env(1)] assms(3) k n by auto
    with exact(2) [of "''method''"] k fields show ?thesis by (simp add: field_matches_def)
  qed
  moreover have raw: "last_raw key old (members_of raw) = bytes" for old
    by (rule exact(1)) (simp add: field_matches_def)
  moreover have "env_ID env = bytes" if "key = ''id''" using fields raw that by metis
  moreover have "env_Params env = bytes" if "key = ''params''" using fields raw that by metis
  moreover have "env_Result env = bytes" if "key = ''result''" using fields raw that by metis
  moreover have "env_Error env = bytes" if "key = ''error''" using fields raw that by metis
  ultimately show ?thesis unfolding env(2-6) by argo
qed

section \<open>The error reply is a correlated response\<close>

lemma digit_char_digit: "d < 10 \<Longrightarrow> is_digit (digit_char d)" "0 < d \<Longrightarrow> d < 10 \<Longrightarrow> digit_char d \<noteq> CHR ''0''"
proof -
  show "d < 10 \<Longrightarrow> is_digit (digit_char d)" by (simp add: is_digit_def digit_char_def byte_of_char)
  assume "0 < d" "d < 10"
  then have "byte (digit_char d) \<noteq> 48" by (simp add: digit_char_def byte_of_char)
  then show "digit_char d \<noteq> CHR ''0''" by (auto simp: byte_def)
qed

lemma nat_digits_shape:
  "nat_digits n \<noteq> [] \<and> (\<forall>c \<in> set (nat_digits n). is_digit c) \<and> (0 < n \<longrightarrow> hd (nat_digits n) \<noteq> CHR ''0'')"
proof (induction n rule: nat_digits.induct)
  case (1 n)
  show ?case
  proof (cases "n < 10")
    case True
    then have "nat_digits n = [digit_char n]" by (simp add: nat_digits.simps [of n])
    with True show ?thesis by (simp add: digit_char_digit)
  next
    case False
    with 1 have "nat_digits n = nat_digits (n div 10) @ [digit_char (n mod 10)]" "0 < n div 10"
      by (simp_all add: nat_digits.simps [of n] div_greater_zero_iff)
    with 1 False show ?thesis by (auto simp: digit_char_digit)
  qed
qed

lemma nat_digits_number: "scan_int (nat_digits n) = Some (nat_digits n, [])"
proof (cases "n = 0")
  case True
  moreover have "nat_digits 0 = ''0''" by code_simp
  ultimately show ?thesis by (simp add: scan_int_def HasPrefix_def)
next
  case False
  with nat_digits_shape [of n] have "\<not> HasPrefix (nat_digits n) ''0''" "take_digits (nat_digits n) = (nat_digits n, [])"
    by (auto simp: prefix_hd take_digits_def)
  with nat_digits_shape [of n] show ?thesis by (simp add: scan_int_def)
qed

lemma number_ok_Itoa: "number_ok (Itoa i)"
proof -
  have "\<not> HasPrefix (nat_digits n) ''-''" for n
    using nat_digits_shape [of n] by (auto simp: prefix_hd is_digit_def byte_def dest!: hd_in_set)
  then show ?thesis
    by (auto simp: number_ok_def scan_number_def Itoa_def prefix_head nat_digits_number scan_frac_def scan_exp_def)
qed

lemma drop_space_string: "scan_string s = Some (q, r) \<Longrightarrow> drop_space True False s = q @ CHR 0x22 # drop_space False False r
    \<and> s = q @ CHR 0x22 # r"
proof (induction s arbitrary: q rule: scan_string.induct)
  case (2 c s)
  consider "c = CHR 0x22" | e s' where "c = CHR 0x5C" "s = e # s'" "simple_escape e"
    | e h1 h2 h3 h4 s' where "c = CHR 0x5C" "s = e # h1 # h2 # h3 # h4 # s'" "\<not> simple_escape e" "e = CHR ''u''"
        "is_hex h1 \<and> is_hex h2 \<and> is_hex h3 \<and> is_hex h4"
    | "c \<noteq> CHR 0x22" "c \<noteq> CHR 0x5C" "\<not> byte c < 0x20"
    using "2.prems" by (auto split: if_splits list.splits)
  then show ?case
  proof cases
    case 1
    with "2.prems" show ?thesis by auto
  next
    case 2
    with "2.prems" obtain q' where q: "scan_string s' = Some (q', r)" "q = c # e # q'" by auto
    with "2.IH"(1) 2 show ?thesis by fastforce
  next
    case 3
    with "2.prems" obtain q' where q: "scan_string s' = Some (q', r)" "q = c # e # h1 # h2 # h3 # h4 # q'" by auto
    have "h \<noteq> CHR 0x22 \<and> h \<noteq> CHR 0x5C" if "is_hex h" for h
      using that by (auto simp: is_hex_def is_digit_def byte_def)
    with "2.IH"(2) 3 q show ?thesis by fastforce
  next
    case 4
    with "2.prems" obtain q' where q: "scan_string s = Some (q', r)" "q = c # q'" by auto
    with "2.IH"(3) 4 show ?thesis by fastforce
  qed
qed simp

definition number_char :: "char \<Rightarrow> bool" where
  "number_char c \<longleftrightarrow> is_digit c \<or> c \<in> set ''+-.eE''"

lemma number_char_plain: "number_char c \<Longrightarrow> c \<noteq> CHR 0x22 \<and> \<not> is_ws c"
  by (auto simp: number_char_def is_ws_def is_digit_def byte_def)

lemma number_no_space: "list_all number_char n \<Longrightarrow> drop_space False False n = n"
  by (induction n) (auto simp: number_char_plain)

lemma take_digits_chars: "take_digits s = (ds, r) \<Longrightarrow> list_all number_char ds"
  by (auto simp: take_digits_def list_all_iff number_char_def dest: set_takeWhileD)

lemma take_sign: "HasPrefix s ''+'' \<or> HasPrefix s ''-'' \<Longrightarrow> list_all number_char (take 1 s)"
  "HasPrefix s ''e'' \<or> HasPrefix s ''E'' \<Longrightarrow> list_all number_char (take 1 s)"
  by (cases s; auto simp: HasPrefix_def number_char_def)+

lemma number_chars:
  assumes "scan_number s = Some (n, r)"
  shows "list_all number_char n"
proof -
  obtain sg s1 ds s2 fs s3 es where i: "scan_int s1 = Some (ds, s2)" and f: "scan_frac s2 = Some (fs, s3)"
    and e: "scan_exp s3 = Some (es, r)" and n: "n = sg @ ds @ fs @ es" and sg: "sg = [] \<or> sg = ''-''"
    using assms by (auto simp: scan_number_def split: option.splits prod.splits if_splits)
  have "list_all number_char ds"
    using i by (auto simp: scan_int_def number_char_def is_digit_def byte_def dest: take_digits_chars split: if_splits prod.splits)
  moreover have "list_all number_char fs"
    using f by (auto simp: scan_frac_def dest!: take_digits_chars split: if_splits prod.splits)
      (simp_all add: number_char_def)
  moreover have "list_all number_char es"
    using e take_sign [of s3] take_sign [of "drop 1 s3"]
    by (auto simp: scan_exp_def Let_def dest: take_digits_chars split: if_splits prod.splits)
  moreover have "list_all number_char sg" using sg by (auto simp: number_char_def)
  ultimately show ?thesis by (simp add: n)
qed

definition plain_id :: "json \<Rightarrow> bool" where
  "plain_id v \<longleftrightarrow> (case v of JNum _ \<Rightarrow> True | JStr _ \<Rightarrow> True | _ \<Rightarrow> False)"

lemma drop_space_raw:
  assumes "raw_ok d raw v" "plain_id v"
  shows "drop_space False False raw = raw"
proof -
  from assms(1) have p: "parse_value d raw = Some (v, [])" and "raw \<noteq> []"
    by (auto simp: raw_ok_def dest: spec [of _ "[]"])
  then obtain c s where raw: "raw = c # s" by (cases raw) auto
  show ?thesis
  proof (cases "c = CHR 0x22")
    case True
    then obtain q where "scan_string s = Some (q, [])"
      using p unfolding raw by (subst (asm) parse_value.simps) auto
    from drop_space_string [OF this] have "drop_space True False s = s" by (metis drop_space.simps(1))
    with True raw show ?thesis by (simp add: is_ws_def)
  next
    case False
    then obtain n where "scan_number raw = Some (n, [])"
      using p assms(2) unfolding raw by (subst (asm) parse_value.simps)
        (auto simp: plain_id_def literal_def split: if_splits)
    then have "list_all number_char raw" using number_chars scan_number_local by force
    then show ?thesis by (rule number_no_space)
  qed
qed

lemma errObj_members: "errObj code msg dat =
    JObj ((''code'', JNum (Itoa code)) # (case dat of None \<Rightarrow> [] | Some d \<Rightarrow> [(''data'', d)]) @ [(''message'', JStr msg)])"
proof -
  have "''code'' \<le> ''data''" "''code'' \<le> ''message''" "''data'' \<le> ''message''" "\<not> ''message'' \<le> ''code''"
    "\<not> ''message'' \<le> ''data''" "\<not> ''data'' \<le> ''code''" by code_simp+
  then show ?thesis by (cases dat) (simp_all add: errObj_def JMap_def)
qed

lemma keyword_utf8: "valid_utf8 ''code''" "valid_utf8 ''message''" "valid_utf8 ''data''" "valid_utf8 ''error''"
  "valid_utf8 ''id''" "valid_utf8 ''jsonrpc''" "valid_utf8 ''2.0''"
  by code_simp+

lemma errObj_valid:
  assumes "valid_utf8 msg" "\<forall>d. dat = Some d \<longrightarrow> valid_json (max_depth - 2) d"
  shows "valid_json (max_depth - 1) (errObj code msg dat)"
proof -
  have "0 < max_depth - 1" "max_depth - 1 - 1 = max_depth - 2" by (simp_all add: max_depth_def)
  with assms show ?thesis
    unfolding errObj_members by (cases dat) (simp_all add: keyword_utf8 number_ok_Itoa del: One_nat_def)
qed

text \<open>An id a client uses: a number, or a string without characters that HTML would interpret.\<close>

definition client_id :: "bytes \<Rightarrow> bool" where
  "client_id raw \<longleftrightarrow> (case parse_json raw of Some v \<Rightarrow> plain_id v | None \<Rightarrow> False) \<and> html_escape raw = raw"

lemma last_raw_member: "last_raw f old ms = old \<or> (\<exists>k v. (k, last_raw f old ms, v) \<in> set ms)"
proof (induction ms arbitrary: old)
  case (Cons m ms)
  obtain k raw v where m: "m = (k, raw, v)" by (cases m)
  have "last_raw f old (m # ms) = last_raw f (if field_matches f k then raw else old) ms"
    by (simp add: last_raw_def m)
  with Cons [of "if field_matches f k then raw else old"] m show ?case by (auto split: if_splits)
qed (simp add: last_raw_def)

lemma message_id_raw:
  assumes "Parse raw = Inr m" "m_ID m \<noteq> []"
  obtains v where "raw_ok (max_depth - 1) (m_ID m) v" "parse_json (m_ID m) = Some v"
proof -
  from assms(1) obtain env where env: "decode_members no_envelope (members_of raw) = Some env" "m_ID m = env_ID env"
    "list_all (\<lambda>(_, r, v). raw_ok (max_depth - 1) r v \<and> parse_json r = Some v) (members_of raw)"
    by (rule Parse_members)
  have "env_ID env = last_raw ''id'' [] (members_of raw)"
    using decode_members_fields [OF env(1)] by (simp add: no_envelope_def)
  with last_raw_member [of "''id''" "[]" "members_of raw"] assms(2) env(2)
  obtain k v where "(k, m_ID m, v) \<in> set (members_of raw)" by auto
  with env(3) that show thesis by (auto simp: list_all_iff)
qed

lemma reply_read:
  fixes rid :: bytes and e v :: json
  defines "rms \<equiv> [(''error'', encode_json e, e), (''id'', rid, v), (''jsonrpc'', encode_string Version, JStr Version)]"
  assumes "valid_json (max_depth - 1) e" "raw_ok (max_depth - 1) rid v"
  shows "Parse (raw_object rms) = Inr \<lparr>m_Raw = raw_object rms, m_ID = rid, m_Method = [], m_Params = [],
      m_Result = [], m_Error = encode_json e\<rparr> \<and> parse_json (encode_json e) = Some e"
proof -
  have v: "raw_ok (max_depth - 1) (encode_string Version) (JStr Version)"
    using encoded_raw_ok [of _ "JStr Version"] encode_parses [of _ "JStr Version"] keyword_utf8(7) by (simp add: Version_def)
  have ok: "list_all (\<lambda>(k, raw, v). valid_utf8 k \<and> raw_ok (max_depth - 1) raw v) rms" "rms \<noteq> []"
    using assms v encoded_raw_ok [OF encode_parses] by (simp_all add: keyword_utf8)
  note read = raw_object_read [OF ok]
  have "decode_members no_envelope rms = Some \<lparr>env_JSONRPC = Version, env_ID = rid, env_Method = [], env_Params = [],
      env_Result = [], env_Error = encode_json e\<rparr>"
    by (simp add: rms_def decode_member_def field_matches_iff fold_name_fields string_field_def no_envelope_def del: fold_name.simps)
  moreover have "parse_json (encode_json e) = Some e"
  proof -
    obtain rms' where "object_members (raw_object rms) = Some rms'"
      "list_all (\<lambda>(_, raw, v). raw_ok (max_depth - 1) raw v \<and> parse_json raw = Some v) rms'"
      by (rule object_members_parse [OF read(1)])
    with read(2) show ?thesis by (auto simp: rms_def)
  qed
  ultimately show ?thesis using read by (simp add: Parse_def decode_envelope_def)
qed

text \<open>
  C18: A request that is refused gets an answer the client can use: for any id a client sends
  (a number, or a string that JSON encoders leave alone) the error reply exists, parses as a
  response, carries exactly the request's id and the error object that was built.\<close>

theorem ErrorResponse_answers_request:
  assumes "Parse raw = Inr m" "IsRequest m" "client_id (m_ID m)" "valid_utf8 msg"
    "\<forall>d. dat = Some d \<longrightarrow> valid_json (max_depth - 2) d"
  shows "\<exists>reply r. ErrorResponse (m_ID m) code msg dat = Some reply \<and> Parse reply = Inr r \<and> IsResponse r \<and>
    IDKey r = IDKey m \<and> parse_json (m_Error r) = Some (errObj code msg dat)"
proof -
  have id: "m_ID m \<noteq> []" using assms(2) by (simp add: IsRequest_def)
  obtain v where v: "raw_ok (max_depth - 1) (m_ID m) v" "parse_json (m_ID m) = Some v"
    using message_id_raw [OF assms(1) id] .
  with assms(3) have "compact (m_ID m) = Some (m_ID m)"
    using drop_space_raw [OF v(1)] by (simp add: compact_def client_id_def)
  then have "ErrorResponse (m_ID m) code msg dat = Some (raw_object [(''error'', encode_json (errObj code msg dat), errObj code msg dat),
      (''id'', m_ID m, v), (''jsonrpc'', encode_string Version, JStr Version)])"
    using id by (simp add: ErrorResponse_def raw_object_def)
  moreover note reply_read [OF errObj_valid [OF assms(4,5)] v(1), of code]
  moreover have "encode_json (errObj code msg dat) \<noteq> []"
    using encode_hd [OF errObj_valid [OF assms(4,5)]] by simp
  ultimately show ?thesis by (auto simp: IsResponse_def IDKey_def)
qed

section \<open>An example\<close>

definition example_params :: json where
  "example_params = JObj [(''name'', JStr ''read''), (''arguments'', JObj [(''path'', JStr ''/etc/shadow'')])]"

definition call_members :: "json \<Rightarrow> (bytes \<times> bytes \<times> json) list" where
  "call_members p = map (\<lambda>(k, v). (k, encode_json v, v))
     [(''jsonrpc'', JStr ''2.0''), (''id'', JNum ''7''), (''method'', JStr ''tools/call''), (''params'', p)]"

definition call_raw :: "json \<Rightarrow> bytes" where
  "call_raw p = raw_object (call_members p)"

definition call_message :: "json \<Rightarrow> message" where
  "call_message p = \<lparr>m_Raw = call_raw p, m_ID = ''7'', m_Method = ''tools/call'', m_Params = encode_json p,
     m_Result = [], m_Error = []\<rparr>"

lemma call_utf8: "valid_utf8 ''method''" "valid_utf8 ''tools/call''" "valid_utf8 ''params''" "number_ok ''7''"
  by code_simp+

lemma call_read:
  assumes "valid_json (max_depth - 1) p"
  shows "Parse (call_raw p) = Inr (call_message p)" "members_of (call_raw p) = call_members p"
    "parse_json (call_raw p) = Some (JObj (map (\<lambda>(k, _, v). (k, v)) (call_members p)))"
proof -
  have "list_all (\<lambda>(k, raw, v). valid_utf8 k \<and> raw_ok (max_depth - 1) raw v) (call_members p)" "call_members p \<noteq> []"
    using assms encoded_raw_ok [OF encode_parses, of "max_depth - 1"]
    by (auto simp: call_members_def keyword_utf8 call_utf8 simp del: encode_json.simps)
  note read = raw_object_read [OF this]
  have "decode_members no_envelope (call_members p) = Some \<lparr>env_JSONRPC = ''2.0'', env_ID = ''7'',
      env_Method = ''tools/call'', env_Params = encode_json p, env_Result = [], env_Error = []\<rparr>"
    by (simp add: call_members_def decode_member_def field_matches_iff fold_name_fields string_field_def
        no_envelope_def del: fold_name.simps)
  with read show "Parse (call_raw p) = Inr (call_message p)"
    by (simp add: Parse_def decode_envelope_def call_raw_def call_message_def Version_def)
  show "members_of (call_raw p) = call_members p" using read by (simp add: members_of_def call_raw_def)
  show "parse_json (call_raw p) = Some (JObj (map (\<lambda>(k, _, v). (k, v)) (call_members p)))"
    using read by (simp add: call_raw_def)
qed

lemma example_params_valid: "valid_json (max_depth - 1) example_params"
proof -
  have "valid_utf8 ''name''" "valid_utf8 ''read''" "valid_utf8 ''arguments''" "valid_utf8 ''path''" "valid_utf8 ''/etc/shadow''"
    by code_simp+
  then show ?thesis by (simp add: example_params_def max_depth_def)
qed

lemmas example_read = call_read [OF example_params_valid]

lemma example_unambiguous: "unambiguous (JObj (map (\<lambda>(k, _, v). (k, v)) (call_members example_params)))"
  by code_simp

lemma example_id: "client_id ''7''"
proof -
  have "raw_ok (max_depth - 1) ''7'' (JNum ''7'')"
    using encoded_raw_ok [OF encode_parses, of _ "JNum ''7''"] call_utf8(4) by simp
  moreover have "html_escape ''7'' = ''7''" by code_simp
  ultimately show ?thesis
    using message_id_raw [OF example_read(1)] parse_value_number [OF call_utf8(4), of "[]" max_depth]
    by (simp add: client_id_def parse_json_def skip_ws_def is_ws_def plain_id_def)
qed

lemma Ambiguity_iff_witness:
  "Ambiguity (\<lambda>_. False) (call_message example_params) = []"
  unfolding Ambiguity_iff [OF example_read(1)] example_read(3) option.case by (rule example_unambiguous)

lemma unambiguous_message_has_one_reading_witness:
  "m_Params (call_message example_params) = encode_json example_params"
proof -
  have "Ambiguity (\<lambda>_. False) (call_message example_params) = []"
    by (simp only: Ambiguity_def Parse_raw [OF example_read(1)] example_read(3) option.case ambiguity_iff
        example_unambiguous)
  moreover have "(''params'', encode_json example_params, example_params) \<in> set (members_of (call_raw example_params))"
    by (simp add: example_read(2) call_members_def)
  ultimately show ?thesis
    using unambiguous_message_has_one_reading [OF example_read(1), of "\<lambda>_. False" "''params''"] by fastforce
qed

lemma ErrorResponse_answers_request_witness:
  "\<exists>reply r. ErrorResponse ''7'' CodePolicyDenied ''error'' None = Some reply \<and> Parse reply = Inr r \<and> IDKey r = ''7''"
proof -
  have "IsRequest (call_message example_params)" "client_id (m_ID (call_message example_params))"
    "IDKey (call_message example_params) = ''7''" "m_ID (call_message example_params) = ''7''"
    using example_id by (simp_all add: call_message_def IsRequest_def IDKey_def)
  with ErrorResponse_answers_request [OF example_read(1) _ _ keyword_utf8(4), of None CodePolicyDenied]
  show ?thesis by auto
qed

end
