(* ===== verification/Codec.thy ===== *)
theory Codec
  imports GoStrings
begin

text \<open>
  Line framing, \<open>internal/jsonrpc/codec.go\<close>. A source is the bytes still to come and how it
  ends: at the end of the file, or with a read error. \<open>bufio.Scanner\<close> with \<open>ScanLines\<close> is
  \<open>scan_line\<close>: a line ends at a newline, loses one trailing carriage return, and is too long
  when the buffer of \<open>maxSize\<close> bytes is full before its newline is found.
\<close>

section \<open>Definitions\<close>

definition newline :: char where "newline = CHR 0x0A"

definition DefaultMaxMessageBytes :: nat where
  "DefaultMaxMessageBytes = 16777216"

datatype read_error = EOF | ErrMessageTooLarge nat | ReadFailed bytes

record reader =
  rd_rest :: bytes
  rd_end :: "bytes option"
  rd_maxSize :: nat

definition NewReader :: "bytes \<Rightarrow> bytes option \<Rightarrow> int \<Rightarrow> reader" where
  "NewReader rest failure maxSize =
     \<lparr>rd_rest = rest, rd_end = failure,
      rd_maxSize = (if maxSize \<le> 0 then DefaultMaxMessageBytes else nat maxSize)\<rparr>"

definition dropCR :: "bytes \<Rightarrow> bytes" where
  "dropCR l = TrimSuffix l [CHR 0x0D]"

datatype scan = Line bytes bytes | TooLong | NoMore

definition scan_line :: "nat \<Rightarrow> bytes \<Rightarrow> scan" where
  "scan_line maxSize s =
     (if s = [] then NoMore
      else case cut_byte newline s of
        Some (l, r) \<Rightarrow> if maxSize \<le> length l then TooLong else Line (dropCR l) r
      | None \<Rightarrow> if maxSize \<le> length s then TooLong else Line (dropCR s) [])"

definition isSpace :: "char \<Rightarrow> bool" where
  "isSpace c \<longleftrightarrow> c = CHR '' '' \<or> c = CHR 0x09 \<or> c = CHR 0x0D \<or> c = CHR 0x0A \<or> c = CHR 0x0B \<or> c = CHR 0x0C"

definition trimSpace :: "bytes \<Rightarrow> bytes" where
  "trimSpace b = rev (dropWhile isSpace (rev (dropWhile isSpace b)))"

lemma scan_line_less: "scan_line n s = Line l r \<Longrightarrow> length r < length s"
  by (auto simp: scan_line_def cut_byte_Some split: if_splits option.splits)

function read_lines :: "nat \<Rightarrow> bytes option \<Rightarrow> bytes \<Rightarrow> (read_error + bytes) \<times> bytes" where
  "read_lines maxSize failure s =
     (case scan_line maxSize s of
       NoMore \<Rightarrow> (Inl (case failure of None \<Rightarrow> EOF | Some e \<Rightarrow> ReadFailed e), s)
     | TooLong \<Rightarrow> (Inl (ErrMessageTooLarge maxSize), s)
     | Line l r \<Rightarrow> if length (trimSpace l) = 0 then read_lines maxSize failure r else (Inr l, r))"
  by pat_completeness auto
termination
  by (relation "measure (\<lambda>(n, e, s). length s)") (auto dest: scan_line_less)

declare read_lines.simps [simp del]

definition ReadRaw :: "reader \<Rightarrow> (read_error + bytes) \<times> reader" where
  "ReadRaw r =
     (let (res, rest) = read_lines (rd_maxSize r) (rd_end r) (rd_rest r) in (res, r\<lparr>rd_rest := rest\<rparr>))"

text \<open>A sink: what was written to it, and whether writing to it fails. A message and its newline
  go out in one flush.\<close>

record writer =
  wr_out :: bytes
  wr_broken :: bool

definition WriteRaw :: "writer \<Rightarrow> bytes \<Rightarrow> bool \<times> writer" where
  "WriteRaw w msg = (if wr_broken w then (False, w) else (True, w\<lparr>wr_out := wr_out w @ msg @ [newline]\<rparr>))"

section \<open>Properties\<close>

lemma dropCR_set: "set (dropCR l) \<subseteq> set l"
  by (auto simp: dropCR_def TrimSuffix_def dest: in_set_takeD)

lemma dropCR_le: "length (dropCR l) \<le> length l"
  by (simp add: dropCR_def TrimSuffix_def)

lemma trimSpace_Nil: "trimSpace b = [] \<longleftrightarrow> list_all isSpace b"
proof
  assume "trimSpace b = []"
  then have "dropWhile isSpace b = [] \<or> (\<forall>c \<in> set (dropWhile isSpace b). isSpace c)"
    by (auto simp: trimSpace_def dropWhile_eq_Nil_conv)
  moreover have "dropWhile isSpace b = [] \<or> \<not> isSpace (hd (dropWhile isSpace b))"
    using hd_dropWhile by blast
  ultimately have "dropWhile isSpace b = []" by (metis hd_in_set)
  then show "list_all isSpace b" by (simp add: dropWhile_eq_Nil_conv list_all_iff)
next
  assume "list_all isSpace b"
  then have "dropWhile isSpace b = []" by (simp add: dropWhile_eq_Nil_conv list_all_iff)
  then show "trimSpace b = []" by (simp only: trimSpace_def rev.simps dropWhile.simps)
qed

lemma read_lines_line:
  "read_lines n e s = (Inr l, r) \<Longrightarrow> newline \<notin> set l \<and> \<not> list_all isSpace l \<and> length l < n \<and> length r < length s"
proof (induction n e s rule: read_lines.induct)
  case (1 n e s)
  show ?case
  proof (cases "scan_line n s")
    case (Line l' r')
    show ?thesis
    proof (cases "trimSpace l' = []")
      case True
      with 1 Line scan_line_less [OF Line] show ?thesis by (subst (asm) (2) read_lines.simps) fastforce
    next
      case False
      with "1.prems" Line have [simp]: "l' = l" "r' = r" by (subst (asm) read_lines.simps; simp)+
      have "newline \<notin> set l \<and> length l < n"
        using Line dropCR_set dropCR_le
        by (fastforce simp: scan_line_def cut_byte_Some cut_byte_None intro: le_less_trans split: if_splits option.splits)
      with False scan_line_less [OF Line] show ?thesis by (simp add: trimSpace_Nil)
    qed
  next
    case TooLong
    with "1.prems" show ?thesis by (subst (asm) read_lines.simps) simp
  next
    case NoMore
    with "1.prems" show ?thesis by (subst (asm) read_lines.simps) simp
  qed
qed

lemma read_lines_le: "length (snd (read_lines n e s)) \<le> length s"
proof (induction n e s rule: read_lines.induct)
  case (1 n e s)
  show ?case
  proof (cases "scan_line n s")
    case (Line l r)
    with 1 scan_line_less [OF Line] show ?thesis by (subst read_lines.simps) auto
  qed (subst read_lines.simps, simp)+
qed

lemma ReadRaw_le:
  "ReadRaw r = (res, r') \<Longrightarrow> length (rd_rest r') \<le> length (rd_rest r) \<and>
    (case res of Inl _ \<Rightarrow> True | Inr _ \<Rightarrow> length (rd_rest r') < length (rd_rest r))"
  using read_lines_le [of "rd_maxSize r" "rd_end r" "rd_rest r"] read_lines_line [of "rd_maxSize r" "rd_end r" "rd_rest r"]
  by (auto simp: ReadRaw_def split: prod.splits sum.splits)

text \<open>
  What the reader hands on is one line: it contains no newline, is not blank, is shorter
  than the configured limit, and reading it consumed input.\<close>

theorem ReadRaw_is_one_line:
  assumes "ReadRaw r = (Inr line, r')"
  shows "newline \<notin> set line \<and> \<not> list_all isSpace line \<and> length line < rd_maxSize r \<and>
    length (rd_rest r') < length (rd_rest r) \<and> rd_maxSize r' = rd_maxSize r"
  using assms read_lines_line [of "rd_maxSize r" "rd_end r" "rd_rest r" line "rd_rest r'"]
  by (auto simp: ReadRaw_def split: prod.splits)

text \<open>A message that survives the framing.\<close>

definition framed :: "nat \<Rightarrow> bytes \<Rightarrow> bool" where
  "framed n m \<longleftrightarrow> newline \<notin> set m \<and> \<not> list_all isSpace m \<and> length m < n \<and> \<not> HasSuffix m [CHR 0x0D]"

lemma read_framed: "framed n m \<Longrightarrow> read_lines n e (m @ newline # s) = (Inr m, s)"
proof -
  assume m: "framed n m"
  then have "cut_byte newline (m @ newline # s) = Some (m, s)" by (simp add: cut_byte_Some framed_def)
  with m have "scan_line n (m @ newline # s) = Line m s"
    by (simp add: scan_line_def framed_def dropCR_def TrimSuffix_def)
  with m show ?thesis by (subst read_lines.simps) (simp add: framed_def trimSpace_Nil)
qed

fun write_all :: "writer \<Rightarrow> bytes list \<Rightarrow> writer" where
  "write_all w [] = w"
| "write_all w (m # ms) = write_all (snd (WriteRaw w m)) ms"

fun read_n :: "nat \<Rightarrow> reader \<Rightarrow> (read_error + bytes) list" where
  "read_n 0 r = []"
| "read_n (Suc k) r = (let (res, r') = ReadRaw r in res # (case res of Inr _ \<Rightarrow> read_n k r' | Inl _ \<Rightarrow> []))"

lemma write_all_out: "\<not> wr_broken w \<Longrightarrow> wr_out (write_all w ms) = wr_out w @ concat (map (\<lambda>m. m @ [newline]) ms)"
  by (induction ms arbitrary: w) (simp_all add: WriteRaw_def)

lemma read_n_framed:
  "list_all (framed n) ms \<Longrightarrow>
    read_n (length ms + 1) \<lparr>rd_rest = concat (map (\<lambda>m. m @ [newline]) ms), rd_end = None, rd_maxSize = n\<rparr> =
      map Inr ms @ [Inl EOF]"
proof (induction ms)
  case Nil
  then show ?case by (simp add: ReadRaw_def read_lines.simps [of n None "[]"] scan_line_def)
next
  case (Cons m ms)
  then show ?case by (simp add: ReadRaw_def read_framed)
qed

text \<open>
  Framing round trip: messages written one by one are read back one by one, the same bytes
  in the same order, and then the end of the stream.\<close>

theorem framing_roundtrip:
  assumes "list_all (framed n) ms" "0 < n"
  shows "read_n (length ms + 1) (NewReader (wr_out (write_all \<lparr>wr_out = [], wr_broken = False\<rparr> ms)) None (int n)) =
    map Inr ms @ [Inl EOF]"
  using read_n_framed [OF assms(1)] assms(2) by (simp add: NewReader_def write_all_out del: read_n.simps)

lemma ReadRaw_is_one_line_witness:
  "ReadRaw (NewReader (CHR 0x0A # ''{}'' @ [CHR 0x0D, CHR 0x0A] @ ''rest'') None 16) =
     (Inr ''{}'', NewReader ''rest'' None 16) \<and> newline \<notin> set ''{}''"
proof -
  have r: "ReadRaw (NewReader (CHR 0x0A # ''{}'' @ [CHR 0x0D, CHR 0x0A] @ ''rest'') None 16) =
      (Inr ''{}'', NewReader ''rest'' None 16)" by code_simp
  from ReadRaw_is_one_line [OF r] r show ?thesis by simp
qed

lemma framing_roundtrip_witness:
  "read_n 3 (NewReader (wr_out (write_all \<lparr>wr_out = [], wr_broken = False\<rparr> [''{}'', '' [1]''])) None 10) =
    [Inr ''{}'', Inr '' [1]'', Inl EOF]"
proof -
  have "list_all (framed 10) [''{}'', '' [1]'']" by code_simp
  from framing_roundtrip [OF this] show ?thesis by (simp add: numeral_3_eq_3)
qed

section \<open>What a stream delivers\<close>

text \<open>The lines of a text, the last one with or without its newline.\<close>

fun text_lines :: "bytes \<Rightarrow> bytes list" where
  "text_lines [] = []"
| "text_lines (c # s) =
     (if c = newline then [] # text_lines s else (case text_lines s of [] \<Rightarrow> [[c]] | l # ls \<Rightarrow> (c # l) # ls))"

text \<open>Of a stream, the lines that are not blank, each without the carriage return before its newline, up to
  the first line that is too long.\<close>

definition delivered :: "nat \<Rightarrow> bytes \<Rightarrow> bytes list" where
  "delivered n s = filter (\<lambda>l. \<not> list_all isSpace l) (map dropCR (takeWhile (\<lambda>l. length l < n) (text_lines s)))"

definition lines_fit :: "nat \<Rightarrow> bytes \<Rightarrow> bool" where
  "lines_fit n s \<longleftrightarrow> list_all (\<lambda>l. length l < n) (text_lines s)"

lemma text_lines_newline: "newline \<notin> set l \<Longrightarrow> text_lines (l @ newline # s) = l # text_lines s"
  by (induction l) auto

lemma text_lines_last: "newline \<notin> set l \<Longrightarrow> l \<noteq> [] \<Longrightarrow> text_lines l = [l]"
proof (induction l)
  case (Cons c l)
  then show ?case by (cases "l = []") auto
qed simp

lemma text_lines_cut: "cut_byte newline s = Some (l, r) \<Longrightarrow> text_lines s = l # text_lines r"
  by (auto simp: cut_byte_Some text_lines_newline)

lemma text_lines_no_cut: "cut_byte newline s = None \<Longrightarrow> s \<noteq> [] \<Longrightarrow> text_lines s = [s]"
  by (auto simp: cut_byte_None text_lines_last)

lemma scan_line_delivered:
  "case scan_line n s of
     NoMore \<Rightarrow> s = []
   | TooLong \<Rightarrow> delivered n s = [] \<and> \<not> lines_fit n s
   | Line l r \<Rightarrow> delivered n s = (if list_all isSpace l then [] else [l]) @ delivered n r \<and> (lines_fit n s \<longleftrightarrow> lines_fit n r)"
proof (cases "cut_byte newline s")
  case None
  show ?thesis
  proof (cases "s = []")
    case True
    then show ?thesis by (simp add: scan_line_def)
  next
    case False
    with None show ?thesis by (simp add: scan_line_def delivered_def lines_fit_def text_lines_no_cut)
  qed
next
  case (Some lr)
  then have "s \<noteq> []" by (auto simp: cut_byte_Some)
  with Some show ?thesis
    by (auto simp: scan_line_def delivered_def lines_fit_def text_lines_cut split: prod.splits)
qed

lemma read_lines_delivers:
  "case read_lines n None s of
     (Inr l, r) \<Rightarrow> delivered n s = l # delivered n r \<and> (lines_fit n s \<longleftrightarrow> lines_fit n r)
   | (Inl e, r) \<Rightarrow> delivered n s = [] \<and> (e = EOF \<or> (e = ErrMessageTooLarge n \<and> \<not> lines_fit n s))"
proof (induction n "None :: bytes option" s rule: read_lines.induct)
  case (1 n s)
  note scanned = scan_line_delivered [of n s]
  show ?case
  proof (cases "scan_line n s")
    case (Line l r)
    show ?thesis
    proof (cases "trimSpace l = []")
      case True
      then have "read_lines n None s = read_lines n None r" by (subst read_lines.simps) (simp add: Line)
      with 1 [OF Line] True scanned Line show ?thesis by (auto simp: trimSpace_Nil split: prod.splits sum.splits)
    next
      case False
      then have "read_lines n None s = (Inr l, r)" by (subst read_lines.simps) (simp add: Line)
      with False scanned Line show ?thesis by (simp add: trimSpace_Nil)
    qed
  next
    case TooLong
    then have "read_lines n None s = (Inl (ErrMessageTooLarge n), s)" by (subst read_lines.simps) simp
    with TooLong scanned show ?thesis by simp
  next
    case NoMore
    then have "read_lines n None s = (Inl EOF, s)" by (subst read_lines.simps) simp
    with NoMore scanned show ?thesis by (simp add: delivered_def)
  qed
qed

text \<open>
  A reader hands on exactly what its stream delivers, line by line, and then reports the end of the
  stream or the line that is too long.\<close>

lemma ReadRaw_delivers:
  assumes "rd_end r = None" "ReadRaw r = (res, r')"
  shows "rd_end r' = None \<and> rd_maxSize r' = rd_maxSize r \<and>
    (case delivered (rd_maxSize r) (rd_rest r) of
      [] \<Rightarrow> res = Inl EOF \<or> (res = Inl (ErrMessageTooLarge (rd_maxSize r)) \<and> \<not> lines_fit (rd_maxSize r) (rd_rest r))
    | l # ls \<Rightarrow> res = Inr l \<and> delivered (rd_maxSize r) (rd_rest r') = ls \<and>
        (lines_fit (rd_maxSize r) (rd_rest r) \<longleftrightarrow> lines_fit (rd_maxSize r) (rd_rest r')))"
  using read_lines_delivers [of "rd_maxSize r" "rd_rest r"] assms
  by (auto simp: ReadRaw_def split: prod.splits sum.splits)

text \<open>Lines of messages deliver the messages.\<close>

lemma delivered_framed:
  "list_all (framed n) ms \<Longrightarrow> delivered n (concat (map (\<lambda>m. m @ [newline]) ms)) = ms \<and>
    lines_fit n (concat (map (\<lambda>m. m @ [newline]) ms))"
proof (induction ms)
  case (Cons m ms)
  then have "framed n m" by simp
  moreover from this have "dropCR m = m" by (simp add: framed_def dropCR_def TrimSuffix_def)
  ultimately show ?case using Cons by (simp add: delivered_def lines_fit_def framed_def text_lines_newline)
qed (simp add: delivered_def lines_fit_def)

section \<open>Line endings\<close>

text \<open>
  The bytes that arrive are not always the bytes that are read: \<open>ScanLines\<close> drops the
  carriage return of a line that ends in CR LF, so such a message is forwarded without it.\<close>

theorem carriage_return_is_lost:
  "fst (ReadRaw (NewReader (''{}'' @ [CHR 0x0D, CHR 0x0A]) None 0)) = Inr ''{}''"
proof -
  have "scan_line DefaultMaxMessageBytes (''{}'' @ [CHR 0x0D, CHR 0x0A]) = Line ''{}'' []"
    by (simp add: scan_line_def newline_def DefaultMaxMessageBytes_def dropCR_def TrimSuffix_def HasSuffix_def HasPrefix_def)
  moreover have "trimSpace ''{}'' \<noteq> []" by code_simp
  ultimately show ?thesis by (simp add: ReadRaw_def NewReader_def read_lines.simps)
qed

end
