(* ===== verification/Proxy.thy ===== *)
theory Proxy
  imports JsonRpc Codec "HOL-Library.Sublist"
begin

text \<open>
  The proxy pumps, \<open>internal/proxy/proxy.go\<close>: what happens to one message in either direction,
  which requests are waiting for an answer, and how a session of two pumps ends. The
  interceptor is a parameter with a state of its own; a panic is \<open>None\<close>. The two pumps run as
  steps that interleave freely, one message per step; the clock is reduced to whether a grace
  period has passed.
\<close>

section \<open>Definitions\<close>

datatype direction = ClientToServer | ServerToClient

definition Direction_String :: "direction \<Rightarrow> bytes" where
  "Direction_String d = (if d = ClientToServer then ''client->server'' else ''server->client'')"

datatype verdict_kind = Forward | Replace | Reject | Drop

record interception =
  in_Decision :: verdict_kind
  in_Message :: "bytes option"

datatype session_error =
    WriteFailed
  | ReplyFailed
  | InterceptorFailed direction bytes
  | ReplaceWithoutMessage direction
  | RejectWithoutReply direction
  | DroppedRequest direction bytes
  | ReadError direction read_error

type_synonym 'g interceptor = "'g \<Rightarrow> direction \<Rightarrow> message \<Rightarrow> ('g \<times> (bytes + interception)) option"

record 'g proxy_options =
  po_MaxMessageBytes :: int
  po_Interceptor :: "'g interceptor option"
  po_DrainGrace :: int
  po_RejectUnparseable :: bool
  po_OnUnparseable :: "('g \<Rightarrow> bool \<Rightarrow> parse_error \<Rightarrow> 'g) option"

definition DefaultDrainGrace :: int where
  "DefaultDrainGrace = 10 * 1000000000"

text \<open>The state the pumps share. \<open>px_pending\<close> is the key set of the \<open>pending\<close> map, \<open>px_answered\<close>
  whether the one-place channel holds a signal, \<open>px_notes\<close> what \<open>OnError\<close> was told.\<close>

record 'g proxy =
  px_clientW :: writer
  px_serverW :: writer
  px_pending :: "bytes list"
  px_answered :: bool
  px_gateway :: 'g
  px_notes :: "(direction \<times> parse_error) list"

definition NewProxySession :: "writer \<Rightarrow> writer \<Rightarrow> 'g \<Rightarrow> 'g proxy" where
  "NewProxySession clientOut serverIn g =
     \<lparr>px_clientW = clientOut, px_serverW = serverIn, px_pending = [], px_answered = False, px_gateway = g, px_notes = []\<rparr>"

text \<open>Where the messages of a direction go, and where an answer to one goes.\<close>

definition write_dst :: "direction \<Rightarrow> bytes \<Rightarrow> 'g proxy \<Rightarrow> 'g proxy \<times> session_error option" where
  "write_dst dir raw s =
     (case dir of
       ClientToServer \<Rightarrow>
         let (ok, w) = WriteRaw (px_serverW s) raw in (s\<lparr>px_serverW := w\<rparr>, if ok then None else Some WriteFailed)
     | ServerToClient \<Rightarrow>
         let (ok, w) = WriteRaw (px_clientW s) raw in (s\<lparr>px_clientW := w\<rparr>, if ok then None else Some WriteFailed))"

definition replyTo :: "direction \<Rightarrow> direction" where
  "replyTo dir = (if dir = ClientToServer then ServerToClient else ClientToServer)"

definition reportError :: "direction \<Rightarrow> parse_error \<Rightarrow> 'g proxy \<Rightarrow> 'g proxy" where
  "reportError dir e s = s\<lparr>px_notes := px_notes s @ [(dir, e)]\<rparr>"

definition track_request :: "direction \<Rightarrow> message \<Rightarrow> 'g proxy \<Rightarrow> 'g proxy" where
  "track_request dir msg s =
     (if dir \<noteq> ClientToServer \<or> \<not> IsRequest msg then s
      else s\<lparr>px_pending := List.insert (IDKey msg) (px_pending s)\<rparr>)"

definition settle :: "bytes \<Rightarrow> 'g proxy \<Rightarrow> 'g proxy" where
  "settle ident s =
     (let ok = (ident \<in> set (px_pending s)); s = s\<lparr>px_pending := removeAll ident (px_pending s)\<rparr>
      in if ok then s\<lparr>px_answered := True\<rparr> else s)"

definition unparseable_text :: bytes where
  "unparseable_text = ''blocked by chokepoint: message is not valid JSON-RPC''"

definition handle_unparseable :: "'g proxy_options \<Rightarrow> direction \<Rightarrow> bytes \<Rightarrow> parse_error \<Rightarrow> 'g proxy \<Rightarrow> 'g proxy \<times> session_error option" where
  "handle_unparseable opts dir raw e s =
     (let s = (case po_OnUnparseable opts of
            Some f \<Rightarrow> if dir = ClientToServer then s\<lparr>px_gateway := f (px_gateway s) (po_RejectUnparseable opts) e\<rparr> else s
          | None \<Rightarrow> s)
      in if dir = ClientToServer \<and> po_RejectUnparseable opts then
           let s = reportError dir e s in
           case ErrorResponse [] CodeParseError unparseable_text None of
             None \<Rightarrow> (s, Some ReplyFailed)
           | Some reply \<Rightarrow> write_dst ServerToClient reply s
         else write_dst dir raw (reportError dir e s))"

definition route :: "direction \<Rightarrow> message \<Rightarrow> bytes \<Rightarrow> interception \<Rightarrow> 'g proxy \<Rightarrow> 'g proxy \<times> session_error option" where
  "route dir msg raw verdict s =
     (case in_Decision verdict of
       Forward \<Rightarrow> write_dst dir raw (track_request dir msg s)
     | Replace \<Rightarrow>
         (case in_Message verdict of
           None \<Rightarrow> (s, Some (ReplaceWithoutMessage dir))
         | Some m \<Rightarrow> write_dst dir m (track_request dir msg s))
     | Reject \<Rightarrow>
         (case in_Message verdict of
           None \<Rightarrow> (s, Some (RejectWithoutReply dir))
         | Some m \<Rightarrow> write_dst (replyTo dir) m s)
     | Drop \<Rightarrow> if IsRequest msg then (s, Some (DroppedRequest dir (IDKey msg))) else (s, None))"

definition handle :: "'g proxy_options \<Rightarrow> direction \<Rightarrow> bytes \<Rightarrow> 'g proxy \<Rightarrow> ('g proxy \<times> session_error option) option" where
  "handle opts dir raw s =
     (case Parse raw of
       Inl e \<Rightarrow> Some (handle_unparseable opts dir raw e s)
     | Inr msg \<Rightarrow>
         let s = (if dir = ServerToClient \<and> IsResponse msg then settle (IDKey msg) s else s) in
         case po_Interceptor opts of
           None \<Rightarrow> Some (write_dst dir raw (track_request dir msg s))
         | Some f \<Rightarrow>
             (case f (px_gateway s) dir msg of
               None \<Rightarrow> None
             | Some (g, Inl e) \<Rightarrow> Some (s\<lparr>px_gateway := g\<rparr>, Some (InterceptorFailed dir e))
             | Some (g, Inr verdict) \<Rightarrow> Some (route dir msg raw verdict (s\<lparr>px_gateway := g\<rparr>))))"

definition drainGrace :: "'g proxy_options \<Rightarrow> int" where
  "drainGrace opts = (if po_DrainGrace opts > 0 then po_DrainGrace opts else DefaultDrainGrace)"

subsection \<open>A session of two pumps\<close>

text \<open>The client side pumps until its source ends, then waits for the pending requests to be
  answered or for the grace period, then closes the server's input.\<close>

datatype client_phase = Pumping | Draining | InputClosed

record 'g system =
  sy_client :: reader
  sy_server :: reader
  sy_proxy :: "'g proxy"
  sy_phase :: client_phase
  sy_done :: bool
  sy_errors :: "session_error list"

datatype label = ClientLine bytes | ServerLine bytes | ClientEnd | ServerEnd | Drained | GraceOver

definition NewSystem :: "'g proxy_options \<Rightarrow> bytes \<Rightarrow> bytes \<Rightarrow> writer \<Rightarrow> writer \<Rightarrow> 'g \<Rightarrow> 'g system" where
  "NewSystem opts clientIn serverOut clientOut serverIn g =
     \<lparr>sy_client = NewReader clientIn None (po_MaxMessageBytes opts),
      sy_server = NewReader serverOut None (po_MaxMessageBytes opts),
      sy_proxy = NewProxySession clientOut serverIn g, sy_phase = Pumping, sy_done = False, sy_errors = []\<rparr>"

text \<open>What a pump reports for a read that failed: the end of the input is no error, and neither is
  a failure once the session is shutting down.\<close>

definition read_failure :: "direction \<Rightarrow> bool \<Rightarrow> read_error \<Rightarrow> session_error option" where
  "read_failure dir shutdown err = (if err = EOF \<or> shutdown then None else Some (ReadError dir err))"

text \<open>One message of a pump: read, handled, and what an error does. The end of the server's output
  ends the session (\<open>sy_done\<close>) and cancels it; the client pump may still be at work then, so its
  steps do not ask whether the session is done. \<open>grace_over\<close> is the drain wait cut short, by its
  timer or by the cancellation.\<close>

definition after_handle :: "session_error option \<Rightarrow> 'g system \<Rightarrow> 'g system" where
  "after_handle e sy = (case e of None \<Rightarrow> sy | Some e \<Rightarrow> sy\<lparr>sy_errors := sy_errors sy @ [e]\<rparr>)"

inductive session_step :: "'g proxy_options \<Rightarrow> 'g system \<Rightarrow> label \<Rightarrow> 'g system \<Rightarrow> bool" for opts where
  client_line:
    "\<lbrakk>sy_phase sy = Pumping; ReadRaw (sy_client sy) = (Inr raw, r);
      handle opts ClientToServer raw (sy_proxy sy) = Some (px, e)\<rbrakk> \<Longrightarrow>
     session_step opts sy (ClientLine raw)
       (after_handle e (sy\<lparr>sy_client := r, sy_proxy := px, sy_phase := (if e = None then Pumping else InputClosed)\<rparr>))"
| client_end:
    "\<lbrakk>sy_phase sy = Pumping; ReadRaw (sy_client sy) = (Inl err, r); e = read_failure ClientToServer (sy_done sy) err\<rbrakk> \<Longrightarrow>
     session_step opts sy ClientEnd
       (after_handle e (sy\<lparr>sy_client := r, sy_phase := (if e = None then Draining else InputClosed)\<rparr>))"
| drained:
    "\<lbrakk>sy_phase sy = Draining; px_pending (sy_proxy sy) = []\<rbrakk> \<Longrightarrow>
     session_step opts sy Drained (sy\<lparr>sy_phase := InputClosed\<rparr>)"
| grace_over:
    "sy_phase sy = Draining \<Longrightarrow> session_step opts sy GraceOver (sy\<lparr>sy_phase := InputClosed\<rparr>)"
| server_line:
    "\<lbrakk>\<not> sy_done sy; ReadRaw (sy_server sy) = (Inr raw, r); handle opts ServerToClient raw (sy_proxy sy) = Some (px, e)\<rbrakk> \<Longrightarrow>
     session_step opts sy (ServerLine raw)
       (after_handle e (sy\<lparr>sy_server := r, sy_proxy := px, sy_done := (e \<noteq> None)\<rparr>))"
| server_end:
    "\<lbrakk>\<not> sy_done sy; ReadRaw (sy_server sy) = (Inl err, r)\<rbrakk> \<Longrightarrow>
     session_step opts sy ServerEnd
       (after_handle (read_failure ServerToClient False err) (sy\<lparr>sy_server := r, sy_done := True\<rparr>))"


inductive session_run :: "'g proxy_options \<Rightarrow> 'g system \<Rightarrow> label list \<Rightarrow> 'g system \<Rightarrow> bool" for opts sy where
  start: "session_run opts sy [] sy"
| step: "session_run opts sy ls sy1 \<Longrightarrow> session_step opts sy1 l sy2 \<Longrightarrow> session_run opts sy (ls @ [l]) sy2"

inductive_simps session_run_Nil: "session_run opts sy [] sy'"
section \<open>One message\<close>

lemma track_request_simps [simp]:
  "px_clientW (track_request dir msg s) = px_clientW s" "px_serverW (track_request dir msg s) = px_serverW s"
  "px_gateway (track_request dir msg s) = px_gateway s" "px_notes (track_request dir msg s) = px_notes s"
  by (simp_all add: track_request_def)

lemma settle_simps [simp]:
  "px_clientW (settle k s) = px_clientW s" "px_serverW (settle k s) = px_serverW s"
  "px_gateway (settle k s) = px_gateway s" "set (px_pending (settle k s)) = set (px_pending s) - {k}"
  by (auto simp: settle_def Let_def)

lemma reportError_simps [simp]:
  "px_clientW (reportError dir e s) = px_clientW s" "px_serverW (reportError dir e s) = px_serverW s"
  "px_gateway (reportError dir e s) = px_gateway s" "px_pending (reportError dir e s) = px_pending s"
  by (simp_all add: reportError_def)

definition tracked :: "direction \<Rightarrow> message \<Rightarrow> bytes set" where
  "tracked dir msg = (if dir = ClientToServer \<and> IsRequest msg then {IDKey msg} else {})"

lemma track_request_pending [simp]: "set (px_pending (track_request dir msg s)) = set (px_pending s) \<union> tracked dir msg"
  by (auto simp: track_request_def tracked_def)

definition put :: "bytes \<Rightarrow> writer \<Rightarrow> writer" where
  "put m w = snd (WriteRaw w m)"

lemma put_simps [simp]: "wr_broken (put m w) = wr_broken w"
  "\<not> wr_broken w \<Longrightarrow> wr_out (put m w) = wr_out w @ m @ [newline]"
  by (simp_all add: put_def WriteRaw_def)

lemma write_dst_eq:
  "write_dst dir m s =
    (case dir of ClientToServer \<Rightarrow> s\<lparr>px_serverW := put m (px_serverW s)\<rparr> | ServerToClient \<Rightarrow> s\<lparr>px_clientW := put m (px_clientW s)\<rparr>,
     if wr_broken (case dir of ClientToServer \<Rightarrow> px_serverW s | ServerToClient \<Rightarrow> px_clientW s) then Some WriteFailed else None)"
  by (simp add: write_dst_def WriteRaw_def put_def split: direction.splits)

lemma route_eq:
  "route dir msg raw v s =
     (case (in_Decision v, in_Message v) of
        (Forward, _) \<Rightarrow> write_dst dir raw (track_request dir msg s)
      | (Replace, Some m) \<Rightarrow> write_dst dir m (track_request dir msg s)
      | (Reject, Some m) \<Rightarrow> write_dst (replyTo dir) m s
      | (Replace, None) \<Rightarrow> (s, Some (ReplaceWithoutMessage dir))
      | (Reject, None) \<Rightarrow> (s, Some (RejectWithoutReply dir))
      | (Drop, _) \<Rightarrow> (s, if IsRequest msg then Some (DroppedRequest dir (IDKey msg)) else None))"
  by (simp add: route_def split: verdict_kind.splits option.splits)

text \<open>The parse error an unparseable message is answered with.\<close>

definition parse_error_reply :: bytes where
  "parse_error_reply = the (ErrorResponse [] CodeParseError unparseable_text None)"

lemma compact_null: "compact ''null'' = Some ''null''"
  by code_simp

lemma parse_error_reply: "ErrorResponse [] CodeParseError unparseable_text None = Some parse_error_reply"
  by (simp add: parse_error_reply_def ErrorResponse_def compact_null)

text \<open>What the interceptor, if there is one, says of a message: the new state and the verdict; \<open>None\<close>
  when it panics.\<close>

definition consult :: "'g proxy_options \<Rightarrow> 'g \<Rightarrow> direction \<Rightarrow> message \<Rightarrow> ('g \<times> (bytes + interception)) option" where
  "consult opts g dir msg =
     (case po_Interceptor opts of None \<Rightarrow> Some (g, Inr \<lparr>in_Decision = Forward, in_Message = None\<rparr>) | Some f \<Rightarrow> f g dir msg)"

definition settled :: "direction \<Rightarrow> message \<Rightarrow> 'g proxy \<Rightarrow> 'g proxy" where
  "settled dir msg s = (if dir = ServerToClient \<and> IsResponse msg then settle (IDKey msg) s else s)"

lemma settled_simps [simp]:
  "px_clientW (settled dir msg s) = px_clientW s" "px_serverW (settled dir msg s) = px_serverW s"
  "px_gateway (settled dir msg s) = px_gateway s"
  "set (px_pending (settled dir msg s)) = set (px_pending s) - (if dir = ServerToClient \<and> IsResponse msg then {IDKey msg} else {})"
  by (simp_all add: settled_def)

lemma settle_same: "(settle k s)\<lparr>px_gateway := px_gateway s\<rparr> = settle k s"
  by (simp add: settle_def Let_def)

lemma handle_eq:
  "handle opts dir raw s =
     (case Parse raw of
       Inl e \<Rightarrow> Some (handle_unparseable opts dir raw e s)
     | Inr msg \<Rightarrow>
         map_option (\<lambda>(g, r). case r of
             Inl e \<Rightarrow> ((settled dir msg s)\<lparr>px_gateway := g\<rparr>, Some (InterceptorFailed dir e))
           | Inr v \<Rightarrow> route dir msg raw v ((settled dir msg s)\<lparr>px_gateway := g\<rparr>))
         (consult opts (px_gateway s) dir msg))"
  by (cases "Parse raw"; cases "po_Interceptor opts")
    (auto simp: handle_def consult_def Let_def route_def settled_def settle_same split: option.splits sum.splits)

lemma unparseable_effect:
  assumes "handle_unparseable opts dir raw e s = (s', err)"
  shows "px_pending s' = px_pending s"
    and "px_serverW s' = (if dir = ClientToServer \<and> \<not> po_RejectUnparseable opts then put raw (px_serverW s) else px_serverW s)"
    and "err = None \<or> err = Some WriteFailed"
    and "px_clientW s' = (case dir of ServerToClient \<Rightarrow> put raw (px_clientW s)
      | ClientToServer \<Rightarrow> if po_RejectUnparseable opts then put parse_error_reply (px_clientW s) else px_clientW s)"
  using assms by (cases dir; cases "po_OnUnparseable opts"; cases "po_RejectUnparseable opts";
      force simp: handle_unparseable_def parse_error_reply write_dst_eq)+

definition sends :: "interception \<Rightarrow> bytes \<Rightarrow> bytes option" where
  "sends v raw = (case in_Decision v of Forward \<Rightarrow> Some raw | Replace \<Rightarrow> in_Message v | _ \<Rightarrow> None)"

lemma route_effect:
  assumes "route dir msg raw v s = (s', err)"
  shows "set (px_pending s') = set (px_pending s) \<union> (if sends v raw = None then {} else tracked dir msg)"
    and "dir = ClientToServer \<Longrightarrow> px_serverW s' = (case sends v raw of None \<Rightarrow> px_serverW s | Some m \<Rightarrow> put m (px_serverW s))"
    and "px_gateway s' = px_gateway s"
  using assms by (cases "in_Decision v"; cases "in_Message v"; cases dir; auto simp: route_eq write_dst_eq sends_def replyTo_def)+

text \<open>What one message of the client puts on the server's input, and the pending requests after it.\<close>

definition onward :: "'g proxy_options \<Rightarrow> 'g \<Rightarrow> bytes \<Rightarrow> bytes option" where
  "onward opts g raw =
     (case Parse raw of
       Inl e \<Rightarrow> if po_RejectUnparseable opts then None else Some raw
     | Inr msg \<Rightarrow>
         (case consult opts g ClientToServer msg of
           Some (_, Inr v) \<Rightarrow> sends v raw
         | _ \<Rightarrow> None))"

lemma handle_parsed:
  assumes "handle opts dir raw s = Some (s', e)" "Parse raw = Inr msg"
  obtains (failed) g err where "consult opts (px_gateway s) dir msg = Some (g, Inl err)"
      "s' = (settled dir msg s)\<lparr>px_gateway := g\<rparr>" "e = Some (InterceptorFailed dir err)"
    | (verdict) g v where "consult opts (px_gateway s) dir msg = Some (g, Inr v)"
      "route dir msg raw v ((settled dir msg s)\<lparr>px_gateway := g\<rparr>) = (s', e)"
proof -
  obtain g r where c: "consult opts (px_gateway s) dir msg = Some (g, r)"
    using assms by (auto simp: handle_eq)
  show ?thesis
  proof (cases r)
    case (Inl err)
    with c assms show ?thesis by (intro failed) (auto simp: handle_eq)
  next
    case (Inr v)
    with c assms show ?thesis by (intro verdict) (auto simp: handle_eq)
  qed
qed

lemma handle_client:
  assumes "handle opts ClientToServer raw s = Some (s', e)"
  shows "px_serverW s' = (case onward opts (px_gateway s) raw of None \<Rightarrow> px_serverW s | Some m \<Rightarrow> put m (px_serverW s))"
    and "set (px_pending s') = set (px_pending s) \<union>
      (case Parse raw of Inr msg \<Rightarrow> if onward opts (px_gateway s) raw = None then {} else tracked ClientToServer msg | Inl _ \<Rightarrow> {})"
proof -
  show "px_serverW s' = (case onward opts (px_gateway s) raw of None \<Rightarrow> px_serverW s | Some m \<Rightarrow> put m (px_serverW s))"
  proof (cases "Parse raw")
    case (Inl err)
    with assms unparseable_effect(2) show ?thesis by (fastforce simp: handle_eq onward_def)
  next
    case (Inr msg)
    from assms this show ?thesis
      by (cases rule: handle_parsed) (auto simp: onward_def Inr dest!: route_effect(2) split: option.splits)
  qed
  show "set (px_pending s') = set (px_pending s) \<union>
      (case Parse raw of Inr msg \<Rightarrow> if onward opts (px_gateway s) raw = None then {} else tracked ClientToServer msg | Inl _ \<Rightarrow> {})"
  proof (cases "Parse raw")
    case (Inl err)
    with assms unparseable_effect(1) show ?thesis by (fastforce simp: handle_eq)
  next
    case (Inr msg)
    from assms this show ?thesis
    proof (cases rule: handle_parsed)
      case (verdict g v)
      from route_effect(1) [OF verdict(2)] verdict(1) Inr show ?thesis by (simp add: onward_def)
    qed (simp add: Inr onward_def)
  qed
qed

lemma handle_server:
  assumes "handle opts ServerToClient raw s = Some (s', e)"
  shows "set (px_pending s') = set (px_pending s) -
    (case Parse raw of Inr msg \<Rightarrow> if IsResponse msg then {IDKey msg} else {} | Inl _ \<Rightarrow> {})"
proof (cases "Parse raw")
  case (Inl err)
  with assms unparseable_effect(1) show ?thesis by (fastforce simp: handle_eq)
next
  case (Inr msg)
  from assms this show ?thesis
  proof (cases rule: handle_parsed)
    case (verdict g v)
    from route_effect(1) [OF verdict(2)] Inr show ?thesis by (simp add: tracked_def)
  qed (simp add: Inr)
qed
section \<open>Runs\<close>

definition client_lines :: "label list \<Rightarrow> bytes list" where
  "client_lines ls = concat (map (\<lambda>l. case l of ClientLine raw \<Rightarrow> [raw] | _ \<Rightarrow> []) ls)"

definition server_lines :: "label list \<Rightarrow> bytes list" where
  "server_lines ls = concat (map (\<lambda>l. case l of ServerLine raw \<Rightarrow> [raw] | _ \<Rightarrow> []) ls)"

definition lines :: "bytes list \<Rightarrow> bytes" where
  "lines ms = concat (map (\<lambda>m. m @ [newline]) ms)"

lemma client_lines_simps [simp]: "client_lines [] = []" "client_lines (ls @ [ClientLine raw]) = client_lines ls @ [raw]"
  "client_lines (ls @ [ServerLine raw]) = client_lines ls" "client_lines (ls @ [ClientEnd]) = client_lines ls"
  "client_lines (ls @ [ServerEnd]) = client_lines ls" "client_lines (ls @ [Drained]) = client_lines ls"
  "client_lines (ls @ [GraceOver]) = client_lines ls"
  by (simp_all add: client_lines_def)

lemma server_lines_simps [simp]: "server_lines [] = []" "server_lines (ls @ [ServerLine raw]) = server_lines ls @ [raw]"
  "server_lines (ls @ [ClientLine raw]) = server_lines ls" "server_lines (ls @ [ClientEnd]) = server_lines ls"
  "server_lines (ls @ [ServerEnd]) = server_lines ls" "server_lines (ls @ [Drained]) = server_lines ls"
  "server_lines (ls @ [GraceOver]) = server_lines ls"
  by (simp_all add: server_lines_def)

lemma lines_simps [simp]: "lines [] = []" "lines (ms @ [m]) = lines ms @ m @ [newline]"
  by (simp_all add: lines_def)

lemma after_handle_simps [simp]:
  "sy_client (after_handle e sy) = sy_client sy" "sy_server (after_handle e sy) = sy_server sy"
  "sy_proxy (after_handle e sy) = sy_proxy sy" "sy_phase (after_handle e sy) = sy_phase sy"
  "sy_done (after_handle e sy) = sy_done sy"
  "sy_errors (after_handle e sy) = sy_errors sy @ (case e of None \<Rightarrow> [] | Some e \<Rightarrow> [e])"
  by (simp_all add: after_handle_def split: option.splits)

lemma run_append: "session_run opts sy1 ls2 sy2 \<Longrightarrow> session_run opts sy ls1 sy1 \<Longrightarrow> session_run opts sy (ls1 @ ls2) sy2"
  by (induction rule: session_run.induct) (auto simp flip: append_assoc intro: session_run.step)

subsection \<open>The transparent relay\<close>

lemma transparent_handle:
  assumes "handle opts dir raw s = Some (s', e)" "po_Interceptor opts = None" "\<not> po_RejectUnparseable opts"
  shows "px_serverW s' = (if dir = ClientToServer then put raw (px_serverW s) else px_serverW s) \<and>
    px_clientW s' = (if dir = ServerToClient then put raw (px_clientW s) else px_clientW s) \<and>
    (\<not> wr_broken (px_serverW s) \<and> \<not> wr_broken (px_clientW s) \<longrightarrow> e = None)"
proof (cases "Parse raw")
  case (Inl err)
  with assms have "handle_unparseable opts dir raw err s = (s', e)" by (simp add: handle_eq)
  with assms(3) show ?thesis
    by (cases dir; cases "po_OnUnparseable opts"; force simp: handle_unparseable_def write_dst_eq)
next
  case (Inr msg)
  have "(settled dir msg s)\<lparr>px_gateway := px_gateway s\<rparr> = settled dir msg s" by (simp add: settled_def settle_same)
  with assms Inr have "write_dst dir raw (track_request dir msg (settled dir msg s)) = (s', e)"
    by (simp add: handle_eq consult_def route_eq)
  then show ?thesis by (cases dir) (auto simp: write_dst_eq)
qed

text \<open>A source that still holds the lines \<open>ms\<close>.\<close>

definition holds :: "reader \<Rightarrow> bytes list \<Rightarrow> bool" where
  "holds r ms \<longleftrightarrow> rd_rest r = lines ms \<and> rd_end r = None \<and> list_all (framed (rd_maxSize r)) ms"

lemma holds_Cons: "lines (m # ms) = m @ newline # lines ms"
  by (simp add: lines_def)

lemma read_holds:
  assumes "holds r ms" "ReadRaw r = (res, r')"
  shows "case ms of [] \<Rightarrow> res = Inl EOF | m # ms' \<Rightarrow> res = Inr m \<and> holds r' ms'"
  using assms by (cases ms)
    (auto simp: holds_def ReadRaw_def holds_Cons read_framed read_lines.simps [of _ _ "[]"] scan_line_def)

text \<open>Of the lines a source delivers, those sent on; the rest is still to be read unless the pump has finished.\<close>

definition relayed :: "bytes list \<Rightarrow> bool \<Rightarrow> writer \<Rightarrow> reader \<Rightarrow> bytes list \<Rightarrow> writer \<Rightarrow> bool \<Rightarrow> bool" where
  "relayed all fits w0 r sent w finished \<longleftrightarrow>
     \<not> wr_broken w \<and> wr_out w = wr_out w0 @ lines sent \<and> rd_end r = None \<and>
     (if finished then sent = all
      else all = sent @ delivered (rd_maxSize r) (rd_rest r) \<and> (fits \<longleftrightarrow> lines_fit (rd_maxSize r) (rd_rest r)))"

definition overlong :: "session_error \<Rightarrow> bool" where
  "overlong e \<longleftrightarrow> (case e of ReadError _ (ErrMessageTooLarge _) \<Rightarrow> True | _ \<Rightarrow> False)"

lemma relayed_line:
  "relayed all fits w0 r sent w False \<Longrightarrow> ReadRaw r = (Inr raw, r') \<Longrightarrow> relayed all fits w0 r' (sent @ [raw]) (put raw w) False"
  using ReadRaw_delivers [of r "Inr raw" r'] by (auto simp: relayed_def split: list.splits)

lemma relayed_end:
  "relayed all fits w0 r sent w False \<Longrightarrow> ReadRaw r = (Inl e, r') \<Longrightarrow>
    (e \<noteq> EOF \<longrightarrow> \<not> fits \<and> overlong (ReadError dir e)) \<and> relayed all fits w0 r' sent w True"
  using ReadRaw_delivers [of r "Inl e" r'] by (auto simp: relayed_def overlong_def split: list.splits)

lemma transparent_run:
  assumes "session_run opts sy0 ls sy" "po_Interceptor opts = None" "\<not> po_RejectUnparseable opts"
    "relayed cs cfit sw (sy_client sy0) [] (px_serverW (sy_proxy sy0)) (sy_phase sy0 \<noteq> Pumping)"
    "relayed ss sfit cw (sy_server sy0) [] (px_clientW (sy_proxy sy0)) (sy_done sy0)" "sy_errors sy0 = []"
  shows "relayed cs cfit sw (sy_client sy) (client_lines ls) (px_serverW (sy_proxy sy)) (sy_phase sy \<noteq> Pumping) \<and>
    relayed ss sfit cw (sy_server sy) (server_lines ls) (px_clientW (sy_proxy sy)) (sy_done sy) \<and>
    (cfit \<and> sfit \<longrightarrow> sy_errors sy = []) \<and> list_all overlong (sy_errors sy)"
  using assms
proof (induction rule: session_run.induct)
  case (step ls sy1 l sy2)
  note hyp = step.IH [OF step.prems] and th = transparent_handle [OF _ step.prems(1,2)]
  have unbroken: "\<not> wr_broken (px_serverW (sy_proxy sy1))" "\<not> wr_broken (px_clientW (sy_proxy sy1))"
    using hyp by (simp_all add: relayed_def)
  from step.hyps(2) show ?case
    by (cases rule: session_step.cases)
      (use hyp unbroken in \<open>auto dest!: th dest: relayed_line relayed_end simp: read_failure_def\<close>)
qed simp

text \<open>
  C22: Without an interceptor and with nothing refused, the proxy is a wire: whatever bytes the two sides
  send, and in every interleaving of the two pumps, each side has been written, in order, the lines the
  other side's stream delivers: every line that is not blank, without its line ending (a newline, or a
  carriage return and a newline) and byte for byte otherwise, each followed by one newline, and all of them
  once the sender's stream ended. A stream delivers up to its first line that is too long, and that is the
  only error a session reports.\<close>

theorem transparent_relay:
  assumes "session_run opts (NewSystem opts cin sout \<lparr>wr_out = [], wr_broken = False\<rparr> \<lparr>wr_out = [], wr_broken = False\<rparr> g) ls sy"
    "po_Interceptor opts = None" "\<not> po_RejectUnparseable opts"
  defines "n \<equiv> rd_maxSize (NewReader [] None (po_MaxMessageBytes opts))"
  shows "prefix (client_lines ls) (delivered n cin) \<and> prefix (server_lines ls) (delivered n sout) \<and>
    (sy_phase sy \<noteq> Pumping \<longrightarrow> client_lines ls = delivered n cin) \<and>
    (sy_done sy \<longrightarrow> server_lines ls = delivered n sout) \<and>
    wr_out (px_serverW (sy_proxy sy)) = lines (client_lines ls) \<and>
    wr_out (px_clientW (sy_proxy sy)) = lines (server_lines ls) \<and>
    (lines_fit n cin \<and> lines_fit n sout \<longrightarrow> sy_errors sy = []) \<and>
    list_all overlong (sy_errors sy)"
proof -
  let ?w = "\<lparr>wr_out = [], wr_broken = False\<rparr>"
  from transparent_run [OF assms(1-3), where sw = ?w and cw = ?w and cs = "delivered n cin" and ss = "delivered n sout"
      and cfit = "lines_fit n cin" and sfit = "lines_fit n sout"]
  have "relayed (delivered n cin) (lines_fit n cin) ?w (sy_client sy) (client_lines ls) (px_serverW (sy_proxy sy)) (sy_phase sy \<noteq> Pumping) \<and>
    relayed (delivered n sout) (lines_fit n sout) ?w (sy_server sy) (server_lines ls) (px_clientW (sy_proxy sy)) (sy_done sy) \<and>
    (lines_fit n cin \<and> lines_fit n sout \<longrightarrow> sy_errors sy = []) \<and>
    list_all overlong (sy_errors sy)"
    by (simp add: NewSystem_def NewProxySession_def relayed_def NewReader_def n_def)
  then show ?thesis by (auto simp: relayed_def split: if_splits)
qed

subsection \<open>Sessions end\<close>

text \<open>What is left to do: bytes to read on either side, and the phases still to come.\<close>

definition remaining :: "'g system \<Rightarrow> nat" where
  "remaining sy = length (rd_rest (sy_client sy)) + length (rd_rest (sy_server sy)) +
     (case sy_phase sy of Pumping \<Rightarrow> 2 | Draining \<Rightarrow> 1 | InputClosed \<Rightarrow> 0) + (if sy_done sy then 0 else 1)"

lemma step_remaining: "session_step opts sy l sy' \<Longrightarrow> remaining sy' < remaining sy"
  by (induction rule: session_step.induct)
    (auto simp: remaining_def dest!: ReadRaw_le split: sum.splits if_splits)

lemma run_remaining: "session_run opts sy0 ls sy \<Longrightarrow> length ls + remaining sy \<le> remaining sy0"
  by (induction rule: session_run.induct) (auto dest!: step_remaining)

lemma session_progress:
  assumes "\<forall>dir raw. handle opts dir raw (sy_proxy sy) \<noteq> None" "sy_phase sy \<noteq> InputClosed \<or> \<not> sy_done sy"
  shows "\<exists>l sy'. session_step opts sy l sy'"
proof -
  obtain res r where c: "ReadRaw (sy_client sy) = (res, r)" by fastforce
  obtain res' r' where s: "ReadRaw (sy_server sy) = (res', r')" by fastforce
  have h: "\<exists>px e. handle opts dir raw (sy_proxy sy) = Some (px, e)" for dir raw using assms(1) by auto
  consider "sy_phase sy = Pumping" | "sy_phase sy = Draining" | "\<not> sy_done sy" using assms(2) by (cases "sy_phase sy") auto
  then show ?thesis
  proof cases
    case 1
    then show ?thesis using c h
      by (cases res) (blast intro: session_step.client_end session_step.client_line)+
  next
    case 2
    then show ?thesis by (blast intro: session_step.grace_over)
  next
    case 3
    then show ?thesis using s h
      by (cases res') (blast intro: session_step.server_end session_step.server_line)+
  qed
qed

subsection \<open>Waiting for replies\<close>

definition answers :: "bytes \<Rightarrow> bytes \<Rightarrow> bool" where
  "answers raw ident \<longleftrightarrow> (case Parse raw of Inr msg \<Rightarrow> IsResponse msg \<and> IDKey msg = ident | Inl _ \<Rightarrow> False)"

lemma handle_pending:
  assumes "handle opts dir raw s = Some (s', e)" "ident \<in> set (px_pending s)" "ident \<notin> set (px_pending s')"
  shows "dir = ServerToClient \<and> answers raw ident"
proof (cases dir)
  case ClientToServer
  with assms handle_client(2) show ?thesis by blast
next
  case ServerToClient
  with assms handle_server [of opts raw s s' e] show ?thesis
    by (cases "Parse raw") (simp_all add: answers_def split: if_splits)
qed

lemma answered_run:
  assumes "session_run opts sy0 ls sy" "ident \<in> set (px_pending (sy_proxy sy0))"
    "ident \<notin> set (px_pending (sy_proxy sy))"
  shows "\<exists>raw \<in> set (server_lines ls). answers raw ident"
  using assms
proof (induction rule: session_run.induct)
  case (step ls sy1 l sy2)
  show ?case
  proof (cases "ident \<in> set (px_pending (sy_proxy sy1))")
    case True
    from step.hyps(2) True step.prems(2) show ?thesis
      by (cases rule: session_step.cases) (auto dest: handle_pending)
  next
    case False
    with step obtain raw where "raw \<in> set (server_lines ls)" "answers raw ident" by blast
    then show ?thesis by (cases l) auto
  qed
qed simp

lemma closed_run:
  assumes "session_run opts sy0 ls sy" "sy_phase sy0 = Pumping" "GraceOver \<notin> set ls" "sy_errors sy = []"
  shows "sy_phase sy = InputClosed \<longrightarrow>
    (\<forall>ident \<in> set (px_pending (sy_proxy sy0)). \<exists>raw \<in> set (server_lines ls). answers raw ident)"
  using assms
proof (induction rule: session_run.induct)
  case (step ls sy1 l sy2)
  from step.hyps(2) show ?case
  proof (cases rule: session_step.cases)
    case drained
    then show ?thesis using answered_run [OF step.hyps(1)] by auto
  qed (use step in auto)
qed simp

text \<open>
  C21: The server's input is closed only when every request forwarded to it has been
  answered: if a request is pending while the client still sends, and the session later closes
  the server's input without the grace period having run out and without an error, then the
  server sent a response with that id in between.\<close>

theorem closes_after_last_reply:
  assumes "session_run opts sy0 ls sy" "sy_phase sy0 = Pumping" "ident \<in> set (px_pending (sy_proxy sy0))"
    "sy_phase sy = InputClosed" "GraceOver \<notin> set ls" "sy_errors sy = []"
  shows "\<exists>raw \<in> set (server_lines ls). answers raw ident"
  using closed_run [OF assms(1,2,5,6)] assms(3,4) by blast
section \<open>The contract of an interceptor\<close>

text \<open>
  What the proxy needs of an interceptor to keep a session alive and safe, for the messages
  \<open>Parse\<close> yields: it always decides, never replaces a message, answers what it rejects, drops
  nothing that waits for an answer, lets server messages through, and forwards no message it
  is bound to refuse.
\<close>

locale guard =
  fixes intercept :: "'g interceptor" and inv :: "'g \<Rightarrow> bool" and refused :: "message \<Rightarrow> bool"
  assumes decides: "inv g \<Longrightarrow> Parse raw = Inr msg \<Longrightarrow> \<exists>g' v. intercept g dir msg = Some (g', Inr v) \<and> inv g'"
    and server: "inv g \<Longrightarrow> intercept g ServerToClient msg = Some (g', Inr v) \<Longrightarrow> in_Decision v = Forward"
    and client: "inv g \<Longrightarrow> Parse raw = Inr msg \<Longrightarrow> intercept g ClientToServer msg = Some (g', Inr v) \<Longrightarrow>
      (case in_Decision v of Forward \<Rightarrow> \<not> refused msg | Replace \<Rightarrow> False | Reject \<Rightarrow> in_Message v \<noteq> None | Drop \<Rightarrow> \<not> IsRequest msg)"
begin

definition guards :: "'g proxy_options \<Rightarrow> bool" where
  "guards opts \<longleftrightarrow> po_Interceptor opts = Some intercept \<and>
     (\<forall>f g b e. po_OnUnparseable opts = Some f \<longrightarrow> inv g \<longrightarrow> inv (f g b e))"

lemma handle_guarded:
  assumes "guards opts" "inv (px_gateway s)"
  shows "\<exists>s' e. handle opts dir raw s = Some (s', e) \<and> (e = None \<or> e = Some WriteFailed) \<and> inv (px_gateway s') \<and>
    wr_broken (px_serverW s') = wr_broken (px_serverW s) \<and> wr_broken (px_clientW s') = wr_broken (px_clientW s) \<and>
    (dir = ServerToClient \<longrightarrow> px_serverW s' = px_serverW s)"
proof (cases "Parse raw")
  case (Inl err)
  with assms show ?thesis
    by (cases dir; cases "po_OnUnparseable opts"; cases "po_RejectUnparseable opts")
      (auto simp: handle_eq handle_unparseable_def parse_error_reply write_dst_eq guards_def reportError_def)
next
  case (Inr msg)
  from decides [OF assms(2) this] obtain g v where i: "intercept (px_gateway s) dir msg = Some (g, Inr v)" "inv g" by blast
  then have h: "handle opts dir raw s = Some (route dir msg raw v ((settled dir msg s)\<lparr>px_gateway := g\<rparr>))"
    using Inr assms(1) by (simp add: handle_eq consult_def guards_def)
  show ?thesis
  proof (cases dir)
    case ClientToServer
    with client [OF assms(2) Inr] i h show ?thesis
      by (cases "in_Decision v"; cases "in_Message v") (force simp: route_eq write_dst_eq replyTo_def)+
  next
    case ServerToClient
    with server [OF assms(2)] i h show ?thesis by (simp add: route_eq write_dst_eq)
  qed
qed

lemma onward_guarded:
  assumes "guards opts" "inv g" "onward opts g raw = Some m"
  shows "m = raw \<and> (case Parse raw of Inl _ \<Rightarrow> \<not> po_RejectUnparseable opts | Inr msg \<Rightarrow> \<not> refused msg)"
proof (cases "Parse raw")
  case (Inl err)
  with assms show ?thesis by (simp add: onward_def split: if_splits)
next
  case (Inr msg)
  from decides [OF assms(2) Inr] obtain g' v where i: "intercept g ClientToServer msg = Some (g', Inr v)" by blast
  with assms Inr have "sends v raw = Some m" by (simp add: onward_def consult_def guards_def)
  with client [OF assms(2) Inr i] Inr show ?thesis by (cases "in_Decision v") (simp_all add: sends_def)
qed

text \<open>A line the server may be handed.\<close>

definition passable :: "'g proxy_options \<Rightarrow> bytes \<Rightarrow> bool" where
  "passable opts raw \<longleftrightarrow> (case Parse raw of Inl _ \<Rightarrow> \<not> po_RejectUnparseable opts | Inr msg \<Rightarrow> \<not> refused msg)"

lemma run_guarded:
  assumes "session_run opts sy0 ls sy" "guards opts" "inv (px_gateway (sy_proxy sy0))"
    "\<not> wr_broken (px_serverW (sy_proxy sy0))"
  shows "inv (px_gateway (sy_proxy sy)) \<and> \<not> wr_broken (px_serverW (sy_proxy sy)) \<and>
    (\<exists>ms. wr_out (px_serverW (sy_proxy sy)) = wr_out (px_serverW (sy_proxy sy0)) @ lines ms \<and>
       subseq ms (client_lines ls) \<and> list_all (passable opts) ms) \<and>
    set (sy_errors sy) \<subseteq> set (sy_errors sy0) \<union> {WriteFailed} \<union> range (\<lambda>(dir, e). ReadError dir e)"
  using assms
proof (induction rule: session_run.induct)
  case start
  then show ?case by (auto intro: exI [of _ "[]"])
next
  case (step ls sy1 l sy2)
  from step.IH [OF step.prems] obtain ms where hyp: "inv (px_gateway (sy_proxy sy1))" "\<not> wr_broken (px_serverW (sy_proxy sy1))"
    "wr_out (px_serverW (sy_proxy sy1)) = wr_out (px_serverW (sy_proxy sy0)) @ lines ms" "subseq ms (client_lines ls)"
    "list_all (passable opts) ms"
    "set (sy_errors sy1) \<subseteq> set (sy_errors sy0) \<union> {WriteFailed} \<union> range (\<lambda>(dir, e). ReadError dir e)" by blast
  note ok = handle_guarded [OF step.prems(1) hyp(1)]
  from step.hyps(2) show ?case
  proof (cases rule: session_step.cases)
    case (client_line raw r px e)
    from ok [of ClientToServer raw] client_line(5) have px: "e = None \<or> e = Some WriteFailed" "inv (px_gateway px)"
      "\<not> wr_broken (px_serverW px)" using hyp(2) by auto
    have "\<exists>ms'. wr_out (px_serverW px) = wr_out (px_serverW (sy_proxy sy0)) @ lines ms' \<and>
        subseq ms' (client_lines ls @ [raw]) \<and> list_all (passable opts) ms'"
    proof (cases "onward opts (px_gateway (sy_proxy sy1)) raw")
      case None
      with handle_client(1) [OF client_line(5)] hyp show ?thesis by (intro exI [of _ ms]) (auto intro: subseq_rev_drop_many)
    next
      case (Some m)
      with handle_client(1) [OF client_line(5)] hyp onward_guarded [OF step.prems(1) hyp(1) Some]
      show ?thesis by (intro exI [of _ "ms @ [raw]"]) (simp add: passable_def)
    qed
    with px hyp(6) client_line show ?thesis by auto
  next
    case (server_line raw r px e)
    with ok [of ServerToClient raw] hyp have "e = None \<or> e = Some WriteFailed" "inv (px_gateway px)"
      "px_serverW px = px_serverW (sy_proxy sy1)" by auto
    with hyp server_line show ?thesis by auto
  qed (use hyp in \<open>auto simp: read_failure_def\<close>)
qed

lemma handle_guarded_returns: "guards opts \<Longrightarrow> inv (px_gateway s) \<Longrightarrow> handle opts dir raw s \<noteq> None"
  using handle_guarded [of opts s dir raw] by auto

lemma session_ends:
  assumes "session_run opts sy0 ls sy" "guards opts" "inv (px_gateway (sy_proxy sy0))" "\<not> wr_broken (px_serverW (sy_proxy sy0))"
  shows "length ls \<le> remaining sy0 \<and> ((\<forall>l sy'. \<not> session_step opts sy l sy') \<longrightarrow> sy_phase sy = InputClosed \<and> sy_done sy)"
  using run_remaining [OF assms(1)] run_guarded [OF assms] handle_guarded_returns [OF assms(2)]
    session_progress [of opts sy] by fastforce

lemma request_not_lost:
  assumes "guards opts" "inv (px_gateway s)" "Parse raw = Inr msg" "IsRequest msg"
    "handle opts ClientToServer raw s = Some (s', e)"
  shows "px_serverW s' = put raw (px_serverW s) \<and> IDKey msg \<in> set (px_pending s') \<or>
    (\<exists>reply. px_clientW s' = put reply (px_clientW s)) \<and> px_serverW s' = px_serverW s"
proof -
  from decides [OF assms(2,3)] obtain g v where i: "intercept (px_gateway s) ClientToServer msg = Some (g, Inr v)" by blast
  then have h: "route ClientToServer msg raw v ((settled ClientToServer msg s)\<lparr>px_gateway := g\<rparr>) = (s', e)"
    using assms(1,3,5) by (simp add: handle_eq consult_def guards_def)
  from client [OF assms(2,3) i] h assms(4) show ?thesis
    by (cases "in_Decision v"; cases "in_Message v")
      (auto simp: route_eq write_dst_eq replyTo_def track_request_def)
qed

end
section \<open>An example session\<close>

definition example_opts :: "unit proxy_options" where
  "example_opts = \<lparr>po_MaxMessageBytes = 1000, po_Interceptor = None, po_DrainGrace = 0, po_RejectUnparseable = False, po_OnUnparseable = None\<rparr>"

abbreviation sink :: writer where
  "sink \<equiv> \<lparr>wr_out = [], wr_broken = False\<rparr>"

lemma example_opts_simps [simp]: "po_Interceptor example_opts = None" "\<not> po_RejectUnparseable example_opts"
  "po_MaxMessageBytes example_opts = 1000"
  by (simp_all add: example_opts_def)

lemma handle_transparent:
  assumes "\<not> wr_broken (px_serverW s)" "\<not> wr_broken (px_clientW s)"
  shows "\<exists>s'. handle example_opts dir raw s = Some (s', None)"
proof -
  have "\<exists>r. handle example_opts dir raw s = Some r"
    by (cases "Parse raw") (simp_all add: handle_eq consult_def)
  then obtain s' e where h: "handle example_opts dir raw s = Some (s', e)" by fastforce
  with transparent_handle [OF h] assms show ?thesis by simp
qed

definition reply_members :: "(bytes \<times> bytes \<times> json) list" where
  "reply_members = map (\<lambda>(k, v). (k, encode_json v, v)) [(''jsonrpc'', JStr ''2.0''), (''id'', JNum ''7''), (''result'', JObj [])]"

definition reply_raw :: bytes where
  "reply_raw = raw_object reply_members"

lemma reply_answers: "answers reply_raw ''7''"
proof -
  have "valid_utf8 ''result''" by code_simp
  then have "list_all (\<lambda>(k, raw, v). valid_utf8 k \<and> raw_ok (max_depth - 1) raw v) reply_members" "reply_members \<noteq> []"
    using encoded_raw_ok [OF encode_parses, of "max_depth - 1"]
    by (auto simp: reply_members_def keyword_utf8 call_utf8 max_depth_def simp del: encode_json.simps)
  note read = raw_object_read [OF this]
  have "decode_members no_envelope reply_members = Some \<lparr>env_JSONRPC = ''2.0'', env_ID = ''7'',
      env_Method = [], env_Params = [], env_Result = encode_json (JObj []), env_Error = []\<rparr>"
    by (simp add: reply_members_def decode_member_def field_matches_iff fold_name_fields string_field_def
        no_envelope_def del: fold_name.simps)
  with read have "Parse reply_raw = Inr \<lparr>m_Raw = reply_raw, m_ID = ''7'', m_Method = [], m_Params = [],
      m_Result = encode_json (JObj []), m_Error = []\<rparr>"
    by (simp add: Parse_def decode_envelope_def reply_raw_def Version_def)
  then show ?thesis by (simp add: answers_def IsResponse_def IDKey_def)
qed

lemma example_framed: "framed 1000 (call_raw example_params)" "framed 1000 reply_raw"
  by code_simp+

definition example_system :: "unit system" where
  "example_system = NewSystem example_opts (lines [call_raw example_params]) (lines [reply_raw]) sink sink ()"

lemma example_readers: "holds (sy_client example_system) [call_raw example_params]" "holds (sy_server example_system) [reply_raw]"
  "sy_phase example_system = Pumping" "\<not> sy_done example_system" "sy_errors example_system = []"
  "px_serverW (sy_proxy example_system) = sink" "px_clientW (sy_proxy example_system) = sink"
  using example_framed by (simp_all add: example_system_def NewSystem_def NewProxySession_def NewReader_def holds_def)

lemma run_two: "session_step opts sy0 l sy1 \<Longrightarrow> session_step opts sy1 l' sy2 \<Longrightarrow> session_run opts sy0 [l, l'] sy2"
  using session_run.step [OF session_run.step [OF session_run.start]] by fastforce

text \<open>The client's request is read and forwarded, its stream ends, and the server's ends too.\<close>

lemma example_forward:
  obtains sy1 where "session_step example_opts example_system (ClientLine (call_raw example_params)) sy1"
    "sy_phase sy1 = Pumping" "\<not> sy_done sy1" "sy_errors sy1 = []" "holds (sy_client sy1) []" "holds (sy_server sy1) [reply_raw]"
    "set (px_pending (sy_proxy sy1)) = {''7''}" "px_serverW (sy_proxy sy1) = put (call_raw example_params) sink"
    "px_clientW (sy_proxy sy1) = sink"
proof -
  let ?raw = "call_raw example_params"
  obtain res r where r: "ReadRaw (sy_client example_system) = (res, r)" by force
  with read_holds [OF example_readers(1)] have r': "res = Inr ?raw" "holds r []" by auto
  obtain px where px: "handle example_opts ClientToServer ?raw (sy_proxy example_system) = Some (px, None)"
    using handle_transparent [of "sy_proxy example_system"] by (auto simp: example_readers)
  have "onward example_opts g ?raw = Some ?raw" for g
    by (simp add: onward_def example_read(1) consult_def sends_def)
  with handle_client [OF px] transparent_handle [OF px]
  have "set (px_pending px) = {''7''}" "px_serverW px = put ?raw sink" "px_clientW px = sink"
    by (simp_all add: example_readers example_read(1) tracked_def IsRequest_def IDKey_def call_message_def)
      (simp add: example_system_def NewSystem_def NewProxySession_def)
  with session_step.client_line [OF example_readers(3) r [unfolded r'] px] that r' show thesis
    by (simp add: after_handle_def example_readers)
qed

lemma end_step:
  assumes "holds (sy_client sy) []" "sy_phase sy = Pumping"
  shows "\<exists>r. session_step opts sy ClientEnd (sy\<lparr>sy_client := r, sy_phase := Draining\<rparr>)"
proof -
  obtain res r where r: "ReadRaw (sy_client sy) = (res, r)" by force
  with read_holds [OF assms(1)] have "res = Inl EOF" by auto
  with session_step.client_end [OF assms(2) _ refl, of EOF r opts] r show ?thesis
    by (auto simp: after_handle_def read_failure_def)
qed

lemma transparent_relay_witness:
  "\<exists>sy. session_run example_opts example_system [ClientLine (call_raw example_params), ClientEnd] sy \<and>
    wr_out (px_serverW (sy_proxy sy)) = call_raw example_params @ [newline] \<and>
    delivered 1000 (lines [call_raw example_params]) = [call_raw example_params]"
proof -
  obtain sy1 where sy1: "session_step example_opts example_system (ClientLine (call_raw example_params)) sy1"
    "holds (sy_client sy1) []" "sy_phase sy1 = Pumping" by (rule example_forward)
  with end_step obtain r where "session_step example_opts sy1 ClientEnd (sy1\<lparr>sy_client := r, sy_phase := Draining\<rparr>)" by blast
  note run = run_two [OF sy1(1) this]
  from transparent_relay [OF run [unfolded example_system_def]]
  have "wr_out (px_serverW (sy_proxy sy1)) = lines [call_raw example_params] \<and>
    delivered 1000 (lines [call_raw example_params]) = [call_raw example_params]"
    by (simp add: NewReader_def client_lines_def)
  with run show ?thesis by (intro exI [of _ "sy1\<lparr>sy_client := r, sy_phase := Draining\<rparr>"]) (simp add: lines_def)
qed

lemma closes_after_last_reply_witness:
  "\<exists>sy0 sy. session_run example_opts sy0 [ServerLine reply_raw, ClientEnd, Drained] sy \<and>
    ''7'' \<in> set (px_pending (sy_proxy sy0)) \<and> sy_phase sy = InputClosed \<and> (\<exists>raw \<in> {reply_raw}. answers raw ''7'')"
proof -
  obtain sy1 where sy1: "session_step example_opts example_system (ClientLine (call_raw example_params)) sy1"
    "sy_phase sy1 = Pumping" "\<not> sy_done sy1" "sy_errors sy1 = []" "holds (sy_client sy1) []" "holds (sy_server sy1) [reply_raw]"
    "set (px_pending (sy_proxy sy1)) = {''7''}" "px_serverW (sy_proxy sy1) = put (call_raw example_params) sink"
    "px_clientW (sy_proxy sy1) = sink" by (rule example_forward)
  obtain res r where r: "ReadRaw (sy_server sy1) = (res, r)" by force
  with read_holds [OF sy1(6)] have r': "res = Inr reply_raw" by auto
  obtain px where px: "handle example_opts ServerToClient reply_raw (sy_proxy sy1) = Some (px, None)"
    using handle_transparent [of "sy_proxy sy1"] sy1(8,9) by auto
  have pend: "px_pending px = []"
    using handle_server [OF px] sy1(7) reply_answers by (auto simp: answers_def split: sum.splits)
  let ?sy2 = "sy1\<lparr>sy_server := r, sy_proxy := px, sy_done := False\<rparr>"
  have step1: "session_step example_opts sy1 (ServerLine reply_raw) ?sy2"
    using session_step.server_line [OF sy1(3) r [unfolded r'] px] by (simp add: after_handle_def)
  obtain r2 where step2: "session_step example_opts ?sy2 ClientEnd (?sy2\<lparr>sy_client := r2, sy_phase := Draining\<rparr>)"
    using end_step [of ?sy2 example_opts] sy1(2,5) by auto
  let ?sy3 = "?sy2\<lparr>sy_client := r2, sy_phase := Draining\<rparr>"
  have step3: "session_step example_opts ?sy3 Drained (?sy3\<lparr>sy_phase := InputClosed\<rparr>)"
    by (rule session_step.drained) (simp_all add: pend)
  have run: "session_run example_opts sy1 [ServerLine reply_raw, ClientEnd, Drained] (?sy3\<lparr>sy_phase := InputClosed\<rparr>)"
    using session_run.step [OF run_two [OF step1 step2] step3] by simp
  have "\<exists>raw \<in> {reply_raw}. answers raw ''7''"
    using closes_after_last_reply [OF run sy1(2), of "''7''"] sy1(4,7) by (simp add: server_lines_def)
  with run sy1(7) show ?thesis by (intro exI [of _ sy1] exI [of _ "?sy3\<lparr>sy_phase := InputClosed\<rparr>"]) simp
qed

end
