(* ===== verification/GoUrl.thy ===== *)
theory GoUrl
  imports GoStrings
begin

text \<open>
  The parts of Go's \<open>path\<close> and \<open>net/url\<close> packages the program calls: \<open>path.Clean\<close>,
  \<open>path.Dir\<close> and \<open>url.Parse\<close> (scheme, host and path of the result; a parse error is
  \<open>None\<close>), after the documentation and the Go 1.25 sources. The further checks that later
  patch releases make inside a bracketed IPv6 literal are not modelled; no lemma depends on
  them.
\<close>

section \<open>Lexical paths\<close>

text \<open>
  One pass over the elements of a path with the already cleaned elements on a stack: an
  empty element and \<open>.\<close> vanish, \<open>..\<close> removes the element before it, vanishes at the root
  of a rooted path, and stays at the front of a relative one.
\<close>

fun resolve :: "bool \<Rightarrow> bytes list \<Rightarrow> bytes list \<Rightarrow> bytes list" where
  "resolve rooted st [] = rev st"
| "resolve rooted st (w # ws) =
     (if w = '''' \<or> w = ''.'' then resolve rooted st ws
      else if w = ''..'' then
        (case st of
          [] \<Rightarrow> resolve rooted (if rooted then [] else [w]) ws
        | t # st' \<Rightarrow> if t = ''..'' then resolve rooted (w # st) ws else resolve rooted st' ws)
      else resolve rooted (w # st) ws)"

definition Clean :: "bytes \<Rightarrow> bytes" where
  "Clean p =
     (if p = [] then ''.''
      else
        let rooted = HasPrefix p ''/'';
            out = (if rooted then ''/'' else '''') @
                  Join (resolve rooted [] (split_on CHR ''/'' p)) ''/''
        in if out = [] then ''.'' else out)"

definition Dir :: "bytes \<Rightarrow> bytes" where
  "Dir p = Clean (case cut_last_byte CHR ''/'' p of None \<Rightarrow> [] | Some (a, b) \<Rightarrow> a @ ''/'')"

section \<open>URLs\<close>

record url =
  url_Scheme :: bytes
  url_Host :: bytes
  url_Path :: bytes

datatype url_part = EncodePath | EncodeHost | EncodeZone | EncodeUserPassword | EncodeFragment

text \<open>Which ASCII bytes a host may hold unescaped.\<close>

definition host_byte :: "char \<Rightarrow> bool" where
  "host_byte c \<longleftrightarrow>
     is_letter c \<or> is_digit c \<or> c \<in> set (''!$&()*+,;=:[]<>'' @ [CHR 0x22, CHR 0x27]) \<or> c \<in> set ''-_.~''"

fun unescape :: "url_part \<Rightarrow> bytes \<Rightarrow> bytes option" where
  "unescape md [] = Some []"
| "unescape md (c # s) =
     (if c = CHR ''%'' then
        (case s of
          a # b # r \<Rightarrow>
            if \<not> is_hex a \<or> \<not> is_hex b then None
            else
              let v = unhex a * 16 + unhex b;
                  is_25 = (a = CHR ''2'' \<and> b = CHR ''5'')
              in if md = EncodeHost \<and> unhex a < 8 \<and> \<not> is_25 then None
                 else if md = EncodeZone \<and> \<not> is_25 \<and> v \<noteq> 32 \<and> \<not> host_byte (char_of v) then None
                 else map_option (Cons (char_of v)) (unescape md r)
        | _ \<Rightarrow> None)
      else if (md = EncodeHost \<or> md = EncodeZone) \<and> byte c < 128 \<and> \<not> host_byte c then None
      else map_option (Cons c) (unescape md s))"

definition stringContainsCTLByte :: "bytes \<Rightarrow> bool" where
  "stringContainsCTLByte s \<longleftrightarrow> list_ex (\<lambda>c. byte c < 32 \<or> byte c = 127) s"

text \<open>\<open>getScheme\<close>: \<open>None\<close> is the error "missing protocol scheme"; \<open>pre\<close> is what was read.\<close>

fun getScheme_from :: "bytes \<Rightarrow> bytes \<Rightarrow> (bytes \<times> bytes) option" where
  "getScheme_from pre [] = Some ([], rev pre)"
| "getScheme_from pre (c # s) =
     (if is_letter c then getScheme_from (c # pre) s
      else if is_digit c \<or> c \<in> set ''+-.'' then
        (if pre = [] then Some ([], c # s) else getScheme_from (c # pre) s)
      else if c = CHR '':'' then
        (if pre = [] then None else Some (rev pre, s))
      else Some ([], rev pre @ c # s))"

definition getScheme :: "bytes \<Rightarrow> (bytes \<times> bytes) option" where
  "getScheme s = getScheme_from [] s"

definition validOptionalPort :: "bytes \<Rightarrow> bool" where
  "validOptionalPort p \<longleftrightarrow> p = [] \<or> (hd p = CHR '':'' \<and> list_all is_digit (tl p))"

definition validUserinfo :: "bytes \<Rightarrow> bool" where
  "validUserinfo s \<longleftrightarrow>
     list_all (\<lambda>c. is_letter c \<or> is_digit c \<or> c \<in> set (''-._:~!$&()*+,;=%@'' @ [CHR 0x27])) s"

definition parseHost :: "bytes \<Rightarrow> bytes option" where
  "parseHost host =
     (if HasPrefix host ''['' then
        (case cut_last_byte CHR '']'' host of
          None \<Rightarrow> None
        | Some (inside, colonPort) \<Rightarrow>
            if \<not> validOptionalPort colonPort then None
            else (case Cut inside ''%25'' of
                None \<Rightarrow> unescape EncodeHost host
              | Some (h, z) \<Rightarrow>
                  (case (unescape EncodeHost h, unescape EncodeZone (''%25'' @ z),
                         unescape EncodeHost ('']'' @ colonPort)) of
                    (Some h1, Some h2, Some h3) \<Rightarrow> Some (h1 @ h2 @ h3)
                  | _ \<Rightarrow> None)))
      else (case cut_last_byte CHR '':'' host of
          None \<Rightarrow> unescape EncodeHost host
        | Some (_, port) \<Rightarrow>
            if validOptionalPort ('':'' @ port) then unescape EncodeHost host else None))"

definition parseAuthority :: "bytes \<Rightarrow> bytes option" where
  "parseAuthority authority =
     (case cut_last_byte CHR ''@'' authority of
       None \<Rightarrow> parseHost authority
     | Some (userinfo, h) \<Rightarrow>
         (case parseHost h of
           None \<Rightarrow> None
         | Some host \<Rightarrow>
             if \<not> validUserinfo userinfo then None
             else (case cut_byte CHR '':'' userinfo of
                 None \<Rightarrow> if unescape EncodeUserPassword userinfo = None then None else Some host
               | Some (u, p) \<Rightarrow>
                   if unescape EncodeUserPassword u = None \<or> unescape EncodeUserPassword p = None
                   then None else Some host)))"

definition parse_url :: "bytes \<Rightarrow> url option" where
  "parse_url raw =
     (if stringContainsCTLByte raw then None
      else if raw = ''*'' then Some \<lparr>url_Scheme = [], url_Host = [], url_Path = ''*''\<rparr>
      else case getScheme raw of
        None \<Rightarrow> None
      | Some (scheme0, rest0) \<Rightarrow>
        let scheme = ToLower scheme0;
            rest = (case cut_byte CHR ''?'' rest0 of None \<Rightarrow> rest0 | Some (a, _) \<Rightarrow> a)
        in if \<not> HasPrefix rest ''/'' \<and> scheme \<noteq> [] then
             Some \<lparr>url_Scheme = scheme, url_Host = [], url_Path = []\<rparr>
           else if \<not> HasPrefix rest ''/'' \<and> CHR '':'' \<in> set (hd (split_on CHR ''/'' rest)) then None
           else
             if (scheme \<noteq> [] \<or> \<not> HasPrefix rest ''///'') \<and> HasPrefix rest ''//'' then
               let after = drop 2 rest;
                   (authority, tail) = (case cut_byte CHR ''/'' after of
                       None \<Rightarrow> (after, []) | Some (a, b) \<Rightarrow> (a, CHR ''/'' # b))
               in (case parseAuthority authority of
                   None \<Rightarrow> None
                 | Some host \<Rightarrow>
                     map_option (\<lambda>p. \<lparr>url_Scheme = scheme, url_Host = host, url_Path = p\<rparr>)
                       (unescape EncodePath tail))
             else
               map_option (\<lambda>p. \<lparr>url_Scheme = scheme, url_Host = [], url_Path = p\<rparr>)
                 (unescape EncodePath rest))"

definition Parse_url :: "bytes \<Rightarrow> url option" where
  "Parse_url raw =
     (case cut_byte CHR ''#'' raw of
       None \<Rightarrow> parse_url raw
     | Some (u, frag) \<Rightarrow>
         (case parse_url u of
           None \<Rightarrow> None
         | Some url \<Rightarrow>
             if frag \<noteq> [] \<and> unescape EncodeFragment frag = None then None else Some url))"

section \<open>Cleaned paths\<close>

definition proper_seg :: "bytes \<Rightarrow> bool" where
  "proper_seg w \<longleftrightarrow> w \<noteq> [] \<and> w \<noteq> ''.'' \<and> w \<noteq> ''..'' \<and> CHR ''/'' \<notin> set w"

definition segs :: "bytes \<Rightarrow> bytes list" where
  "segs p = filter (\<lambda>w. w \<noteq> []) (split_on CHR ''/'' p)"

text \<open>The equations of \<open>resolve\<close>, by the kind of element.\<close>

lemma resolve_skip [str_simps]: "resolve rooted st ([] # ws) = resolve rooted st ws"
  "resolve rooted st (''.'' # ws) = resolve rooted st ws"
  by simp_all

lemma resolve_up [str_simps]:
  "resolve True [] (''..'' # ws) = resolve True [] ws"
  "resolve False [] (''..'' # ws) = resolve False [''..''] ws"
  "t \<noteq> ''..'' \<Longrightarrow> resolve rooted (t # st) (''..'' # ws) = resolve rooted st ws"
  "resolve rooted (''..'' # st) (''..'' # ws) = resolve rooted (''..'' # ''..'' # st) ws"
  by simp_all

lemma resolve_push [str_simps]:
  "proper_seg w \<Longrightarrow> resolve rooted st (w # ws) = resolve rooted (w # st) ws"
  by (simp add: proper_seg_def)

declare resolve.simps(2) [simp del]

lemma seg_cases:
  assumes "CHR ''/'' \<notin> set w"
  obtains "w = []" | "w = ''.''" | "w = ''..''" | "proper_seg w"
  using assms by (auto simp: proper_seg_def)

lemma resolve_rooted_set:
  assumes "\<forall>w \<in> set st. proper_seg w" "\<forall>w \<in> set ws. CHR ''/'' \<notin> set w"
  shows "\<forall>w \<in> set (resolve True st ws). proper_seg w"
  using assms
proof (induction ws arbitrary: st)
  case (Cons w ws)
  have ws: "\<forall>w \<in> set ws. CHR ''/'' \<notin> set w" using Cons.prems(2) by simp
  from Cons.prems(2) have "CHR ''/'' \<notin> set w" by simp
  then show ?case
  proof (cases w rule: seg_cases)
    case 3
    show ?thesis
    proof (cases st)
      case Nil
      with 3 Cons.IH [of "[]"] ws show ?thesis by (simp add: resolve_up)
    next
      case (Cons t st')
      then have "t \<noteq> ''..''" "\<forall>w \<in> set st'. proper_seg w"
        using Cons.prems(1) by (auto simp: proper_seg_def)
      with 3 Cons Cons.IH [of st'] ws show ?thesis by (simp add: resolve_up)
    qed
  next
    case 4
    with Cons.IH [of "w # st"] Cons.prems(1) ws show ?thesis by (simp add: resolve_push)
  qed (use Cons.IH [OF Cons.prems(1) ws] in \<open>simp_all add: resolve_skip\<close>)
qed simp

lemma resolve_proper:
  assumes "\<forall>w \<in> set ws. proper_seg w"
  shows "resolve rooted st ws = rev st @ ws"
  using assms
proof (induction ws arbitrary: st)
  case (Cons w ws)
  have "resolve rooted st (w # ws) = resolve rooted (w # st) ws"
    using Cons.prems by (intro resolve_push) simp
  also have "\<dots> = rev (w # st) @ ws"
    using Cons.prems by (intro Cons.IH) simp
  finally show ?case by simp
qed simp

lemma resolve_step:
  assumes "CHR ''/'' \<notin> set w"
  shows "\<exists>st'. resolve rooted st (w # ws) = resolve rooted st' ws \<and>
    (\<forall>v \<in> set st'. v \<in> set st \<or> v = w \<and> w \<noteq> [])"
  using assms
proof (cases w rule: seg_cases)
  case 3
  show ?thesis
  proof (cases st)
    case Nil
    with 3 show ?thesis
      by (intro exI [of _ "if rooted then [] else [w]"]) (cases rooted; simp add: resolve_up)
  next
    case (Cons t st')
    with 3 show ?thesis
      by (intro exI [of _ "if t = ''..'' then w # st else st'"]) (simp add: resolve_up)
  qed
next
  case 4
  then show ?thesis
    by (intro exI [of _ "w # st"]) (simp add: resolve_push proper_seg_def)
qed (auto simp: resolve_skip)

lemma resolve_no_sep:
  assumes "\<forall>w \<in> set st. w \<noteq> [] \<and> CHR ''/'' \<notin> set w" "\<forall>w \<in> set ws. CHR ''/'' \<notin> set w"
  shows "\<forall>w \<in> set (resolve rooted st ws). w \<noteq> [] \<and> CHR ''/'' \<notin> set w"
  using assms
proof (induction ws arbitrary: st)
  case (Cons w ws)
  have ws: "\<forall>w \<in> set ws. CHR ''/'' \<notin> set w" and w: "CHR ''/'' \<notin> set w"
    using Cons.prems(2) by simp_all
  obtain st' where "resolve rooted st (w # ws) = resolve rooted st' ws"
    and "\<forall>v \<in> set st'. v \<in> set st \<or> v = w \<and> w \<noteq> []"
    using resolve_step [OF w] by blast
  moreover have "\<forall>v \<in> set st'. v \<noteq> [] \<and> CHR ''/'' \<notin> set v"
    using calculation(2) Cons.prems(1) w by blast
  ultimately show ?case using Cons.IH ws by metis
qed simp

lemma Join_seps: "\<forall>w \<in> set ws. w \<noteq> [] \<Longrightarrow> ws \<noteq> [] \<Longrightarrow> Join ws sep \<noteq> []"
  by (cases "(ws, sep)" rule: Join.cases) auto

lemma segs_rooted_Join:
  assumes "\<forall>w \<in> set ws. w \<noteq> [] \<and> CHR ''/'' \<notin> set w"
  shows "segs (''/'' @ Join ws ''/'') = ws"
proof (cases ws)
  case Nil
  then show ?thesis by (simp add: segs_def)
next
  case (Cons a list)
  with assms have "split_on CHR ''/'' (Join ws ''/'') = ws"
    by (intro split_on_Join_id) auto
  with assms show ?thesis by (simp add: segs_def)
qed

lemma Clean_rooted:
  "Clean (CHR ''/'' # p) =
    ''/'' @ Join (resolve True [] (split_on CHR ''/'' (CHR ''/'' # p))) ''/''"
  by (simp add: Clean_def HasPrefix_iff Let_def)

lemma resolved_segs_proper:
  "w \<in> set (resolve True [] (split_on CHR ''/'' p)) \<Longrightarrow> proper_seg w"
  using resolve_rooted_set [of "[]" "split_on CHR ''/'' p"] split_on_no_sep by fastforce

lemma segs_Clean_rooted:
  "segs (Clean (CHR ''/'' # p)) = resolve True [] (split_on CHR ''/'' (CHR ''/'' # p))"
  unfolding Clean_rooted
  by (rule segs_rooted_Join) (blast dest: resolved_segs_proper [unfolded proper_seg_def])

lemma Clean_nonempty: "Clean p \<noteq> []"
  by (simp add: Clean_def Let_def)

lemma Clean_rooted_iff: "HasPrefix (Clean p) ''/'' \<longleftrightarrow> HasPrefix p ''/''"
proof (cases "HasPrefix p ''/''")
  case True
  then obtain q where "p = CHR ''/'' # q" by (auto simp: HasPrefix_iff prefix_def)
  then show ?thesis by (simp add: Clean_rooted HasPrefix_iff)
next
  case False
  let ?ws = "resolve False [] (split_on CHR ''/'' p)"
  have "\<forall>w \<in> set ?ws. w \<noteq> [] \<and> CHR ''/'' \<notin> set w"
    by (rule resolve_no_sep) (auto dest: split_on_no_sep)
  then have "\<not> HasPrefix (Join ?ws ''/'') ''/''"
    by (cases "(?ws, ''/'')" rule: Join.cases) (auto simp: HasPrefix_iff prefix_def neq_Nil_conv)
  with False show ?thesis by (auto simp: Clean_def Let_def HasPrefix_iff prefix_def)
qed

text \<open>A cleaned rooted path ends in a separator only when it is the root.\<close>

lemma Clean_rooted_cases:
  assumes "HasPrefix p ''/''"
  obtains ws where "Clean p = ''/'' @ Join ws ''/''" "\<forall>w \<in> set ws. proper_seg w"
    "segs (Clean p) = ws"
proof -
  from assms obtain q where q: "p = CHR ''/'' # q" by (auto simp: HasPrefix_iff prefix_def)
  let ?ws = "resolve True [] (split_on CHR ''/'' p)"
  have "Clean p = ''/'' @ Join ?ws ''/''" unfolding q by (rule Clean_rooted)
  moreover have "\<forall>w \<in> set ?ws. proper_seg w" by (blast dest: resolved_segs_proper)
  moreover have "segs (Clean p) = ?ws" unfolding q by (rule segs_Clean_rooted)
  ultimately show thesis by (rule that)
qed

end
