(* ===== verification/Resource.thy ===== *)
theory Resource
  imports GoUrl
begin

text \<open>
  Target normalisation, \<open>internal/detect/resource.go\<close>: a raw target string (a path, a URI, a
  Windows path) becomes a \<open>Resource\<close> with its traversal resolved, before anything compares or
  counts it. The session report of the same file is in the theory \<open>Session\<close>.
\<close>

section \<open>Definitions\<close>

record resource =
  res_Raw :: bytes
  res_Scheme :: bytes
  res_Host :: bytes
  res_Path :: bytes
  res_Dir :: bytes
  res_Root :: bytes

definition zero_resource :: resource where
  "zero_resource = \<lparr>res_Raw = [], res_Scheme = [], res_Host = [], res_Path = [], res_Dir = [],
     res_Root = []\<rparr>"

definition Empty :: "resource \<Rightarrow> bool" where
  "Empty r \<longleftrightarrow> res_Path r = [] \<and> res_Host r = []"

definition isLetter :: "char \<Rightarrow> bool" where
  "isLetter b \<longleftrightarrow> (CHR ''a'' \<le> b \<and> b \<le> CHR ''z'') \<or> (CHR ''A'' \<le> b \<and> b \<le> CHR ''Z'')"

definition cleanPath :: "bytes \<Rightarrow> bytes" where
  "cleanPath p =
     (if p = [] then []
      else let c = Clean p in if length c > 1 then TrimSuffix c ''/'' else c)"

definition dirOf :: "bytes \<Rightarrow> bytes" where
  "dirOf p =
     (if p = [] \<or> p = ''/'' then p
      else let d = Dir p in if d = ''.'' then [] else d)"

definition firstSegment :: "bytes \<Rightarrow> bytes" where
  "firstSegment p =
     (let t = TrimPrefix p ''/''
      in if t = [] then (if p = ''/'' then ''/'' else [])
         else
           let t' = (case cut_byte CHR ''/'' t of Some (a, _) \<Rightarrow> a | None \<Rightarrow> t)
           in if HasPrefix p ''/'' then ''/'' @ t' else t')"

text \<open>A drive prefix such as \<open>C:\<close>, upper-cased, and the rest of the path.\<close>

definition split_drive :: "bytes \<Rightarrow> bytes \<times> bytes" where
  "split_drive p =
     (if length p \<ge> 2 \<and> p ! 1 = CHR '':'' \<and> isLetter (p ! 0) then (ToUpper (take 2 p), drop 2 p)
      else ([], p))"

definition ParseResource :: "bytes \<Rightarrow> resource" where
  "ParseResource raw =
     (let trimmed = TrimSpace raw in
      if trimmed = [] then zero_resource
      else
        let file_path =
          (let p = ReplaceByte trimmed CHR 0x5C ''/'';
               (drive, p) = split_drive p;
               path = cleanPath p
           in \<lparr>res_Raw = raw, res_Scheme = ''file'', res_Host = [], res_Path = path,
               res_Dir = dirOf path,
               res_Root = (if drive \<noteq> [] then drive else firstSegment path)\<rparr>)
        in case Parse_url trimmed of
             Some u \<Rightarrow>
               if url_Scheme u \<noteq> [] \<and> length (url_Scheme u) > 1 then
                 let scheme = ToLower (url_Scheme u);
                     host = ToLower (url_Host u);
                     path = cleanPath (url_Path u)
                 in \<lparr>res_Raw = raw, res_Scheme = scheme, res_Host = host, res_Path = path,
                     res_Dir = dirOf path,
                     res_Root = (if host \<noteq> [] then scheme @ ''://'' @ host
                                 else scheme @ ''://'' @ firstSegment path)\<rparr>
               else file_path
           | None \<Rightarrow> file_path)"

section \<open>Cleaned paths\<close>

lemma cleanPath_Nil [simp]: "cleanPath [] = []"
  by (simp add: cleanPath_def)

lemma Join_last: "ws \<noteq> [] \<Longrightarrow> last ws \<noteq> [] \<Longrightarrow> Join ws sep \<noteq> [] \<and> last (Join ws sep) = last (last ws)"
  by (induction ws sep rule: Join.induct) auto

lemma cleanPath_eq: "p \<noteq> [] \<Longrightarrow> cleanPath p = Clean p"
proof -
  assume p: "p \<noteq> []"
  let ?ws = "resolve (HasPrefix p ''/'') [] (split_on CHR ''/'' p)"
  have ws: "\<forall>w \<in> set ?ws. w \<noteq> [] \<and> CHR ''/'' \<notin> set w"
    by (rule resolve_no_sep) (auto dest: split_on_no_sep)
  have "\<not> suffix ''/'' (Clean p)" if "length (Clean p) > 1"
  proof (cases "?ws = []")
    case True
    with that p show ?thesis by (auto simp: Clean_def Let_def split: if_splits)
  next
    case False
    then have l: "last ?ws \<in> set ?ws" by simp
    with ws False have "Join ?ws ''/'' \<noteq> [] \<and> last (Join ?ws ''/'') = last (last ?ws)"
      by (intro Join_last) auto
    moreover have "last (last ?ws) \<noteq> CHR ''/''" using ws l by (metis last_in_set)
    ultimately have "last (Clean p) \<noteq> CHR ''/''" using p by (auto simp: Clean_def Let_def)
    then show ?thesis by (auto simp: suffix_def)
  qed
  with p show ?thesis by (simp add: cleanPath_def Let_def TrimSuffix_other)
qed

lemma cleanPath_rooted:
  assumes "HasPrefix p ''/''"
  obtains ws where "cleanPath p = ''/'' @ Join ws ''/''" "\<forall>w \<in> set ws. proper_seg w"
    "segs (cleanPath p) = ws"
proof -
  have "p \<noteq> []" using assms by (auto simp: HasPrefix_def)
  then show thesis using Clean_rooted_cases [OF assms] that by (auto simp: cleanPath_eq)
qed

lemma cleanPath_rooted_iff: "HasPrefix (cleanPath p) ''/'' \<longleftrightarrow> HasPrefix p ''/''"
  by (cases "p = []") (simp_all add: cleanPath_eq Clean_rooted_iff)

lemma cleanPath_Nil_iff: "cleanPath p = [] \<longleftrightarrow> p = []"
  by (cases "p = []") (simp_all add: cleanPath_eq Clean_nonempty)

section \<open>What url.Parse yields\<close>

lemma hex_value: "is_hex a \<Longrightarrow> unhex a < 16"
  by (auto simp: is_hex_def unhex_def is_digit_def)

lemma byte_char_of: "v < 256 \<Longrightarrow> byte (char_of v) = v"
  by (simp add: byte_def)

lemma char_of_slash: "char_of v = CHR ''/'' \<Longrightarrow> v < 256 \<Longrightarrow> v = (47::nat)"
proof -
  assume "char_of v = CHR ''/''" "v < 256"
  then have "byte (char_of v) = byte CHR ''/''" by simp
  with \<open>v < 256\<close> show "v = 47" unfolding byte_char_of [OF \<open>v < 256\<close>] by (simp add: byte_def)
qed

lemma unescape_host_no_slash:
  assumes "unescape md s = Some t" "md = EncodeHost \<or> md = EncodeZone"
  shows "CHR ''/'' \<notin> set t"
  using assms
proof (induction md s arbitrary: t rule: unescape.induct)
  case (1 md)
  then show ?case by simp
next
  case (2 md c s)
  have slash: "\<not> host_byte CHR ''/''" "byte CHR ''/'' < 128"
    by (simp_all add: host_byte_def is_letter_def is_lower_def is_upper_def is_digit_def byte_def)
  show ?case
  proof (cases "c = CHR ''%''")
    case False
    with 2 slash show ?thesis by (auto split: if_splits)
  next
    case True
    with 2(3) obtain a b r where s: "s = a # b # r"
      by (auto split: list.splits)
    let ?v = "unhex a * 16 + unhex b"
    from 2(3) True s have hex: "is_hex a" "is_hex b" by (auto split: if_splits)
    have v: "?v < 256" using hex_value [OF hex(1)] hex_value [OF hex(2)] by simp
    from 2(3) True s hex obtain t' where t: "t = char_of ?v # t'" "unescape md r = Some t'"
      by (auto simp: Let_def split: if_splits)
    have "char_of ?v \<noteq> CHR ''/''"
    proof
      assume eq: "char_of ?v = CHR ''/''"
      then have "?v = 47" using v by (rule char_of_slash)
      then have ab: "unhex a = 2" "unhex b = 15" using hex_value [OF hex(2)] by presburger+
      have "b \<noteq> CHR ''5''"
      proof
        assume "b = CHR ''5''"
        then have "unhex b = 5" by (simp add: unhex_def is_digit_def byte_def)
        with ab show False by simp
      qed
      with 2(3,4) True s hex ab eq slash(1) \<open>?v = 47\<close> show False
        by (auto simp: Let_def split: if_splits)
    qed
    moreover have "CHR ''/'' \<notin> set t'"
      using 2 True s hex t by (auto simp: Let_def split: if_splits)
    ultimately show ?thesis using t by simp
  qed
qed

lemma unescape_path_rooted:
  "unescape EncodePath (CHR ''/'' # s) = Some t \<Longrightarrow> HasPrefix t ''/''"
  by (auto simp: HasPrefix_def)

lemma parseHost_no_slash: "parseHost h = Some t \<Longrightarrow> CHR ''/'' \<notin> set t"
  by (auto simp: parseHost_def simp del: unescape.simps
      split: if_splits option.splits prod.splits dest: unescape_host_no_slash)

lemma parseAuthority_no_slash: "parseAuthority a = Some t \<Longrightarrow> CHR ''/'' \<notin> set t"
  by (auto simp: parseAuthority_def split: if_splits option.splits prod.splits
      dest: parseHost_no_slash)

lemma getScheme_from_chars:
  "getScheme_from pre s = Some (sch, rest) \<Longrightarrow>
   \<forall>c \<in> set pre. is_letter c \<or> is_digit c \<or> c \<in> set ''+-.'' \<Longrightarrow>
   \<forall>c \<in> set sch. is_letter c \<or> is_digit c \<or> c \<in> set ''+-.''"
  by (induction pre s rule: getScheme_from.induct) (auto split: if_splits)

definition scheme_byte :: "char \<Rightarrow> bool" where
  "scheme_byte c \<longleftrightarrow> is_letter c \<or> is_digit c \<or> c \<in> set ''+-.''"

lemma parse_url_wf:
  assumes "parse_url s = Some u" "url_Scheme u \<noteq> []"
  shows "CHR ''/'' \<notin> set (url_Host u) \<and> (url_Path u = [] \<or> HasPrefix (url_Path u) ''/'') \<and>
    (\<exists>sch. url_Scheme u = ToLower sch \<and> (\<forall>c \<in> set sch. scheme_byte c))"
proof -
  from assms obtain sch rest0 where g: "getScheme s = Some (sch, rest0)" and us: "url_Scheme u = ToLower sch"
    by (auto simp: parse_url_def Let_def split: if_splits option.splits prod.splits)
  have chars: "\<forall>c \<in> set sch. scheme_byte c"
    using getScheme_from_chars [of "[]" s] g by (auto simp: getScheme_def scheme_byte_def)
  have "CHR ''/'' \<notin> set (url_Host u) \<and> (url_Path u = [] \<or> HasPrefix (url_Path u) ''/'')"
  proof -
    define rest where "rest = (case cut_byte CHR ''?'' rest0 of None \<Rightarrow> rest0 | Some (a, _) \<Rightarrow> a)"
    show ?thesis
    proof (cases "HasPrefix rest ''/''")
      case False
      with assms g us show ?thesis
        by (auto simp: parse_url_def Let_def simp flip: rest_def split: if_splits option.splits)
    next
      case True
      then obtain r where r: "rest = CHR ''/'' # r" by (auto simp: HasPrefix_iff prefix_def)
      show ?thesis
      proof (cases "HasPrefix rest ''//''")
        case True
        then obtain a tl h p where "parseAuthority a = Some h" "unescape EncodePath tl = Some p"
          "tl = [] \<or> (\<exists>b. tl = CHR ''/'' # b)" "url_Host u = h" "url_Path u = p"
          using assms g us \<open>HasPrefix rest ''/''\<close>
          by (auto simp: parse_url_def Let_def simp flip: rest_def simp del: unescape.simps
              split: if_splits option.splits)
        then show ?thesis
          using unescape_path_rooted by (auto dest: parseAuthority_no_slash)
      next
        case False
        then have "\<not> HasPrefix rest ''///''" by (auto simp: HasPrefix_iff prefix_def)
        with False obtain p where "unescape EncodePath rest = Some p" "url_Host u = []" "url_Path u = p"
          using assms g us \<open>HasPrefix rest ''/''\<close>
          by (auto simp: parse_url_def Let_def simp flip: rest_def simp del: unescape.simps
              split: if_splits option.splits)
        then show ?thesis using unescape_path_rooted r by auto
      qed
    qed
  qed
  with us chars show ?thesis by blast
qed

lemma Parse_url_wf:
  assumes "Parse_url s = Some u" "url_Scheme u \<noteq> []"
  shows "CHR ''/'' \<notin> set (url_Host u) \<and> (url_Path u = [] \<or> HasPrefix (url_Path u) ''/'') \<and>
    (\<exists>sch. url_Scheme u = ToLower sch \<and> (\<forall>c \<in> set sch. scheme_byte c))"
proof -
  have "\<exists>s'. parse_url s' = Some u"
    using assms(1) by (auto simp: Parse_url_def split: option.splits prod.splits if_splits)
  with parse_url_wf assms(2) show ?thesis by blast
qed

section \<open>Traversal\<close>

text \<open>What a path means, element by element: start at the root, stay on an empty element or
  \<open>.\<close>, leave the current directory on \<open>..\<close>, enter anything else.\<close>

fun enter :: "bytes list \<Rightarrow> bytes \<Rightarrow> bytes list" where
  "enter dir w =
     (if w = [] \<or> w = ''.'' then dir else if w = ''..'' then butlast dir else dir @ [w])"

definition walk :: "bytes \<Rightarrow> bytes list" where
  "walk p = foldl enter [] (split_on CHR ''/'' p)"

lemma resolve_is_walk:
  assumes "\<forall>w \<in> set st. proper_seg w" "\<forall>w \<in> set ws. CHR ''/'' \<notin> set w"
  shows "resolve True st ws = foldl enter (rev st) ws"
  using assms
proof (induction ws arbitrary: st)
  case (Cons w ws)
  from Cons.prems(2) have "CHR ''/'' \<notin> set w" by simp
  then show ?case
  proof (cases w rule: seg_cases)
    case 3
    show ?thesis
    proof (cases st)
      case Nil
      with 3 Cons.IH [of "[]"] Cons.prems show ?thesis by (simp add: resolve_up)
    next
      case (Cons t st')
      then have "t \<noteq> ''..''" "\<forall>w \<in> set st'. proper_seg w"
        using Cons.prems(1) by (auto simp: proper_seg_def)
      with 3 Cons Cons.IH [of st'] Cons.prems(2) show ?thesis by (simp add: resolve_up)
    qed
  next
    case 4
    with Cons.IH [of "w # st"] Cons.prems show ?thesis
      by (simp add: resolve_push proper_seg_def)
  qed (use Cons.IH [OF Cons.prems(1)] Cons.prems(2) in \<open>simp_all add: resolve_skip\<close>)
qed simp

lemma cleanPath_walk:
  assumes "HasPrefix p ''/''"
  shows "cleanPath p = ''/'' @ Join (walk p) ''/''"
proof -
  from assms obtain q where q: "p = CHR ''/'' # q" by (auto simp: HasPrefix_iff prefix_def)
  have "resolve True [] (split_on CHR ''/'' p) = walk p"
    unfolding walk_def using split_on_no_sep by (subst resolve_is_walk) fastforce+
  then show ?thesis unfolding q by (simp add: cleanPath_eq Clean_rooted)
qed

lemma walk_proper: "\<forall>w \<in> set (walk p). proper_seg w"
proof -
  have "resolve True [] (split_on CHR ''/'' p) = walk p"
    unfolding walk_def using split_on_no_sep by (subst resolve_is_walk) fastforce+
  then show ?thesis using resolved_segs_proper [of _ p] by auto
qed

lemma segs_cleanPath: "HasPrefix p ''/'' \<Longrightarrow> segs (cleanPath p) = walk p"
  using walk_proper [of p] unfolding cleanPath_walk
  by (intro segs_rooted_Join) (auto simp: proper_seg_def)

lemma walk_clean:
  assumes "\<forall>w \<in> set ws. proper_seg w"
  shows "walk (''/'' @ Join ws ''/'') = ws"
proof -
  have s: "split_on CHR ''/'' (''/'' @ Join ws ''/'') = [] # (if ws = [] then [[]] else ws)"
    using assms by (cases "ws = []") (auto simp: proper_seg_def intro!: split_on_Join_id)
  have "foldl enter d ws = d @ ws" for d
    using assms by (induction ws arbitrary: d) (auto simp: proper_seg_def)
  with s show ?thesis by (simp add: walk_def)
qed

section \<open>Well-formed resources\<close>

text \<open>What every parsed target satisfies. A path is absent, relative, or rooted and free of
  empty, \<open>.\<close> and \<open>..\<close> elements; no separator can hide in the scheme or the host; a resource
  with a host has no relative path.\<close>

definition scheme_ok :: "bytes \<Rightarrow> bool" where
  "scheme_ok s \<longleftrightarrow> s \<noteq> [] \<and> CHR '':'' \<notin> set s \<and> CHR ''/'' \<notin> set s"

definition resource_ok :: "resource \<Rightarrow> bool" where
  "resource_ok r \<longleftrightarrow>
     CHR ''/'' \<notin> set (res_Host r) \<and>
     (res_Path r \<noteq> [] \<or> res_Host r \<noteq> [] \<longrightarrow> scheme_ok (res_Scheme r)) \<and>
     (HasPrefix (res_Path r) ''/'' \<longrightarrow> res_Path r = ''/'' @ Join (walk (res_Path r)) ''/'') \<and>
     (res_Host r \<noteq> [] \<longrightarrow> res_Path r = [] \<or> HasPrefix (res_Path r) ''/'') \<and>
     (\<not> HasPrefix (res_Path r) ''/'' \<and> res_Path r \<noteq> [] \<longrightarrow> res_Scheme r = ''file'')"

lemma cleanPath_again:
  "HasPrefix (cleanPath p) ''/'' \<Longrightarrow> cleanPath p = ''/'' @ Join (walk (cleanPath p)) ''/''"
  using walk_clean [OF walk_proper [of p]] by (simp add: cleanPath_rooted_iff cleanPath_walk)

lemma lower_byte_sep: "scheme_byte c \<Longrightarrow> lower_byte c \<noteq> CHR '':'' \<and> lower_byte c \<noteq> CHR ''/''"
proof -
  assume c: "scheme_byte c"
  have "byte (lower_byte c) \<noteq> 58 \<and> byte (lower_byte c) \<noteq> 47"
    using c by (auto simp: scheme_byte_def lower_byte_def byte_char_of is_letter_def is_lower_def
        is_upper_def is_digit_def) (auto simp: byte_def)
  then show ?thesis by (auto simp: byte_def)
qed

lemma scheme_byte_ascii: "scheme_byte c \<Longrightarrow> byte c < 128"
  by (auto simp: scheme_byte_def is_letter_def is_lower_def is_upper_def is_digit_def)
    (auto simp: byte_def)

lemma ToLower_ascii: "\<forall>c \<in> set s. byte c < 128 \<Longrightarrow> ToLower s = map lower_byte s"
proof (induction s)
  case (Cons c s)
  then have "\<not> HasPrefix (c # s) dotted_I" "\<not> HasPrefix (c # s) kelvin"
    by (auto simp: HasPrefix_def dotted_I_def kelvin_def byte_def)
  with Cons show ?case by simp
qed simp

lemma lower_byte_idem [simp]: "lower_byte (lower_byte c) = lower_byte c"
  by (auto simp: lower_byte_def is_upper_def byte_char_of)

lemma scheme_lower:
  assumes "\<forall>c \<in> set s. scheme_byte c" "s \<noteq> []"
  shows "scheme_ok (ToLower s)" "ToLower (ToLower s) = ToLower s"
proof -
  have a: "ToLower s = map lower_byte s"
    using assms by (intro ToLower_ascii) (auto dest: scheme_byte_ascii)
  show "scheme_ok (ToLower s)"
    using assms lower_byte_sep unfolding a scheme_ok_def by fastforce
  have "byte (lower_byte c) < 128" if "c \<in> set s" for c
    using that assms scheme_byte_ascii [of c]
    by (auto simp: lower_byte_def byte_char_of is_upper_def)
  then have "ToLower (map lower_byte s) = map lower_byte (map lower_byte s)"
    by (intro ToLower_ascii) auto
  then show "ToLower (ToLower s) = ToLower s" unfolding a by (simp add: comp_def)
qed

lemma byte_inj: "byte a = byte b \<longleftrightarrow> a = b"
  by (simp add: byte_def)

lemma slash_byte: "byte CHR ''/'' = 47"
  by (simp add: byte_def)

lemma ToLower_slash: "CHR ''/'' \<notin> set s \<Longrightarrow> CHR ''/'' \<notin> set (ToLower s)"
proof (induction s rule: ToLower.induct)
  case (2 c s)
  have "lower_byte c \<noteq> CHR ''/''" if "c \<noteq> CHR ''/''"
  proof -
    have "byte (lower_byte c) \<noteq> 47" using that
      by (auto simp: lower_byte_def byte_char_of is_upper_def)
        (metis byte_inj slash_byte)
    then show ?thesis by (auto simp: byte_def)
  qed
  with 2 show ?case by (auto dest: in_set_dropD)
qed simp

lemma resource_of_url:
  assumes "Parse_url s = Some u" "url_Scheme u \<noteq> []"
  shows "resource_ok \<lparr>res_Raw = raw, res_Scheme = ToLower (url_Scheme u),
    res_Host = ToLower (url_Host u), res_Path = cleanPath (url_Path u), res_Dir = d, res_Root = g\<rparr>"
proof -
  obtain sch where sch: "url_Scheme u = ToLower sch" "\<forall>c \<in> set sch. scheme_byte c" "sch \<noteq> []"
    and host: "CHR ''/'' \<notin> set (url_Host u)"
    and path: "url_Path u = [] \<or> HasPrefix (url_Path u) ''/''"
    using Parse_url_wf [OF assms] assms(2) by (metis ToLower.simps(1))
  have "scheme_ok (ToLower (url_Scheme u))"
    using scheme_lower [OF sch(2,3)] sch(1) by simp
  moreover have "cleanPath (url_Path u) = [] \<or> HasPrefix (cleanPath (url_Path u)) ''/''"
    using path by (auto simp: cleanPath_rooted_iff)
  ultimately show ?thesis
    using host cleanPath_again [of "url_Path u"]
    by (auto simp: resource_ok_def ToLower_slash)
qed

lemma resource_of_path:
  "resource_ok \<lparr>res_Raw = raw, res_Scheme = ''file'', res_Host = [], res_Path = cleanPath p,
    res_Dir = d, res_Root = g\<rparr>"
  using cleanPath_again [of p] by (auto simp: resource_ok_def scheme_ok_def)

lemma zero_resource_ok [scope_simps]: "resource_ok zero_resource" "Empty zero_resource"
  by (simp_all add: resource_ok_def zero_resource_def Empty_def HasPrefix_def)

lemma resource_ok_ParseResource: "resource_ok (ParseResource raw)"
proof (cases "TrimSpace raw = []")
  case True
  then show ?thesis by (simp add: ParseResource_def scope_simps)
next
  case False
  then show ?thesis
    by (auto simp: ParseResource_def Let_def resource_of_path resource_of_url
        split: option.split prod.split)
qed

text \<open>
  C29: Every target string, whatever it holds, is normalised to a well-formed resource: no
  separator in its scheme or host, a rooted path free of empty, dot and dot-dot elements, no
  relative path beside a host, and a relative path only as a file path.\<close>

lemma ParseResource_wf: "resource_ok (ParseResource raw)"
  by (rule resource_ok_ParseResource)

lemma getScheme_slash: "getScheme (CHR ''/'' # s) = Some ([], CHR ''/'' # s)"
  by (simp add: getScheme_def is_letter_def is_lower_def is_upper_def is_digit_def byte_def)

lemma Parse_url_no_scheme:
  assumes "HasPrefix s ''/''" "Parse_url s = Some u"
  shows "url_Scheme u = []"
proof -
  have *: "url_Scheme v = []" if "parse_url (CHR ''/'' # t) = Some v" for t v
    using that
    by (auto simp: parse_url_def Let_def getScheme_slash simp del: unescape.simps
        split: if_splits option.splits prod.splits)
  from assms(1) obtain t where t: "s = CHR ''/'' # t" by (auto simp: HasPrefix_iff prefix_def)
  show ?thesis
  proof (cases "cut_byte CHR ''#'' s")
    case None
    with assms(2) t * show ?thesis by (auto simp: Parse_url_def)
  next
    case (Some ab)
    then obtain a b where ab: "cut_byte CHR ''#'' s = Some (a, b)" by (cases ab) auto
    with t obtain a' where "a = CHR ''/'' # a'" by (auto split: option.splits)
    with assms(2) ab * show ?thesis
      by (auto simp: Parse_url_def split: option.splits if_splits)
  qed
qed

lemma ParseResource_rooted:
  assumes "HasPrefix (TrimSpace raw) ''/''"
  shows "ParseResource raw =
    (let p = ReplaceByte (TrimSpace raw) CHR 0x5C ''/''; path = ''/'' @ Join (walk p) ''/''
     in \<lparr>res_Raw = raw, res_Scheme = ''file'', res_Host = [], res_Path = path,
         res_Dir = dirOf path, res_Root = firstSegment path\<rparr>)"
proof -
  obtain t where t: "TrimSpace raw = CHR ''/'' # t"
    using assms by (auto simp: HasPrefix_iff prefix_def)
  let ?p = "ReplaceByte (TrimSpace raw) CHR 0x5C ''/''"
  have p: "HasPrefix ?p ''/''" by (simp add: t ReplaceByte_def HasPrefix_def)
  have d: "split_drive ?p = ([], ?p)"
    by (simp add: split_drive_def t ReplaceByte_def isLetter_def)
  have "\<forall>u. Parse_url (TrimSpace raw) = Some u \<longrightarrow> url_Scheme u = []"
    using Parse_url_no_scheme [OF assms] by blast
  with t d cleanPath_walk [OF p] show ?thesis
    by (auto simp: ParseResource_def Let_def split: option.split)
qed

text \<open>
  C11: A target that is an absolute POSIX path names the place a walk from the root reaches:
  whatever traversal, empty and dot elements it holds, the normalised path is the sequence of
  directories the walk is in at the end, and the walk never leaves the root.\<close>

lemma ParseResource_absolute:
  assumes "HasPrefix (TrimSpace raw) ''/''"
  shows "ParseResource raw =
    (let p = ReplaceByte (TrimSpace raw) CHR 0x5C ''/''; path = ''/'' @ Join (walk p) ''/''
     in \<lparr>res_Raw = raw, res_Scheme = ''file'', res_Host = [], res_Path = path,
         res_Dir = dirOf path, res_Root = firstSegment path\<rparr>)"
  using assms by (rule ParseResource_rooted)

lemma ParseResource_absolute_witness:
  "ParseResource ''/srv/data/../../etc//./passwd'' =
   \<lparr>res_Raw = ''/srv/data/../../etc//./passwd'', res_Scheme = ''file'', res_Host = [],
    res_Path = ''/etc/passwd'', res_Dir = ''/etc'', res_Root = ''/etc''\<rparr>"
proof -
  have "HasPrefix (TrimSpace ''/srv/data/../../etc//./passwd'') ''/''" by code_simp
  note ParseResource_absolute [OF this]
  also have "(let p = ReplaceByte (TrimSpace ''/srv/data/../../etc//./passwd'') CHR 0x5C ''/'';
      path = ''/'' @ Join (walk p) ''/''
     in \<lparr>res_Raw = ''/srv/data/../../etc//./passwd'', res_Scheme = ''file'', res_Host = [],
         res_Path = path, res_Dir = dirOf path, res_Root = firstSegment path\<rparr>) =
     \<lparr>res_Raw = ''/srv/data/../../etc//./passwd'', res_Scheme = ''file'', res_Host = [],
      res_Path = ''/etc/passwd'', res_Dir = ''/etc'', res_Root = ''/etc''\<rparr>" by code_simp
  finally show ?thesis .
qed

end
