(* ===== verification/Scope.thy ===== *)
theory Scope
  imports Resource
begin

text \<open>
  The declared working set, \<open>internal/detect/scope.go\<close>: declaring it from the operator's
  entries, and deciding whether a normalised target lies inside. The report over a session's
  retained calls is in the theory \<open>Reports\<close>.
\<close>

section \<open>Definitions\<close>

record scope =
  sc_entries :: "resource list"

datatype scope_error =
    EntryEmpty
  | EntryNoResource bytes
  | EntryRelative bytes

definition check_entry :: "bytes \<Rightarrow> scope_error + resource" where
  "check_entry d =
     (if TrimSpace d = [] then Inl EntryEmpty
      else
        let r = ParseResource d in
        if Empty r then Inl (EntryNoResource d)
        else if res_Host r = [] \<and> \<not> HasPrefix (res_Path r) ''/'' then Inl (EntryRelative d)
        else Inr r)"

fun add_entries :: "scope \<Rightarrow> bytes list \<Rightarrow> scope_error + scope" where
  "add_entries s [] = Inr s"
| "add_entries s (d # ds) =
     (case check_entry d of
       Inl e \<Rightarrow> Inl e
     | Inr r \<Rightarrow> add_entries (s\<lparr>sc_entries := sc_entries s @ [r]\<rparr>) ds)"

definition NewScope :: "bytes list \<Rightarrow> scope_error + scope" where
  "NewScope decls = add_entries \<lparr>sc_entries = []\<rparr> decls"

definition Declared :: "scope \<Rightarrow> bool" where
  "Declared s \<longleftrightarrow> length (sc_entries s) > 0"

definition Entries :: "scope \<Rightarrow> resource list" where
  "Entries s = sc_entries s"

definition volumeOf :: "resource \<Rightarrow> bytes" where
  "volumeOf r =
     (if length (res_Root r) = 2 \<and> res_Root r ! 1 = CHR '':'' \<and> isLetter (res_Root r ! 0)
      then res_Root r else [])"

definition scopeKey :: "resource \<Rightarrow> bytes" where
  "scopeKey r = res_Scheme r @ ''://'' @ res_Host r @ volumeOf r @ res_Path r"

definition key_within :: "bytes \<Rightarrow> bytes \<Rightarrow> bool" where
  "key_within k ek \<longleftrightarrow> k = ek \<or> HasPrefix k (TrimSuffix ek ''/'' @ ''/'')"

definition Contains :: "scope \<Rightarrow> resource \<Rightarrow> bool" where
  "Contains s r =
     (if Empty r then False
      else list_ex (\<lambda>e. key_within (scopeKey r) (scopeKey e)) (sc_entries s))"

definition Escaped :: "scope \<Rightarrow> resource \<Rightarrow> bool" where
  "Escaped s r =
     (if Empty r \<or> Contains s r then False
      else
        let naive = ReplaceByte (TrimSpace (res_Raw r)) CHR 0x5C ''/''
        in list_ex (\<lambda>e. res_Path e \<noteq> [] \<and> key_within naive (res_Path e)) (sc_entries s))"

section \<open>Declaring a working set\<close>

text \<open>Resources that name a fixed place: the only ones a working set is declared from.\<close>

definition anchored :: "resource \<Rightarrow> bool" where
  "anchored r \<longleftrightarrow> res_Host r \<noteq> [] \<or> HasPrefix (res_Path r) ''/''"

definition scope_ok :: "scope \<Rightarrow> bool" where
  "scope_ok s \<longleftrightarrow> list_all (\<lambda>e. anchored e \<and> (\<exists>d. e = ParseResource d)) (sc_entries s)"

lemma check_entry_Inr:
  "check_entry d = Inr r \<longleftrightarrow> TrimSpace d \<noteq> [] \<and> r = ParseResource d \<and> anchored (ParseResource d)"
  by (auto simp: check_entry_def anchored_def Let_def Empty_def HasPrefix_def)

lemma add_entries_Inr:
  "add_entries s ds = Inr s' \<longleftrightarrow>
    list_all (\<lambda>d. TrimSpace d \<noteq> [] \<and> anchored (ParseResource d)) ds \<and>
    s' = s\<lparr>sc_entries := sc_entries s @ map ParseResource ds\<rparr>"
proof (induction s ds rule: add_entries.induct)
  case (2 s d ds)
  show ?case
  proof (cases "check_entry d")
    case (Inl e)
    then have "\<not> (TrimSpace d \<noteq> [] \<and> anchored (ParseResource d))"
      by (metis Inl_Inr_False check_entry_Inr)
    with Inl show ?thesis by auto
  next
    case (Inr r)
    then have "TrimSpace d \<noteq> []" "r = ParseResource d" "anchored (ParseResource d)"
      by (simp_all add: check_entry_Inr)
    with 2 [OF Inr] Inr show ?thesis by simp
  qed
qed auto

text \<open>
  Declaring a working set succeeds exactly when every entry is non-blank and names an
  absolute path or a URI with a host, and then holds the normalised entries in their order;
  one blank or relative entry rejects the whole declaration.\<close>

lemma NewScope_accepts:
  "NewScope decls = Inr s \<longleftrightarrow>
    list_all (\<lambda>d. TrimSpace d \<noteq> [] \<and> anchored (ParseResource d)) decls \<and>
    sc_entries s = map ParseResource decls"
  by (auto simp: NewScope_def add_entries_Inr)

lemma NewScope_ok: "NewScope decls = Inr s \<Longrightarrow> scope_ok s"
  by (auto simp: NewScope_def add_entries_Inr scope_ok_def list_all_iff)

section \<open>What a key determines\<close>

text \<open>Of an anchored resource: scheme, host with volume, and the elements of the path.\<close>

definition authority :: "resource \<Rightarrow> bytes" where
  "authority r = res_Host r @ volumeOf r"

lemma isLetter_iff: "isLetter c \<longleftrightarrow> is_letter c"
  by (auto simp: isLetter_def is_letter_def is_lower_def is_upper_def byte_def less_eq_char_def)

lemma drive_shape: "split_drive p = (d, q) \<Longrightarrow> d = [] \<or> (\<exists>x. d = [x, CHR '':''] \<and> is_upper x)"
proof -
  assume "split_drive p = (d, q)"
  moreover have "\<exists>x. ToUpper (take 2 p) = [x, CHR '':''] \<and> is_upper x"
    if "length p \<ge> 2" "p ! 1 = CHR '':''" "isLetter (p ! 0)"
  proof -
    from that obtain c r where p: "p = c # CHR '':'' # r"
      by (cases p; cases "tl p") auto
    have "c \<noteq> CHR 0xC4" "c \<noteq> CHR 0xC5" using that p by (auto simp: isLetter_def)
    then have "ToUpper (take 2 p) = [upper_byte c, upper_byte CHR '':'']"
      by (simp add: p HasPrefix_def dotless_i_def long_s_def)
    moreover have "is_upper (upper_byte c)" using that p
      by (auto simp: upper_byte_def isLetter_iff is_letter_def is_lower_def is_upper_def byte_char_of)
    moreover have "upper_byte CHR '':'' = CHR '':''" by (simp add: upper_byte_def is_lower_def byte_def)
    ultimately show ?thesis by auto
  qed
  ultimately show ?thesis by (auto simp: split_drive_def split: if_splits)
qed

lemma volumeOf_shape: "volumeOf r = [] \<or> (\<exists>x. volumeOf r = [x, CHR '':''] \<and> is_letter x)"
proof -
  have "\<exists>x. g = [x, CHR '':''] \<and> is_letter x" if g: "length g = 2" "g ! 1 = CHR '':''" "isLetter (g ! 0)" for g
    using g by (cases g; cases "tl g") (auto simp: isLetter_iff)
  then show ?thesis by (simp add: volumeOf_def)
qed

lemma letter_no_slash: "is_letter x \<Longrightarrow> x \<noteq> CHR ''/''"
  by (auto simp: is_letter_def is_lower_def is_upper_def byte_def)

lemma volumeOf_no_slash: "CHR ''/'' \<notin> set (volumeOf r)"
  using volumeOf_shape [of r] by (auto dest: letter_no_slash)

lemma authority_no_slash: "resource_ok r \<Longrightarrow> CHR ''/'' \<notin> set (authority r)"
  by (simp add: authority_def resource_ok_def volumeOf_no_slash)

lemma scopeKey_eq: "scopeKey r = res_Scheme r @ CHR '':'' # ''//'' @ authority r @ res_Path r"
  by (simp add: scopeKey_def authority_def)

text \<open>A separator-free head and a rooted or empty rest are determined by their concatenation.\<close>

lemma head_unique:
  assumes "c \<notin> set a" "c \<notin> set b" "p = [] \<or> hd p = c" "q = [] \<or> hd q = c" "a @ p = b @ q"
  shows "a = b \<and> p = q"
  using assms
proof (induction a arbitrary: b)
  case Nil
  then show ?case by (cases b) auto
next
  case (Cons x a)
  then show ?case by (cases b) auto
qed

lemma head_prefix:
  assumes "c \<notin> set a" "c \<notin> set b" "prefix (a @ c # p) (b @ q)" "q = [] \<or> hd q = c"
  shows "a = b \<and> prefix (c # p) q"
proof -
  from assms(3) obtain z where "b @ q = (a @ c # p) @ z" by (auto simp: prefix_def)
  then have "b @ q = a @ (c # p @ z)" by simp
  then have "b = a \<and> q = c # p @ z" by (intro head_unique [OF assms(2,1,4)]) auto
  then show ?thesis by auto
qed

lemma rooted_hd: "HasPrefix p ''/'' \<longleftrightarrow> p \<noteq> [] \<and> hd p = CHR ''/''"
  by (cases p) (auto simp: HasPrefix_def)

lemma anchored_parts:
  assumes "resource_ok r" "anchored r"
  shows "scheme_ok (res_Scheme r)" "res_Path r = [] \<or> hd (res_Path r) = CHR ''/''" "\<not> Empty r"
  using assms by (auto simp: resource_ok_def anchored_def Empty_def rooted_hd)

lemma Join_prefix:
  assumes "\<forall>w \<in> set us. proper_seg w" "\<forall>w \<in> set ws. proper_seg w" "us \<noteq> []"
  shows "prefix (Join us ''/'' @ ''/'') (Join ws ''/'') \<longleftrightarrow> strict_prefix us ws"
proof
  assume "prefix (Join us ''/'' @ ''/'') (Join ws ''/'')"
  then show "strict_prefix us ws"
    using assms
  proof (induction us arbitrary: ws)
    case (Cons u us)
    have u: "CHR ''/'' \<notin> set u" using Cons.prems by (simp add: proper_seg_def)
    show ?case
    proof (cases ws)
      case Nil
      with Cons.prems show ?thesis by simp
    next
      case (Cons w ws')
      have w: "CHR ''/'' \<notin> set w" using Cons \<open>\<forall>w \<in> set ws. proper_seg w\<close> by (simp add: proper_seg_def)
      obtain p where p: "Join (u # us) ''/'' @ ''/'' = u @ CHR ''/'' # p"
        "us \<noteq> [] \<Longrightarrow> p = Join us ''/'' @ ''/''"
        by (cases "us = []") (auto simp: Join_Cons)
      obtain q where q: "Join (w # ws') ''/'' = w @ q" "q = [] \<or> hd q = CHR ''/''"
        "q = [] \<longleftrightarrow> ws' = []" "ws' \<noteq> [] \<Longrightarrow> q = CHR ''/'' # Join ws' ''/''"
        by (cases "ws' = []") (auto simp: Join_Cons)
      have uw: "u = w \<and> prefix (CHR ''/'' # p) q"
        using Cons.prems(1) p(1) q(1,2) u w Cons by (intro head_prefix) simp_all
      then have ws': "ws' \<noteq> []" using q(3) by auto
      show ?thesis
      proof (cases "us = []")
        case True
        with uw ws' Cons show ?thesis by (auto simp: strict_prefix_def prefix_def)
      next
        case False
        with uw ws' p(2) q(4) have "prefix (Join us ''/'' @ ''/'') (Join ws' ''/'')" by simp
        with Cons.IH False Cons.prems Cons have "strict_prefix us ws'" by auto
        with uw Cons show ?thesis by (simp add: strict_prefix_def)
      qed
    qed
  qed simp
next
  assume "strict_prefix us ws"
  then obtain v vs where "ws = us @ v # vs" by (auto elim: strict_prefixE')
  moreover have "Join (us @ v # vs) ''/'' = Join us ''/'' @ ''/'' @ Join (v # vs) ''/''"
    using \<open>us \<noteq> []\<close> by (induction us rule: list_nonempty_induct) (auto simp: Join_Cons)
  ultimately show "prefix (Join us ''/'' @ ''/'') (Join ws ''/'')" by simp
qed

section \<open>Containment\<close>

text \<open>The boundary the operator means: the same scheme, the same host or volume, and the
  entry's path elements an initial part of the target's.\<close>

definition inside :: "resource \<Rightarrow> resource \<Rightarrow> bool" where
  "inside e r \<longleftrightarrow>
     res_Scheme e = res_Scheme r \<and> authority e = authority r \<and>
     prefix (walk (res_Path e)) (walk (res_Path r))"

lemma scheme_unique:
  assumes "scheme_ok a" "scheme_ok b" "a @ CHR '':'' # p = b @ CHR '':'' # q"
  shows "a = b \<and> p = q"
  using head_unique [of "CHR '':''" a b "CHR '':'' # p" "CHR '':'' # q"] assms
  by (auto simp: scheme_ok_def)

lemma key_eq_iff:
  assumes "resource_ok e" "resource_ok r" "anchored e" "anchored r"
  shows "scopeKey r = scopeKey e \<longleftrightarrow>
    res_Scheme e = res_Scheme r \<and> authority e = authority r \<and> res_Path e = res_Path r"
proof
  assume "scopeKey r = scopeKey e"
  from scheme_unique [OF anchored_parts(1) [OF assms(2,4)] anchored_parts(1) [OF assms(1,3)]
      this [unfolded scopeKey_eq]]
  have s: "res_Scheme r = res_Scheme e" and t: "authority r @ res_Path r = authority e @ res_Path e"
    by simp_all
  have "authority r = authority e \<and> res_Path r = res_Path e"
    using authority_no_slash [OF assms(2)] authority_no_slash [OF assms(1)]
      anchored_parts(2) [OF assms(2,4)] anchored_parts(2) [OF assms(1,3)] t
    by (rule head_unique)
  with s show "res_Scheme e = res_Scheme r \<and> authority e = authority r \<and> res_Path e = res_Path r"
    by simp
qed (simp add: scopeKey_eq)

lemma path_cases:
  assumes "resource_ok r" "anchored r"
  obtains (bare) "res_Path r = []" "authority r \<noteq> []" "walk (res_Path r) = []"
  | (root) "res_Path r = ''/''" "walk (res_Path r) = []"
  | (path) ws where "res_Path r = CHR ''/'' # Join ws ''/''" "walk (res_Path r) = ws" "ws \<noteq> []"
      "\<forall>w \<in> set ws. proper_seg w"
proof (cases "res_Path r = []")
  case True
  with assms bare show thesis by (auto simp: anchored_def authority_def HasPrefix_def walk_def)
next
  case False
  then have "HasPrefix (res_Path r) ''/''"
    using assms unfolding resource_ok_def anchored_def by blast
  with assms(1) have eq: "res_Path r = ''/'' @ Join (walk (res_Path r)) ''/''"
    unfolding resource_ok_def by (elim conjE mp)
  show thesis
  proof (cases "walk (res_Path r) = []")
    case True
    from eq have "res_Path r = ''/''" unfolding True by simp
    then show thesis using True by (rule root)
  next
    case False
    from eq have "res_Path r = CHR ''/'' # Join (walk (res_Path r)) ''/''" by (simp only: append.simps)
    then show thesis using False walk_proper [of "res_Path r"] by (intro path [of "walk (res_Path r)"]) simp_all
  qed
qed

definition below :: "resource \<Rightarrow> bytes" where
  "below e = (if walk (res_Path e) = [] then [] else Join (walk (res_Path e)) ''/'' @ ''/'')"

lemma trimmed_key:
  assumes "resource_ok e" "anchored e"
  shows "TrimSuffix (scopeKey e) ''/'' @ ''/'' =
    res_Scheme e @ CHR '':'' # ''//'' @ authority e @ CHR ''/'' # below e"
  using assms
proof (cases rule: path_cases)
  case bare
  have "last (authority e) \<noteq> CHR ''/''"
    using authority_no_slash [OF assms(1)] last_in_set [OF bare(2)] by metis
  with bare have "last (scopeKey e) \<noteq> CHR ''/''" by (simp add: scopeKey_eq)
  then have "\<not> suffix ''/'' (scopeKey e)" by (auto simp: suffix_def)
  with bare show ?thesis by (simp add: TrimSuffix_other below_def scopeKey_eq)
next
  case root
  then have "scopeKey e = (res_Scheme e @ CHR '':'' # ''//'' @ authority e) @ ''/''"
    by (simp add: scopeKey_eq)
  with root show ?thesis unfolding below_def by (simp only: TrimSuffix_append) simp
next
  case (path ws)
  then have "last ws \<in> set ws" by simp
  with path have l: "last ws \<noteq> []" "CHR ''/'' \<notin> set (last ws)"
    by (auto simp: proper_seg_def)
  with path Join_last [of ws "''/''"] have "Join ws ''/'' \<noteq> [] \<and> last (Join ws ''/'') \<noteq> CHR ''/''"
    by (metis last_in_set)
  then have "last (scopeKey e) \<noteq> CHR ''/''" using path by (simp add: scopeKey_eq)
  then have "\<not> suffix ''/'' (scopeKey e)" by (auto simp: suffix_def)
  with path show ?thesis by (simp add: TrimSuffix_other below_def scopeKey_eq)
qed

lemma below_prefix:
  assumes "resource_ok e" "anchored e" "resource_ok r" "anchored r"
  shows "prefix (CHR ''/'' # below e) (res_Path r) \<longleftrightarrow>
    res_Path r \<noteq> [] \<and>
    (walk (res_Path e) = [] \<or> strict_prefix (walk (res_Path e)) (walk (res_Path r)))"
  using assms(3,4)
proof (cases rule: path_cases)
  case root
  then show ?thesis by (auto simp: below_def)
next
  case (path ws)
  with walk_proper [of "res_Path e"] Join_prefix [of "walk (res_Path e)" ws]
  show ?thesis by (auto simp: below_def)
qed simp

lemma key_within_iff:
  assumes "resource_ok e" "anchored e" "resource_ok r" "anchored r"
  shows "key_within (scopeKey r) (scopeKey e) \<longleftrightarrow> inside e r \<and> \<not> (res_Path r = [] \<and> res_Path e = ''/'')"
proof -
  have "prefix (res_Scheme e @ CHR '':'' # ''//'' @ authority e @ CHR ''/'' # below e) (scopeKey r) \<longleftrightarrow>
      res_Scheme e = res_Scheme r \<and> authority e = authority r \<and>
      prefix (CHR ''/'' # below e) (res_Path r)" (is "?p \<longleftrightarrow> ?q")
  proof
    assume ?p
    then obtain z where "scopeKey r =
        res_Scheme e @ CHR '':'' # ''//'' @ authority e @ CHR ''/'' # below e @ z"
      by (auto simp: prefix_def)
    from scheme_unique [OF anchored_parts(1) [OF assms(3,4)] anchored_parts(1) [OF assms(1,2)]
        this [unfolded scopeKey_eq]]
    have s: "res_Scheme r = res_Scheme e"
      and "authority r @ res_Path r = authority e @ CHR ''/'' # below e @ z" by simp_all
    then have "prefix (authority e @ CHR ''/'' # below e) (authority r @ res_Path r)"
      by (simp add: prefix_def)
    with assms anchored_parts(2) [OF assms(3,4)]
    have "authority e = authority r \<and> prefix (CHR ''/'' # below e) (res_Path r)"
      by (intro head_prefix) (auto simp: authority_no_slash)
    with s show ?q by simp
  qed (auto simp: scopeKey_eq prefix_def)
  moreover have "res_Path e = res_Path r \<or> prefix (CHR ''/'' # below e) (res_Path r) \<longleftrightarrow>
      prefix (walk (res_Path e)) (walk (res_Path r)) \<and> \<not> (res_Path r = [] \<and> res_Path e = ''/'')"
    using assms(1,2)
  proof (cases rule: path_cases)
    case e: (path ws)
    from assms(3,4) show ?thesis
    proof (cases rule: path_cases)
      case r: (path us)
      have "res_Path e = res_Path r \<longleftrightarrow> ws = us" using e(1,2) r(1,2) by metis
      with e(2,3) r(1,2) show ?thesis
        unfolding below_prefix [OF assms] e(2) r(2) by (auto simp: strict_prefix_def)
    next
      case bare
      with e(1-3) show ?thesis unfolding below_prefix [OF assms] e(2) bare(3) by simp
    next
      case root
      from e(2,3) root have "res_Path e \<noteq> res_Path r" by metis
      with e(3) root(1) show ?thesis unfolding below_prefix [OF assms] e(2) root(2) by simp
    qed
  next
    case bare
    then show ?thesis unfolding below_prefix [OF assms] bare(3) by auto
  next
    case root
    then show ?thesis unfolding below_prefix [OF assms] root(2) by auto
  qed
  ultimately show ?thesis
    unfolding key_within_def HasPrefix_iff trimmed_key [OF assms(1,2)] key_eq_iff [OF assms(1,3,2,4)]
      inside_def by blast
qed

lemma scope_ok_entry: "scope_ok s \<Longrightarrow> e \<in> set (sc_entries s) \<Longrightarrow> resource_ok e \<and> anchored e"
  by (auto simp: scope_ok_def list_all_iff resource_ok_ParseResource)

lemma anchored_contained:
  assumes "NewScope decls = Inr s" and "anchored (ParseResource raw)"
  shows "Contains s (ParseResource raw) \<longleftrightarrow>
    (\<exists>d \<in> set decls. inside (ParseResource d) (ParseResource raw) \<and>
      \<not> (res_Path (ParseResource raw) = [] \<and> res_Path (ParseResource d) = ''/''))"
proof -
  have "sc_entries s = map ParseResource decls"
    using assms(1) by (simp add: NewScope_def add_entries_Inr)
  moreover have "\<not> Empty (ParseResource raw)"
    using anchored_parts(3) resource_ok_ParseResource assms(2) by blast
  moreover have "key_within (scopeKey (ParseResource raw)) (scopeKey e) \<longleftrightarrow>
      inside e (ParseResource raw) \<and> \<not> (res_Path (ParseResource raw) = [] \<and> res_Path e = ''/'')"
    if "e \<in> set (sc_entries s)" for e
    using scope_ok_entry [OF NewScope_ok [OF assms(1)] that] assms(2)
    by (intro key_within_iff) (auto simp: resource_ok_ParseResource)
  ultimately show ?thesis by (auto simp: Contains_def list_ex_iff)
qed

section \<open>Relative targets\<close>

text \<open>A relative target has no host, and its key starts with \<open>file://\<close> and no separator.\<close>

lemma relative_volume:
  assumes "\<not> anchored (ParseResource raw)" "res_Path (ParseResource raw) \<noteq> []"
    "volumeOf (ParseResource raw) = []"
  shows "res_Root (ParseResource raw) = firstSegment (res_Path (ParseResource raw))"
proof (cases "TrimSpace raw = []")
  case True
  then show ?thesis
    using assms by (simp add: ParseResource_def zero_resource_def)
next
  case False
  let ?p = "ReplaceByte (TrimSpace raw) CHR 0x5C ''/''"
  obtain d q where d: "split_drive ?p = (d, q)" by (cases "split_drive ?p") auto
  show ?thesis
  proof (cases "\<exists>u. Parse_url (TrimSpace raw) = Some u \<and> url_Scheme u \<noteq> [] \<and> length (url_Scheme u) > 1")
    case True
    then obtain u where u: "Parse_url (TrimSpace raw) = Some u" "url_Scheme u \<noteq> []"
      "length (url_Scheme u) > 1" by blast
    from Parse_url_wf [OF u(1,2)] assms False u show ?thesis
      by (auto simp: ParseResource_def Let_def anchored_def cleanPath_rooted_iff split: if_splits)
  next
    case no: False
    then have eq: "ParseResource raw = \<lparr>res_Raw = raw, res_Scheme = ''file'', res_Host = [],
        res_Path = cleanPath q, res_Dir = dirOf (cleanPath q),
        res_Root = (if d \<noteq> [] then d else firstSegment (cleanPath q))\<rparr>"
      using False d by (auto simp: ParseResource_def Let_def split: option.split)
    have "d = []"
    proof (rule ccontr)
      assume "d \<noteq> []"
      with drive_shape [OF d] obtain x where "d = [x, CHR '':'']" "is_upper x" by blast
      with assms(3) eq show False by (simp add: volumeOf_def isLetter_iff is_letter_def)
    qed
    with eq show ?thesis by simp
  qed
qed

lemma firstSegment_drive:
  "is_letter x \<Longrightarrow> firstSegment (x # CHR '':'' # CHR ''/'' # p) = [x, CHR '':'']"
  using letter_no_slash [of x] by (auto simp: firstSegment_def TrimPrefix_def HasPrefix_def Let_def)

text \<open>
  A relative file target is never inside a working set of local directories: the only
  entries whose key can match it are \<open>file\<close> URIs with a host. A crafted or an accidental
  relative path cannot pass for an absolute one.\<close>

lemma relative_not_contained:
  assumes "NewScope decls = Inr s" "\<not> anchored (ParseResource raw)"
    and "\<forall>e \<in> set (sc_entries s). \<not> (res_Scheme e = ''file'' \<and> res_Host e \<noteq> [])"
  shows "\<not> Contains s (ParseResource raw)"
proof
  let ?r = "ParseResource raw"
  assume "Contains s ?r"
  then obtain e where e: "e \<in> set (sc_entries s)" "key_within (scopeKey ?r) (scopeKey e)"
    and ne: "\<not> Empty ?r"
    by (auto simp: Contains_def list_ex_iff split: if_splits)
  from scope_ok_entry [OF NewScope_ok [OF assms(1)] e(1)] have oke: "resource_ok e" "anchored e" by auto
  have r: "res_Host ?r = []" "res_Path ?r \<noteq> []" "\<not> HasPrefix (res_Path ?r) ''/''" "res_Scheme ?r = ''file''"
    using assms(2) ne resource_ok_ParseResource [of raw] by (auto simp: anchored_def Empty_def resource_ok_def)
  have pre: "prefix (res_Scheme e @ CHR '':'' # ''//'' @ authority e @ CHR ''/'' # below e) (scopeKey ?r)
      \<or> scopeKey ?r = scopeKey e"
    using e(2) by (auto simp: key_within_def HasPrefix_iff trimmed_key [OF oke])
  have "\<exists>z. scopeKey ?r = res_Scheme e @ CHR '':'' # ''//'' @ authority e @ z \<and>
      (z = [] \<or> hd z = CHR ''/'')"
    using pre anchored_parts(2) [OF oke] by (auto simp: scopeKey_eq prefix_def)
  then obtain z where z: "scopeKey ?r = res_Scheme e @ CHR '':'' # ''//'' @ authority e @ z"
    "z = [] \<or> hd z = CHR ''/''" by blast
  have "scheme_ok (res_Scheme ?r)" by (simp add: r(4) scheme_ok_def)
  from scheme_unique [OF this anchored_parts(1) [OF oke] z(1) [unfolded scopeKey_eq [of ?r]]]
  have "res_Scheme e = ''file''" and az: "volumeOf ?r @ res_Path ?r = authority e @ z"
    by (simp_all add: r authority_def)
  with assms(3) e(1) have "res_Host e = []" by blast
  then have vz: "volumeOf ?r @ res_Path ?r = volumeOf e @ z" using az by (simp add: authority_def)
  have ze: "z \<noteq> [] \<and> hd z = CHR ''/''"
  proof -
    have "res_Path e \<noteq> []" using oke(2) \<open>res_Host e = []\<close> by (auto simp: anchored_def HasPrefix_def)
    with pre z(1) have "z \<noteq> []" by (auto simp: scopeKey_eq prefix_def)
    with z(2) show ?thesis by blast
  qed
  show False
  proof (cases "volumeOf ?r = []")
    case True
    show False
    proof (cases "volumeOf e = []")
      case ve: True
      with True vz ze r(3) show False by (simp add: rooted_hd)
    next
      case False
      with volumeOf_shape [of e] obtain x where x: "volumeOf e = [x, CHR '':'']" "is_letter x" by blast
      obtain z' where "z = CHR ''/'' # z'" using ze by (cases z) auto
      with x True vz have "res_Path ?r = x # CHR '':'' # CHR ''/'' # z'" by simp
      moreover have "res_Root ?r = firstSegment (res_Path ?r)"
        using relative_volume assms(2) r(2) True by blast
      ultimately have "volumeOf ?r \<noteq> []"
        using x(2) by (simp add: volumeOf_def firstSegment_drive isLetter_iff)
      with True show False by simp
    qed
  next
    case False
    with volumeOf_shape [of ?r] obtain y where y: "volumeOf ?r = [y, CHR '':'']" "is_letter y" by blast
    with volumeOf_shape [of e] vz ze r(3) letter_no_slash [OF y(2)] show False
      by (auto simp: rooted_hd)
  qed
qed

text \<open>
  C8: Against a working set that was accepted, a target that names a fixed place is contained
  exactly when some entry has its scheme and its host or volume and the entry's path elements
  are an initial part of the target's, but for one case: a URL without a path is not contained in an
  entry for the root page of its host. So containment is aligned to path elements, and no
  traversal in the raw text can move a target inside. Any other target is relative, and is
  contained in no entry except, by coincidence of their keys, a \<open>file\<close> URI with a host.\<close>

theorem Contains_is_inside:
  assumes "NewScope decls = Inr s"
  shows "if anchored (ParseResource raw)
    then Contains s (ParseResource raw) \<longleftrightarrow>
      (\<exists>d \<in> set decls. inside (ParseResource d) (ParseResource raw) \<and>
        \<not> (res_Path (ParseResource raw) = [] \<and> res_Path (ParseResource d) = ''/''))
    else Contains s (ParseResource raw) \<longrightarrow>
      (\<exists>d \<in> set decls. res_Scheme (ParseResource d) = ''file'' \<and> res_Host (ParseResource d) \<noteq> [])"
proof -
  have "sc_entries s = map ParseResource decls"
    using assms by (simp add: NewScope_def add_entries_Inr)
  then show ?thesis
    using anchored_contained [OF assms, of raw] relative_not_contained [OF assms, of raw] by auto
qed

lemma Contains_is_inside_witness:
  "Contains \<lparr>sc_entries = [ParseResource ''/srv/data/'']\<rparr> (ParseResource ''/srv/./data/f01'') \<and>
   \<not> Contains \<lparr>sc_entries = [ParseResource ''/srv/data/'']\<rparr> (ParseResource ''/srv/data/../database'') \<and>
   \<not> Contains \<lparr>sc_entries = [ParseResource ''/srv/data/'']\<rparr> (ParseResource ''srv/data/f01'')"
proof -
  let ?s = "\<lparr>sc_entries = [ParseResource ''/srv/data/'']\<rparr>" and ?d = "ParseResource ''/srv/data/''"
  have n: "NewScope [''/srv/data/''] = Inr ?s" by code_simp
  have "anchored (ParseResource ''/srv/./data/f01'')" "anchored (ParseResource ''/srv/data/../database'')"
    "\<not> anchored (ParseResource ''srv/data/f01'')" by code_simp+
  moreover have "inside ?d (ParseResource ''/srv/./data/f01'')" "\<not> inside ?d (ParseResource ''/srv/data/../database'')"
    "res_Path (ParseResource ''/srv/./data/f01'') \<noteq> []" "res_Host ?d = []" by code_simp+
  ultimately show ?thesis
    using Contains_is_inside [OF n, of "''/srv/./data/f01''"] Contains_is_inside [OF n, of "''/srv/data/../database''"]
      Contains_is_inside [OF n, of "''srv/data/f01''"] by simp
qed

text \<open>A site and its root page are one place, and the first is not inside the second.\<close>

lemma site_outside_its_root_page:
  "NewScope [''https://h.x/''] = Inr \<lparr>sc_entries = [ParseResource ''https://h.x/'']\<rparr> \<and>
   \<not> Contains \<lparr>sc_entries = [ParseResource ''https://h.x/'']\<rparr> (ParseResource ''https://h.x'') \<and>
   Contains \<lparr>sc_entries = [ParseResource ''https://h.x'']\<rparr> (ParseResource ''https://h.x/'')"
  by code_simp

text \<open>The exception for relative targets is real: the key of a relative path and that of a \<open>file\<close> URI with a host
  can agree.\<close>

lemma relative_file_host_collision:
  "NewScope [''file://srv''] = Inr \<lparr>sc_entries = [ParseResource ''file://srv'']\<rparr> \<and>
   Contains \<lparr>sc_entries = [ParseResource ''file://srv'']\<rparr> (ParseResource ''srv/x'')"
  by code_simp

section \<open>Escapes\<close>

lemma Escaped_not_contained: "Escaped s r \<Longrightarrow> \<not> Contains s r \<and> \<not> Empty r"
  by (simp add: Escaped_def split: if_splits)

text \<open>A traversal reported as an escape is outside, whatever its text reads as.\<close>

lemma escape_example:
  "Escaped \<lparr>sc_entries = [ParseResource ''/srv'']\<rparr> (ParseResource ''/srv/../etc/shadow'')"
  by code_simp

end
