(* ===== verification/Targets.thy ===== *)
theory Targets
  imports Scope GoJson
begin

text \<open>
  What a call's arguments touch: target and location extraction of
  \<open>internal/policy/policy.go\<close>. A decoded argument is a \<open>json\<close> value in which an object has
  distinct keys; the \<open>map[string]any\<close> of the arguments is the list of its members, \<open>None\<close>
  when it is nil. The set of results is a \<open>map[string]struct{}\<close>. The paths a call's arguments
  name are stated apart from the extraction (\<open>argument_paths\<close>) and shown to be extracted.
\<close>

section \<open>Definitions\<close>

definition targetKeys :: "bytes list" where
  "targetKeys =
     [''path'', ''file'', ''filename'', ''file_path'', ''uri'', ''url'', ''host'', ''hostname'',
      ''resource'', ''target'', ''directory'', ''dir'', ''query'', ''table'', ''key'', ''bucket'',
      ''paths'', ''files'', ''filenames'', ''file_paths'', ''uris'', ''urls'', ''hosts'', ''hostnames'',
      ''resources'', ''targets'', ''directories'', ''dirs'', ''notebook_path'']"

definition locationKeys :: "bytes list" where
  "locationKeys =
     [''path'', ''file'', ''filename'', ''file_path'', ''uri'', ''url'', ''resource'', ''directory'', ''dir'',
      ''paths'', ''files'', ''filenames'', ''file_paths'', ''uris'', ''urls'', ''resources'', ''directories'',
      ''dirs'', ''notebook_path'']"

definition isASCIILetter :: "char \<Rightarrow> bool" where
  "isASCIILetter b \<longleftrightarrow> (CHR ''a'' \<le> b \<and> b \<le> CHR ''z'') \<or> (CHR ''A'' \<le> b \<and> b \<le> CHR ''Z'')"

definition looksLikeLocation :: "bytes \<Rightarrow> bool" where
  "looksLikeLocation v =
     (let v = TrimSpace v in
      if HasPrefix v ''/'' \<or> HasPrefix v [CHR 0x5C] \<or> HasPrefix v ''~'' then True
      else if length v \<ge> 3 \<and> v ! 1 = CHR '':'' \<and> (v ! 2 = CHR ''/'' \<or> v ! 2 = CHR 0x5C) \<and> isASCIILetter (v ! 0)
      then True
      else case Cut v ''://'' of
        None \<Rightarrow> False
      | Some (scheme, _) \<Rightarrow> length scheme > 1 \<and> \<not> ContainsAny scheme [CHR 0x20, CHR 0x09, CHR ''/''])"

definition maxDepth :: nat where
  "maxDepth = 4"

type_synonym keep = "bytes \<Rightarrow> bytes \<Rightarrow> bool"

fun collect :: "keep \<Rightarrow> json \<Rightarrow> nat \<Rightarrow> bytes set"
  and collect_members :: "keep \<Rightarrow> (bytes \<times> json) list \<Rightarrow> nat \<Rightarrow> bytes set"
  and collect_items :: "keep \<Rightarrow> json list \<Rightarrow> nat \<Rightarrow> bytes set"
  and collectStrings :: "keep \<Rightarrow> bytes \<Rightarrow> json list \<Rightarrow> nat \<Rightarrow> bytes set" where
  "collect keep v depth =
     (if depth > maxDepth then {}
      else case v of
        JObj ms \<Rightarrow> collect_members keep ms depth
      | JArr es \<Rightarrow> collect_items keep es (depth + 1)
      | _ \<Rightarrow> {})"
| "collect_members keep [] depth = {}"
| "collect_members keep ((k, v) # ms) depth =
     (let key = ToLower k in
      (if key \<in> set targetKeys then
         (case v of
           JStr s \<Rightarrow> if s \<noteq> [] \<and> keep key s then {s} else {}
         | JArr items \<Rightarrow> collectStrings keep key items (depth + 1)
         | _ \<Rightarrow> collect keep v (depth + 1))
       else collect keep v (depth + 1))) \<union> collect_members keep ms depth"
| "collect_items keep [] depth = {}"
| "collect_items keep (e # es) depth = collect keep e depth \<union> collect_items keep es depth"
| "collectStrings keep key [] depth = {}"
| "collectStrings keep key (e # es) depth =
     (if depth > maxDepth then {}
      else
        (case e of
          JStr s \<Rightarrow> if s \<noteq> [] \<and> keep key s then {s} else {}
        | _ \<Rightarrow> collect keep e depth) \<union> collectStrings keep key es depth)"

declare collect.simps [simp del]

type_synonym args = "(bytes \<times> json) list option"

definition extract_sorted :: "args \<Rightarrow> keep \<Rightarrow> bytes list" where
  "extract_sorted args keep =
     sorted_list_of_set (case args of None \<Rightarrow> {} | Some ms \<Rightarrow> collect keep (JObj ms) 0)"

definition ExtractTargets :: "args \<Rightarrow> bytes list" where
  "ExtractTargets args = extract_sorted args (\<lambda>_ _. True)"

definition ExtractLocations :: "args \<Rightarrow> bytes list" where
  "ExtractLocations args = extract_sorted args (\<lambda>key v. key \<in> set locationKeys \<or> looksLikeLocation v)"

section \<open>What is extracted\<close>

lemma collect_filter:
  "collect keep v d \<subseteq> collect (\<lambda>_ _. True) v d"
  "collect_members keep ms d \<subseteq> collect_members (\<lambda>_ _. True) ms d"
  "collect_items keep es d \<subseteq> collect_items (\<lambda>_ _. True) es d"
  "collectStrings keep key es d \<subseteq> collectStrings (\<lambda>_ _. True) key es d"
proof (induction keep v d and keep ms d and keep es d and keep key es d
    rule: collect_collect_members_collect_items_collectStrings.induct)
  case (1 keep v d)
  then show ?case by (cases v) (auto simp: collect.simps)
next
  case (3 keep k v ms d)
  then show ?case by (cases v) (auto simp: Let_def split: if_splits)
next
  case (7 keep key e es d)
  then show ?case by (cases e) (auto split: if_splits)
qed auto

lemma collect_keeps:
  "(\<And>key. keep key s) \<Longrightarrow> s \<in> collect (\<lambda>_ _. True) v d \<Longrightarrow> s \<in> collect keep v d"
  "(\<And>key. keep key s) \<Longrightarrow> s \<in> collect_members (\<lambda>_ _. True) ms d \<Longrightarrow> s \<in> collect_members keep ms d"
  "(\<And>key. keep key s) \<Longrightarrow> s \<in> collect_items (\<lambda>_ _. True) es d \<Longrightarrow> s \<in> collect_items keep es d"
  "(\<And>key. keep key s) \<Longrightarrow> s \<in> collectStrings (\<lambda>_ _. True) key es d \<Longrightarrow> s \<in> collectStrings keep key es d"
proof (induction keep v d and keep ms d and keep es d and keep key es d
    rule: collect_collect_members_collect_items_collectStrings.induct)
  case (1 keep v d)
  then show ?case by (cases v) (auto simp: collect.simps split: if_splits)
next
  case (3 keep k v ms d)
  then show ?case by (cases v) (auto simp: Let_def split: if_splits)
next
  case (7 keep key e es d)
  then show ?case by (cases e) (auto split: if_splits)
qed auto

lemma collect_finite:
  "finite (collect keep v d) \<and> [] \<notin> collect keep v d"
  "finite (collect_members keep ms d) \<and> [] \<notin> collect_members keep ms d"
  "finite (collect_items keep es d) \<and> [] \<notin> collect_items keep es d"
  "finite (collectStrings keep key es d) \<and> [] \<notin> collectStrings keep key es d"
proof (induction keep v d and keep ms d and keep es d and keep key es d
    rule: collect_collect_members_collect_items_collectStrings.induct)
  case (1 keep v d)
  then show ?case by (cases v) (auto simp: collect.simps)
next
  case (3 keep k v ms d)
  then show ?case by (cases v) (auto simp: Let_def)
next
  case (7 keep key e es d)
  then show ?case by (cases e) auto
qed auto

lemma set_extract_sorted: "set (extract_sorted args keep) = (case args of None \<Rightarrow> {} | Some ms \<Rightarrow> collect keep (JObj ms) 0)"
  using collect_finite(1) by (auto simp: extract_sorted_def split: option.splits)

text \<open>Members in any order: Go iterates a map in an order it randomises.\<close>

lemma collect_members_eq:
  "collect_members keep ms d = (\<Union>m \<in> set ms. collect_members keep [m] d)"
  by (induction ms) (auto simp: collect_members.simps(2))

text \<open>
  Target extraction is deterministic: the result is strictly sorted, holds no empty string,
  and does not depend on the order in which the argument map is iterated.\<close>

theorem ExtractTargets_deterministic:
  assumes "set ms = set ms'"
  shows "ExtractTargets (Some ms) = ExtractTargets (Some ms') \<and>
    sorted (ExtractTargets (Some ms)) \<and> distinct (ExtractTargets (Some ms)) \<and>
    [] \<notin> set (ExtractTargets (Some ms))"
proof -
  have "collect_members keep ms d = collect_members keep ms' d" for keep d
    using assms by (subst (1 2) collect_members_eq) simp
  then have "ExtractTargets (Some ms) = ExtractTargets (Some ms')"
    by (simp add: ExtractTargets_def extract_sorted_def collect.simps)
  moreover have "[] \<notin> set (ExtractTargets (Some ms))"
    using collect_finite(1) by (auto simp: ExtractTargets_def set_extract_sorted)
  ultimately show ?thesis by (simp add: ExtractTargets_def extract_sorted_def)
qed

lemma ExtractTargets_deterministic_witness:
  "ExtractTargets (Some [(''table'', JStr ''t''), (''Paths'', JArr [JStr ''/b'', JStr ''/a''])]) =
   [''/a'', ''/b'', ''t''] \<and>
   ExtractTargets (Some [(''Paths'', JArr [JStr ''/b'', JStr ''/a'']), (''table'', JStr ''t'')]) =
   [''/a'', ''/b'', ''t'']"
proof -
  have e: "ExtractTargets (Some [(''table'', JStr ''t''), (''Paths'', JArr [JStr ''/b'', JStr ''/a''])]) =
   [''/a'', ''/b'', ''t'']" by code_simp
  have "set [(''table'', JStr ''t''), (''Paths'', JArr [JStr ''/b'', JStr ''/a''])] =
    set [(''Paths'', JArr [JStr ''/b'', JStr ''/a'']), (''table'', JStr ''t'')]" by auto
  from ExtractTargets_deterministic [OF this] e show ?thesis by simp
qed

text \<open>
  Locations are targets, and no value that is plainly a place can be moved out of the scope
  check by the key it is passed under: a target that looks like a location is one whatever its
  key.\<close>

theorem locations_cover_plain_places:
  "set (ExtractLocations args) \<subseteq> set (ExtractTargets args) \<and>
   set (filter looksLikeLocation (ExtractTargets args)) \<subseteq> set (ExtractLocations args)"
proof (cases args)
  case None
  then show ?thesis by (simp add: ExtractLocations_def ExtractTargets_def extract_sorted_def)
next
  case (Some ms)
  let ?keep = "\<lambda>key v. key \<in> set locationKeys \<or> looksLikeLocation v"
  have "collect ?keep (JObj ms) 0 \<subseteq> collect (\<lambda>_ _. True) (JObj ms) 0"
    by (rule collect_filter(1))
  moreover have "s \<in> collect ?keep (JObj ms) 0" if "looksLikeLocation s" "s \<in> collect (\<lambda>_ _. True) (JObj ms) 0" for s
    using that(1) by (intro collect_keeps(1) [OF _ that(2)]) simp
  ultimately show ?thesis
    by (auto simp: ExtractLocations_def ExtractTargets_def set_extract_sorted Some)
qed

text \<open>Trimming takes off white space only.\<close>

lemma leading_take: "leading_width encs s \<noteq> 0 \<Longrightarrow> \<exists>e \<in> set encs. take (leading_width encs s) s = e"
proof -
  assume "leading_width encs s \<noteq> 0"
  then obtain e where e: "find (HasPrefix s) encs = Some e" by (auto simp: leading_width_def split: option.splits)
  then have "e \<in> set encs" "HasPrefix s e" by (auto simp: find_Some_iff)
  then show ?thesis using e by (auto simp: leading_width_def HasPrefix_def)
qed

lemma strip_leading_split:
  "\<exists>u. s = u @ strip_leading encs s \<and> (\<forall>c \<in> set u. \<exists>e \<in> set encs. c \<in> set e)"
proof (induction encs s rule: strip_leading.induct)
  case (1 encs s)
  show ?case
  proof (cases "s = [] \<or> leading_width encs s = 0")
    case True
    then show ?thesis by (subst strip_leading.simps) simp
  next
    case False
    with 1 obtain u where u: "drop (leading_width encs s) s = u @ strip_leading encs (drop (leading_width encs s) s)"
      "\<forall>c \<in> set u. \<exists>e \<in> set encs. c \<in> set e" by blast
    from False leading_take obtain e where e: "e \<in> set encs" "take (leading_width encs s) s = e" by blast
    have "strip_leading encs s = strip_leading encs (drop (leading_width encs s) s)"
      using False by (subst strip_leading.simps) simp
    then have "s = (e @ u) @ strip_leading encs s" using u(1) e(2) by (metis append.assoc append_take_drop_id)
    with e(1) u(2) show ?thesis by (intro exI [of _ "e @ u"]) auto
  qed
qed

lemma find_None_filter: "\<forall>x \<in> set xs. \<not> P x \<Longrightarrow> find P xs = None"
  by (simp add: find_None_iff)

lemma TrimSpace_head:
  assumes "\<forall>e \<in> set space_encodings. x \<notin> set e"
  shows "HasPrefix (TrimSpace (x # t)) [x]"
proof -
  let ?s = "x # t"
  have "\<not> HasPrefix ?s e" if "e \<in> set space_encodings" for e
    using that assms by (cases e) (auto simp: HasPrefix_iff space_encodings_def)
  then have "leading_width space_encodings ?s = 0"
    by (simp add: leading_width_def find_None_filter)
  then have l: "strip_leading space_encodings ?s = ?s" by (subst strip_leading.simps) simp
  define r where "r = strip_leading (map rev space_encodings) (rev ?s)"
  obtain u where u: "rev ?s = u @ r" "\<forall>c \<in> set u. \<exists>e \<in> set (map rev space_encodings). c \<in> set e"
    unfolding r_def using strip_leading_split by blast
  have n: "x \<notin> set u" using u(2) assms by auto
  have e: "rev t @ [x] = u @ r" using u(1) by simp
  have "r \<noteq> []"
  proof
    assume "r = []"
    with e have "u = rev t @ [x]" by simp
    with n show False by simp
  qed
  then obtain y where "r = y @ [x]" using e by (cases r rule: rev_cases) auto
  moreover have "TrimSpace ?s = rev r" by (simp only: TrimSpace_def l r_def)
  ultimately show ?thesis by (simp add: HasPrefix_iff)
qed

lemma TrimSpace_rooted: "HasPrefix s ''/'' \<Longrightarrow> HasPrefix (TrimSpace s) ''/''"
  using TrimSpace_head [of "CHR ''/''"] by (auto simp: HasPrefix_iff prefix_def space_encodings_def)

lemma TrimSpace_home: "HasPrefix s ''~'' \<Longrightarrow> HasPrefix (TrimSpace s) ''~''"
  using TrimSpace_head [of "CHR ''~''"] by (auto simp: HasPrefix_iff prefix_def space_encodings_def)

lemma rooted_is_location: "HasPrefix v ''/'' \<Longrightarrow> looksLikeLocation v"
  using TrimSpace_rooted [of v] by (simp add: looksLikeLocation_def Let_def)

lemma home_is_location: "HasPrefix v ''~'' \<Longrightarrow> looksLikeLocation v"
  using TrimSpace_home [of v] by (simp add: looksLikeLocation_def Let_def)

section \<open>The paths a call names\<close>

text \<open>A value reached from another by a number of steps, each into a member or an item.\<close>

inductive within :: "nat \<Rightarrow> json \<Rightarrow> json \<Rightarrow> bool" where
  here: "within 0 v v"
| member: "within n v (JObj ms) \<Longrightarrow> (k, w) \<in> set ms \<Longrightarrow> within (Suc n) v w"
| item: "within n v (JArr es) \<Longrightarrow> w \<in> set es \<Longrightarrow> within (Suc n) v w"

text \<open>A path is named by a non-empty string under a key that stands for a place, or under any key
  that stands for a target when it starts at the root or the home folder, alone or in a list, within the depth that is looked at.\<close>

definition named_by :: "bytes \<Rightarrow> bytes \<Rightarrow> bool" where
  "named_by k p \<longleftrightarrow> p \<noteq> [] \<and> (ToLower k \<in> set locationKeys \<or> ToLower k \<in> set targetKeys \<and> (prefix ''/'' p \<or> prefix ''~'' p))"

definition argument_paths :: "(bytes \<times> json) list \<Rightarrow> bytes set" where
  "argument_paths input =
     {p. \<exists>n ms k. within n (JObj input) (JObj ms) \<and> named_by k p \<and>
        (n \<le> 4 \<and> (k, JStr p) \<in> set ms \<or> n \<le> 3 \<and> (\<exists>es. (k, JArr es) \<in> set ms \<and> JStr p \<in> set es))}"

lemma collect_deeper:
  "collect keep v (Suc d) \<subseteq> collect keep v d"
  "collect_members keep ms (Suc d) \<subseteq> collect_members keep ms d"
  "collect_items keep es (Suc d) \<subseteq> collect_items keep es d"
  "collectStrings keep key es (Suc d) \<subseteq> collectStrings keep key es d"
proof (induction keep v d and keep ms d and keep es d and keep key es d
    rule: collect_collect_members_collect_items_collectStrings.induct)
  case (1 keep v d)
  then show ?case by (cases v) (auto simp: collect.simps split: if_splits)
next
  case (3 keep k v ms d)
  then show ?case by (cases v) (auto simp: Let_def split: if_splits)
next
  case (7 keep key e es d)
  then show ?case by (cases e) (auto split: if_splits)
qed auto

lemma collect_members_mem: "m \<in> set ms \<Longrightarrow> collect_members keep [m] d \<subseteq> collect_members keep ms d"
  by (subst (2) collect_members_eq) auto

lemma collect_items_mem: "e \<in> set es \<Longrightarrow> collect keep e d \<subseteq> collect_items keep es d"
  by (induction es) auto

lemma collect_items_strings:
  "d \<le> maxDepth \<Longrightarrow> collect_items keep es (Suc d) \<subseteq> collectStrings keep key es d"
proof (induction es)
  case (Cons e es)
  have "collect keep e (Suc d) \<subseteq> collect keep e d" by (rule collect_deeper(1))
  with Cons show ?case by (cases e) (auto simp: collect.simps)
qed simp

lemma collect_member:
  assumes "(k, w) \<in> set ms"
  shows "collect keep w (Suc d) \<subseteq> collect_members keep ms d"
proof -
  have "collect keep w (Suc d) \<subseteq> collect_members keep [(k, w)] d"
    using collect_items_strings [of "Suc d" keep _ "ToLower k"]
    by (cases w) (auto simp: collect.simps Let_def split: if_splits)
  with collect_members_mem [OF assms] show ?thesis by blast
qed

lemma collect_within:
  assumes "within n v w" "n \<le> maxDepth"
  shows "collect keep w n \<subseteq> collect keep v 0"
  using assms
proof (induction rule: within.induct)
  case (member n v ms k w)
  then have "collect_members keep ms n \<subseteq> collect keep v 0" by (simp add: collect.simps)
  with collect_member [OF member.hyps(2)] show ?case by blast
next
  case (item n v es w)
  then have "collect_items keep es (Suc n) \<subseteq> collect keep v 0" by (simp add: collect.simps)
  with collect_items_mem [OF item.hyps(2)] show ?case by blast
qed simp

lemma location_targets: "set locationKeys \<subseteq> set targetKeys"
  by (simp add: locationKeys_def targetKeys_def)

lemma named_by_kept:
  assumes "named_by k p"
  shows "ToLower k \<in> set targetKeys" "ToLower k \<in> set locationKeys \<or> looksLikeLocation p"
  using assms location_targets rooted_is_location [of p] home_is_location [of p]
  by (auto simp: named_by_def HasPrefix_iff)

lemma string_member_collected:
  assumes "(k, JStr p) \<in> set ms" "ToLower k \<in> set targetKeys" "keep (ToLower k) p" "p \<noteq> []"
  shows "p \<in> collect_members keep ms d"
  using collect_members_mem [OF assms(1), of keep d] assms(2-4) by (auto simp: Let_def)

lemma string_item_collected:
  "JStr p \<in> set es \<Longrightarrow> keep key p \<Longrightarrow> p \<noteq> [] \<Longrightarrow> d \<le> maxDepth \<Longrightarrow> p \<in> collectStrings keep key es d"
  by (induction es) auto

lemma argument_paths_collected:
  "argument_paths ms \<subseteq> set (ExtractLocations (Some ms))"
proof
  fix p
  let ?keep = "\<lambda>key v. key \<in> set locationKeys \<or> looksLikeLocation v"
  assume "p \<in> argument_paths ms"
  then obtain n ms' k where w: "within n (JObj ms) (JObj ms')" and k: "named_by k p"
    and m: "n \<le> 4 \<and> (k, JStr p) \<in> set ms' \<or> n \<le> 3 \<and> (\<exists>es. (k, JArr es) \<in> set ms' \<and> JStr p \<in> set es)"
    by (auto simp: argument_paths_def)
  note kept = named_by_kept [OF k]
  have ne: "p \<noteq> []" using k by (simp add: named_by_def)
  have "p \<in> collect_members ?keep ms' n"
    using m
  proof (elim disjE conjE exE)
    assume "(k, JStr p) \<in> set ms'"
    with kept ne show ?thesis by (intro string_member_collected)
  next
    fix es assume e: "(k, JArr es) \<in> set ms'" "JStr p \<in> set es" and n: "n \<le> 3"
    have "p \<in> collectStrings ?keep (ToLower k) es (Suc n)"
      using kept(2) ne n by (intro string_item_collected [OF e(2)]) (auto simp: maxDepth_def)
    then have "p \<in> collect_members ?keep [(k, JArr es)] n" using kept(1) by (simp add: Let_def)
    with collect_members_mem [OF e(1)] show ?thesis by blast
  qed
  moreover have n: "n \<le> maxDepth" using m by (auto simp: maxDepth_def)
  ultimately have "p \<in> collect ?keep (JObj ms') n" by (simp add: collect.simps)
  with collect_within [OF w n] show "p \<in> set (ExtractLocations (Some ms))"
    by (auto simp: ExtractLocations_def set_extract_sorted)
qed


section \<open>Which places are recognised\<close>

text \<open>The reading of a target as a URI, which \<open>ParseResource\<close> tries first.\<close>

definition as_uri :: "bytes \<Rightarrow> url option" where
  "as_uri v =
     (case Parse_url (TrimSpace v) of
       Some u \<Rightarrow> if length (url_Scheme u) > 1 then Some u else None
     | None \<Rightarrow> None)"

lemma ParseResource_not_uri:
  assumes "as_uri v = None" "TrimSpace v \<noteq> []"
  shows "res_Host (ParseResource v) = [] \<and> res_Path (ParseResource v) =
    cleanPath (snd (split_drive (ReplaceByte (TrimSpace v) CHR 0x5C ''/'')))"
  using assms by (auto simp: ParseResource_def as_uri_def Let_def split: option.splits prod.splits if_splits)

lemma isASCIILetter_iff: "isASCIILetter c \<longleftrightarrow> isLetter c"
  by (simp add: isASCIILetter_def isLetter_def)

lemma ReplaceByte_Cons: "ReplaceByte (x # s) c d = (if x = c then d else [x]) @ ReplaceByte s c d"
  by (simp add: ReplaceByte_def)

lemma ReplaceByte_char_nth: "i < length s \<Longrightarrow> ReplaceByte s c [d] ! i = (if s ! i = c then d else s ! i)"
proof -
  have "ReplaceByte s c [d] = map (\<lambda>x. if x = c then d else x) s"
    by (induction s) (simp_all add: ReplaceByte_def)
  then show "i < length s \<Longrightarrow> ?thesis" by simp
qed

lemma ReplaceByte_char_length [simp]: "length (ReplaceByte s c [d]) = length s"
  by (induction s) (simp_all add: ReplaceByte_def)

text \<open>
  A file path that names a fixed place, POSIX or Windows, is always recognised as a
  location, so that it is checked against the workspace under whatever key it is passed.\<close>

theorem fixed_paths_look_like_locations:
  assumes "as_uri v = None" "anchored (ParseResource v)"
  shows "looksLikeLocation v"
proof -
  let ?t = "TrimSpace v" and ?p = "ReplaceByte (TrimSpace v) CHR 0x5C ''/''"
  have t: "?t \<noteq> []"
    using assms(2) by (auto simp: ParseResource_def anchored_def zero_resource_def HasPrefix_def)
  note r = ParseResource_not_uri [OF assms(1) t]
  have rooted: "HasPrefix (snd (split_drive ?p)) ''/''"
    using assms(2) r by (simp add: anchored_def cleanPath_rooted_iff)
  have hd: "?p ! i = (if ?t ! i = CHR 0x5C then CHR ''/'' else ?t ! i)" if "i < length ?t" for i
    using that by (rule ReplaceByte_char_nth)
  show ?thesis
  proof (cases "length ?p \<ge> 2 \<and> ?p ! 1 = CHR '':'' \<and> isLetter (?p ! 0)")
    case True
    then have "HasPrefix (drop 2 ?p) ''/''" using rooted by (simp add: split_drive_def)
    then obtain z where z: "drop 2 ?p = CHR ''/'' # z" by (cases "drop 2 ?p") (auto simp: HasPrefix_def)
    from arg_cong [OF z, of length] have "length ?t \<ge> 3" by simp
    moreover from z have "?p ! 2 = CHR ''/''" by (rule nth_via_drop)
    ultimately have "length ?t \<ge> 3 \<and> ?p ! 2 = CHR ''/''" by blast
    with True hd [of 0] hd [of 1] hd [of 2] t show ?thesis
      by (auto simp: looksLikeLocation_def Let_def isASCIILetter_iff isLetter_def split: if_splits)
  next
    case False
    then have "split_drive ?p = ([], ?p)" unfolding split_drive_def by (rule if_not_P)
    with rooted have "HasPrefix ?p ''/''" by simp
    with hd [of 0] t have "?t ! 0 = CHR ''/'' \<or> ?t ! 0 = CHR 0x5C"
      by (cases ?p) (auto simp: HasPrefix_def split: if_splits)
    with t have "HasPrefix ?t ''/'' \<or> HasPrefix ?t [CHR 0x5C]"
      by (cases ?t) (auto simp: HasPrefix_def)
    then show ?thesis by (auto simp: looksLikeLocation_def Let_def)
  qed
qed

lemma fixed_paths_look_like_locations_witness:
  "looksLikeLocation [CHR ''c'', CHR '':'', CHR 0x5C, CHR ''w'']"
proof (rule fixed_paths_look_like_locations)
  show "as_uri [CHR ''c'', CHR '':'', CHR 0x5C, CHR ''w''] = None" by code_simp
  show "anchored (ParseResource [CHR ''c'', CHR '':'', CHR 0x5C, CHR ''w''])" by code_simp
qed

text \<open>
  A file URI written with a single slash names an absolute path and is still not recognised
  as a location: passed under a key such as \<open>key\<close> or \<open>query\<close>, it is a target that no
  working set is checked against.\<close>

theorem single_slash_uri_escapes_scope_check:
  "res_Path (ParseResource ''file:/etc/shadow'') = ''/etc/shadow'' \<and>
   ExtractTargets (Some [(''key'', JStr ''file:/etc/shadow'')]) = [''file:/etc/shadow''] \<and>
   ExtractLocations (Some [(''key'', JStr ''file:/etc/shadow'')]) = []"
  by code_simp

end
