(* ===== verification/GoTime.thy ===== *)
theory GoTime
  imports GoStrings
begin

text \<open>
  \<open>time.ParseDuration\<close>: a signed sequence of decimal numbers with units. Durations are
  nanoseconds. The fraction of a number, which Go scales in floating point, is scaled exactly
  and rounded towards zero.
\<close>

fun leadingInt :: "nat \<Rightarrow> bytes \<Rightarrow> (nat \<times> bytes) option" where
  "leadingInt x [] = Some (x, [])"
| "leadingInt x (c # s) =
     (if \<not> is_digit c then Some (x, c # s)
      else if x > 2 ^ 63 div 10 then None
      else
        let y = x * 10 + (byte c - 48) in if y > 2 ^ 63 then None else leadingInt y s)"

fun leadingFraction :: "nat \<Rightarrow> nat \<Rightarrow> bool \<Rightarrow> bytes \<Rightarrow> nat \<times> nat \<times> bytes" where
  "leadingFraction x scale overflow [] = (x, scale, [])"
| "leadingFraction x scale overflow (c # s) =
     (if \<not> is_digit c then (x, scale, c # s)
      else if overflow then leadingFraction x scale True s
      else if x > (2 ^ 63 - 1) div 10 then leadingFraction x scale True s
      else
        let y = x * 10 + (byte c - 48)
        in if y > 2 ^ 63 then leadingFraction x scale True s else leadingFraction y (scale * 10) False s)"

definition unit_value :: "bytes \<Rightarrow> nat option" where
  "unit_value u =
     map_of [(''ns'', 1), (''us'', 1000), ([CHR 0xC2, CHR 0xB5, CHR ''s''], 1000),
       ([CHR 0xCE, CHR 0xBC, CHR ''s''], 1000), (''ms'', 1000000), (''s'', 1000000000),
       (''m'', 60000000000), (''h'', 3600000000000)] u"

text \<open>One number with its unit: its nanoseconds and the rest.\<close>

definition duration_term :: "bytes \<Rightarrow> (nat \<times> bytes) option" where
  "duration_term s =
     (if s = [] \<or> \<not> (hd s = CHR ''.'' \<or> is_digit (hd s)) then None
      else case leadingInt 0 s of
        None \<Rightarrow> None
      | Some (v, s1) \<Rightarrow>
        let pre = (length s1 \<noteq> length s);
            (f, scale, s2, post) =
              (if HasPrefix s1 ''.'' then
                 let (f, scale, r) = leadingFraction 0 1 False (drop 1 s1)
                 in (f, scale, r, length r \<noteq> length (drop 1 s1))
               else (0, 1, s1, False));
            u = takeWhile (\<lambda>c. \<not> (c = CHR ''.'' \<or> is_digit c)) s2;
            s3 = dropWhile (\<lambda>c. \<not> (c = CHR ''.'' \<or> is_digit c)) s2
        in if \<not> pre \<and> \<not> post then None
           else if u = [] then None
           else case unit_value u of
             None \<Rightarrow> None
           | Some n \<Rightarrow>
             if v > 2 ^ 63 div n then None
             else
               let w = v * n + (if f > 0 then f * n div scale else 0)
               in if f > 0 \<and> w > 2 ^ 63 then None else Some (w, s3))"

lemma leadingInt_le: "leadingInt x s = Some (y, r) \<Longrightarrow> length r \<le> length s"
  by (induction x s rule: leadingInt.induct) (auto simp: Let_def split: if_splits)

lemma leadingFraction_le: "leadingFraction x sc ov s = (y, sc', r) \<Longrightarrow> length r \<le> length s"
  by (induction x sc ov s rule: leadingFraction.induct)
    (auto simp: Let_def is_digit_def split: if_splits)

lemma duration_term_less:
  assumes "duration_term s = Some (d, r)"
  shows "length r < length s"
proof -
  obtain v s1 f sc s2 post where v: "leadingInt 0 s = Some (v, s1)"
    and f: "(if HasPrefix s1 ''.'' then let (f, scale, r) = leadingFraction 0 1 False (drop 1 s1)
        in (f, scale, r, length r \<noteq> length (drop 1 s1)) else (0, 1, s1, False)) = (f, sc, s2, post)"
    using assms unfolding duration_term_def
    by (cases "leadingInt 0 s"; cases "if HasPrefix (snd (the (leadingInt 0 s))) ''.'' then
        let (f, scale, r) = leadingFraction 0 1 False (drop 1 (snd (the (leadingInt 0 s))))
        in (f, scale, r, length r \<noteq> length (drop 1 (snd (the (leadingInt 0 s)))))
        else (0, 1, snd (the (leadingInt 0 s)), False)") (auto split: if_splits)
  have le: "length s1 \<le> length s" using leadingInt_le [OF v] .
  have le2: "length s2 \<le> length s1"
  proof (cases "HasPrefix s1 ''.''")
    case True
    obtain a b r where abr: "leadingFraction 0 1 False (drop 1 s1) = (a, b, r)"
      by (cases "leadingFraction 0 1 False (drop 1 s1)")
    with True f have "r = s2" by simp
    with leadingFraction_le [OF abr] show ?thesis by simp
  next
    case False
    with f show ?thesis by simp
  qed
  let ?P = "\<lambda>c. \<not> (c = CHR ''.'' \<or> is_digit c)"
  have "takeWhile ?P s2 \<noteq> []" "r = dropWhile ?P s2"
    using assms unfolding duration_term_def v f by (auto simp: Let_def f split: if_splits option.splits)
  then have "length r < length s2"
    by (metis append_Nil length_append length_greater_0_conv less_add_same_cancel2 takeWhile_dropWhile_id)
  with le le2 show ?thesis by simp
qed

function duration_terms :: "nat \<Rightarrow> bytes \<Rightarrow> nat option" where
  "duration_terms d s =
     (if s = [] then Some d
      else case duration_term s of
        None \<Rightarrow> None
      | Some (v, r) \<Rightarrow> if d + v > 2 ^ 63 then None else duration_terms (d + v) r)"
  by pat_completeness auto
termination
  by (relation "measure (\<lambda>(d, s). length s)") (auto dest: duration_term_less)

declare duration_terms.simps [simp del]

definition ParseDuration :: "bytes \<Rightarrow> int option" where
  "ParseDuration s =
     (let neg = HasPrefix s ''-'';
          s = (if HasPrefix s ''-'' \<or> HasPrefix s ''+'' then drop 1 s else s)
      in if s = ''0'' then Some 0
         else if s = [] then None
         else case duration_terms 0 s of
           None \<Rightarrow> None
         | Some d \<Rightarrow> if neg then Some (- int d) else if d > 2 ^ 63 - 1 then None else Some (int d))"

end
