(* ===== verification/Policy.thy ===== *)
theory Policy
  imports Targets GoTime Complex_Main
begin

text \<open>
  The policy engine, \<open>internal/policy/policy.go\<close>: compiling an ordered rule set and evaluating
  a request against it. The CEL library is a parameter: an environment (or the error of
  building one) gives compilation, the type of an expression, program construction and
  evaluation, as the source calls them. YAML decoding is not modelled; \<open>Parse\<close> takes the
  decoded policy or the decoder's error.
\<close>

section \<open>Definitions\<close>

type_synonym effect = bytes

definition EffectAllow :: effect where "EffectAllow = ''allow''"
definition EffectDeny :: effect where "EffectDeny = ''deny''"
definition EffectAudit :: effect where "EffectAudit = ''audit''"

definition ModeEnforce :: bytes where "ModeEnforce = ''enforce''"
definition ModeMonitor :: bytes where "ModeMonitor = ''monitor''"

record 'p rule =
  rl_Name :: bytes
  rl_Match :: bytes
  rl_Effect :: effect
  rl_Message :: bytes
  rl_AlwaysEnforce :: bool
  rl_program :: "'p option"

record 'p policy =
  pl_DefaultEffect :: effect
  pl_Workspace :: "bytes list"
  pl_RateWindow :: bytes
  pl_Mode :: bytes
  pl_Rules :: "'p rule list"
  pl_rateWindow :: int

record request =
  rq_Tool :: bytes
  rq_Method :: bytes
  rq_Args :: args
  rq_Targets :: "bytes list"
  rq_SessionCalls :: nat
  rq_SessionTargets :: nat
  rq_CallsInWindow :: nat
  rq_TargetsInWindow :: nat
  rq_DecompositionScore :: real
  rq_ScopeDeclared :: bool
  rq_OutOfScope :: "bytes list"
  rq_SessionOutOfScope :: nat
  rq_ToolDefinitionChanged :: bool
  rq_SessionToolsChanged :: nat
  rq_SchemaKnown :: bool
  rq_ArgsValid :: bool
  rq_SchemaViolations :: "bytes list"

record decision =
  dc_Effect :: effect
  dc_Rule :: bytes
  dc_Message :: bytes
  dc_Audited :: "bytes list"
  dc_AlwaysEnforce :: bool

subsection \<open>The interface to CEL\<close>

datatype cel_type = StringType | MapType cel_type cel_type | DynType | ListType cel_type
  | IntType | DoubleType | BoolType

text \<open>The values a rule sees. A nil map and a nil list are empty values for CEL; the source
  keeps the arguments as a typed nil map.\<close>

datatype cel_arg = VStr bytes | VMap args | VList "bytes list" | VInt int | VDouble real | VBool bool

datatype cel_val = CelBool bool | CelOther bytes

type_synonym vars = "(bytes \<times> cel_arg) list"

record ('a, 'p) cel_env =
  ce_Compile :: "bytes \<Rightarrow> bytes + 'a"
  ce_OutputType :: "'a \<Rightarrow> cel_type"
  ce_Program :: "'a \<Rightarrow> bytes + 'p"

definition declarations :: "(bytes \<times> cel_type) list" where
  "declarations =
     [(''tool'', StringType), (''method'', StringType), (''args'', MapType StringType DynType),
      (''targets'', ListType StringType), (''session_calls'', IntType), (''session_targets'', IntType),
      (''calls_in_window'', IntType), (''targets_in_window'', IntType),
      (''decomposition_score'', DoubleType), (''tool_definition_changed'', BoolType),
      (''schema_known'', BoolType), (''args_valid'', BoolType),
      (''schema_violations'', ListType StringType), (''session_tools_changed'', IntType),
      (''scope_declared'', BoolType), (''out_of_scope'', ListType StringType),
      (''session_out_of_scope'', IntType)]"

subsection \<open>Compiling\<close>

datatype effect_error = EffectRequired | EffectUnknown effect

datatype policy_error =
    BuildEnvironment bytes
  | DefaultEffectError effect_error
  | ModeUnknown bytes
  | RateWindowMalformed bytes
  | RateWindowNotPositive bytes
  | AlwaysEnforceNotDeny bytes
  | RuleUnnamed nat
  | RuleEffectError bytes effect_error
  | RuleCompileError bytes bytes
  | RuleNotBool bytes cel_type
  | RuleProgramError bytes bytes
  | YamlError bytes

definition validEffect :: "effect \<Rightarrow> effect_error option" where
  "validEffect e =
     (if e = EffectAllow \<or> e = EffectDeny \<or> e = EffectAudit then None
      else if e = [] then Some EffectRequired
      else Some (EffectUnknown e))"

definition Mode_Valid :: "bytes \<Rightarrow> policy_error option" where
  "Mode_Valid m = (if m = ModeEnforce \<or> m = ModeMonitor then None else Some (ModeUnknown m))"

definition compile_rule :: "('a, 'p) cel_env \<Rightarrow> nat \<Rightarrow> 'p rule \<Rightarrow> policy_error + 'p rule" where
  "compile_rule env i rule =
     (if rl_AlwaysEnforce rule \<and> rl_Effect rule \<noteq> EffectDeny then Inl (AlwaysEnforceNotDeny (rl_Name rule))
      else if rl_Name rule = [] then Inl (RuleUnnamed i)
      else case validEffect (rl_Effect rule) of
        Some e \<Rightarrow> Inl (RuleEffectError (rl_Name rule) e)
      | None \<Rightarrow>
        if TrimSpace (rl_Match rule) = [] then Inr rule
        else case ce_Compile env (rl_Match rule) of
          Inl issues \<Rightarrow> Inl (RuleCompileError (rl_Name rule) issues)
        | Inr ast \<Rightarrow>
          if ce_OutputType env ast \<noteq> BoolType
          then Inl (RuleNotBool (rl_Name rule) (ce_OutputType env ast))
          else case ce_Program env ast of
            Inl e \<Rightarrow> Inl (RuleProgramError (rl_Name rule) e)
          | Inr prog \<Rightarrow> Inr (rule\<lparr>rl_program := Some prog\<rparr>))"

fun compile_rules :: "('a, 'p) cel_env \<Rightarrow> nat \<Rightarrow> 'p rule list \<Rightarrow> policy_error + 'p rule list" where
  "compile_rules env i [] = Inr []"
| "compile_rules env i (r # rs) =
     (case compile_rule env i r of
       Inl e \<Rightarrow> Inl e
     | Inr r' \<Rightarrow> map_sum id (Cons r') (compile_rules env (i + 1) rs))"

definition compile_window :: "'p policy \<Rightarrow> policy_error + 'p policy" where
  "compile_window p =
     (let s = TrimSpace (pl_RateWindow p) in
      if s = [] then Inr p
      else case ParseDuration s of
        None \<Rightarrow> Inl (RateWindowMalformed s)
      | Some d \<Rightarrow> if d \<le> 0 then Inl (RateWindowNotPositive s) else Inr (p\<lparr>pl_rateWindow := d\<rparr>))"

definition Compile :: "((bytes \<times> cel_type) list \<Rightarrow> bytes + ('a, 'p) cel_env) \<Rightarrow> 'p policy \<Rightarrow> policy_error + 'p policy" where
  "Compile newEnv p =
     (case newEnv declarations of
       Inl e \<Rightarrow> Inl (BuildEnvironment e)
     | Inr env \<Rightarrow>
       let p = (if pl_DefaultEffect p = [] then p\<lparr>pl_DefaultEffect := EffectAllow\<rparr> else p) in
       case validEffect (pl_DefaultEffect p) of
         Some e \<Rightarrow> Inl (DefaultEffectError e)
       | None \<Rightarrow>
         let p = (if pl_Mode p = [] then p\<lparr>pl_Mode := ModeEnforce\<rparr> else p) in
         case Mode_Valid (pl_Mode p) of
           Some e \<Rightarrow> Inl e
         | None \<Rightarrow>
           (case compile_window p of
             Inl e \<Rightarrow> Inl e
           | Inr p \<Rightarrow> map_sum id (\<lambda>rs. p\<lparr>pl_Rules := rs\<rparr>) (compile_rules env 0 (pl_Rules p))))"

definition Parse_policy :: "((bytes \<times> cel_type) list \<Rightarrow> bytes + ('a, 'p) cel_env) \<Rightarrow> bytes + 'p policy \<Rightarrow> policy_error + 'p policy" where
  "Parse_policy newEnv decoded =
     (case decoded of Inl e \<Rightarrow> Inl (YamlError e) | Inr p \<Rightarrow> Compile newEnv p)"

text \<open>Methods that a nil policy answers too.\<close>

definition RateWindowDuration :: "'p policy option \<Rightarrow> int" where
  "RateWindowDuration p = (case p of None \<Rightarrow> 0 | Some p \<Rightarrow> pl_rateWindow p)"

definition HasAlwaysEnforce :: "'p policy option \<Rightarrow> bool" where
  "HasAlwaysEnforce p = (case p of None \<Rightarrow> False | Some p \<Rightarrow> list_ex rl_AlwaysEnforce (pl_Rules p))"

subsection \<open>Evaluating\<close>

definition request_vars :: "request \<Rightarrow> vars" where
  "request_vars req =
     [(''tool'', VStr (rq_Tool req)), (''method'', VStr (rq_Method req)), (''args'', VMap (rq_Args req)),
      (''targets'', VList (rq_Targets req)), (''session_calls'', VInt (int (rq_SessionCalls req))),
      (''session_targets'', VInt (int (rq_SessionTargets req))),
      (''calls_in_window'', VInt (int (rq_CallsInWindow req))),
      (''targets_in_window'', VInt (int (rq_TargetsInWindow req))),
      (''decomposition_score'', VDouble (rq_DecompositionScore req)),
      (''tool_definition_changed'', VBool (rq_ToolDefinitionChanged req)),
      (''schema_known'', VBool (rq_SchemaKnown req)), (''args_valid'', VBool (rq_ArgsValid req)),
      (''schema_violations'', VList (rq_SchemaViolations req)),
      (''session_tools_changed'', VInt (int (rq_SessionToolsChanged req))),
      (''scope_declared'', VBool (rq_ScopeDeclared req)), (''out_of_scope'', VList (rq_OutOfScope req)),
      (''session_out_of_scope'', VInt (int (rq_SessionOutOfScope req)))]"

definition isTrue :: "cel_val \<Rightarrow> bool" where
  "isTrue v = (case v of CelBool b \<Rightarrow> b | CelOther _ \<Rightarrow> False)"

text \<open>\<open>eval\<close> is \<open>cel.Program.Eval\<close>: an error, or a value.\<close>

definition rule_matches :: "('p \<Rightarrow> vars \<Rightarrow> bytes + cel_val) \<Rightarrow> 'p rule \<Rightarrow> vars \<Rightarrow> bytes + bool" where
  "rule_matches eval r vars =
     (case rl_program r of
       None \<Rightarrow> Inr True
     | Some prog \<Rightarrow> (case eval prog vars of Inl e \<Rightarrow> Inl e | Inr out \<Rightarrow> Inr (isTrue out)))"

definition evaluation_error :: "bytes \<Rightarrow> bytes \<Rightarrow> bytes" where
  "evaluation_error name e = name @ '': evaluation error: '' @ e"

fun evaluate_rules :: "('p \<Rightarrow> vars \<Rightarrow> bytes + cel_val) \<Rightarrow> effect \<Rightarrow> vars \<Rightarrow> bytes list \<Rightarrow> 'p rule list \<Rightarrow> decision" where
  "evaluate_rules eval dflt vars audited [] =
     \<lparr>dc_Effect = dflt, dc_Rule = [], dc_Message = [], dc_Audited = audited, dc_AlwaysEnforce = False\<rparr>"
| "evaluate_rules eval dflt vars audited (r # rs) =
     (case rule_matches eval r vars of
       Inl e \<Rightarrow> evaluate_rules eval dflt vars (audited @ [evaluation_error (rl_Name r) e]) rs
     | Inr matched \<Rightarrow>
       if \<not> matched then evaluate_rules eval dflt vars audited rs
       else if rl_Effect r = EffectAudit then evaluate_rules eval dflt vars (audited @ [rl_Name r]) rs
       else \<lparr>dc_Effect = rl_Effect r, dc_Rule = rl_Name r, dc_Message = rl_Message r,
             dc_Audited = audited, dc_AlwaysEnforce = rl_AlwaysEnforce r\<rparr>)"

definition Evaluate :: "('p \<Rightarrow> vars \<Rightarrow> bytes + cel_val) \<Rightarrow> 'p policy \<Rightarrow> request \<Rightarrow> decision" where
  "Evaluate eval p req = evaluate_rules eval (pl_DefaultEffect p) (request_vars req) [] (pl_Rules p)"

section \<open>First match wins\<close>

text \<open>The reference: a rule decides when it matches and is not an audit rule. The decision is
  that of the first deciding rule, or the default, and the audit trail is that of the rules
  before it.\<close>

definition decides :: "('p \<Rightarrow> vars \<Rightarrow> bytes + cel_val) \<Rightarrow> vars \<Rightarrow> 'p rule \<Rightarrow> bool" where
  "decides eval vars r \<longleftrightarrow> rule_matches eval r vars = Inr True \<and> rl_Effect r \<noteq> EffectAudit"

definition audit_notes :: "('p \<Rightarrow> vars \<Rightarrow> bytes + cel_val) \<Rightarrow> vars \<Rightarrow> 'p rule \<Rightarrow> bytes list" where
  "audit_notes eval vars r =
     (case rule_matches eval r vars of
       Inl e \<Rightarrow> [evaluation_error (rl_Name r) e]
     | Inr m \<Rightarrow> if m then [rl_Name r] else [])"

definition first_match :: "('p \<Rightarrow> vars \<Rightarrow> bytes + cel_val) \<Rightarrow> effect \<Rightarrow> vars \<Rightarrow> 'p rule list \<Rightarrow> decision" where
  "first_match eval dflt vars rs =
     (let notes = concat (map (audit_notes eval vars) (takeWhile (\<lambda>r. \<not> decides eval vars r) rs)) in
      case find (decides eval vars) rs of
        None \<Rightarrow> \<lparr>dc_Effect = dflt, dc_Rule = [], dc_Message = [], dc_Audited = notes, dc_AlwaysEnforce = False\<rparr>
      | Some r \<Rightarrow> \<lparr>dc_Effect = rl_Effect r, dc_Rule = rl_Name r, dc_Message = rl_Message r,
          dc_Audited = notes, dc_AlwaysEnforce = rl_AlwaysEnforce r\<rparr>)"

lemma evaluate_rules_eq:
  "evaluate_rules eval dflt vars audited rs =
    (first_match eval dflt vars rs)\<lparr>dc_Audited := audited @ dc_Audited (first_match eval dflt vars rs)\<rparr>"
proof (induction rs arbitrary: audited)
  case Nil
  then show ?case by (simp add: first_match_def)
next
  case (Cons r rs)
  show ?case
  proof (cases "decides eval vars r")
    case True
    then show ?thesis by (simp add: first_match_def decides_def)
  next
    case False
    then have "first_match eval dflt vars (r # rs) = (first_match eval dflt vars rs)
        \<lparr>dc_Audited := audit_notes eval vars r @ dc_Audited (first_match eval dflt vars rs)\<rparr>"
      by (simp add: first_match_def Let_def split: option.splits)
    with False Cons.IH show ?thesis
      by (auto simp: decides_def audit_notes_def split: sum.splits)
  qed
qed

text \<open>
  C13: Evaluation is first match wins: the decision is that of the first rule that matches and
  is not an audit rule, or the default effect; rules after it have no influence; a rule that
  fails to evaluate never decides; and the audit trail holds, in order, the audit rules and
  the evaluation failures before it.\<close>

theorem Evaluate_is_first_match:
  "Evaluate eval p req = first_match eval (pl_DefaultEffect p) (request_vars req) (pl_Rules p)"
  by (simp add: Evaluate_def evaluate_rules_eq)

section \<open>Compiled policies\<close>

definition rule_ok :: "'p rule \<Rightarrow> bool" where
  "rule_ok r \<longleftrightarrow>
     rl_Name r \<noteq> [] \<and> rl_Effect r \<in> {EffectAllow, EffectDeny, EffectAudit} \<and>
     (rl_AlwaysEnforce r \<longrightarrow> rl_Effect r = EffectDeny) \<and>
     (rl_program r = None \<longrightarrow> TrimSpace (rl_Match r) = [])"

definition policy_ok :: "'p policy \<Rightarrow> bool" where
  "policy_ok p \<longleftrightarrow>
     pl_DefaultEffect p \<in> {EffectAllow, EffectDeny, EffectAudit} \<and>
     pl_Mode p \<in> {ModeEnforce, ModeMonitor} \<and> list_all rule_ok (pl_Rules p)"

lemma validEffect_None: "validEffect e = None \<longleftrightarrow> e \<in> {EffectAllow, EffectDeny, EffectAudit}"
  by (simp add: validEffect_def)

lemma compile_rule_ok: "compile_rule env i r = Inr r' \<Longrightarrow> rule_ok r'"
  by (auto simp: compile_rule_def rule_ok_def validEffect_def split: if_splits option.splits sum.splits)

lemma compile_rules_ok: "compile_rules env i rs = Inr rs' \<Longrightarrow> list_all rule_ok rs' \<and> length rs' = length rs"
proof (induction rs arbitrary: i rs')
  case (Cons r rs)
  then obtain r' rs'' where "compile_rule env i r = Inr r'" "compile_rules env (i + 1) rs = Inr rs''" "rs' = r' # rs''"
    by (cases "compile_rule env i r"; cases "compile_rules env (i + 1) rs") auto
  with Cons.IH compile_rule_ok show ?case by auto
qed simp

lemma compile_window_fields:
  "compile_window p = Inr p' \<Longrightarrow> pl_DefaultEffect p' = pl_DefaultEffect p \<and> pl_Mode p' = pl_Mode p \<and>
    pl_Rules p' = pl_Rules p \<and> (pl_rateWindow p' = pl_rateWindow p \<or> 0 < pl_rateWindow p')"
  by (auto simp: compile_window_def Let_def split: if_splits option.splits)

lemma Compile_cases:
  assumes "Compile newEnv p = Inr q"
  obtains env p0 p1 rs where "newEnv declarations = Inr env"
    "p0 = p\<lparr>pl_DefaultEffect := (if pl_DefaultEffect p = [] then EffectAllow else pl_DefaultEffect p),
       pl_Mode := (if pl_Mode p = [] then ModeEnforce else pl_Mode p)\<rparr>"
    "validEffect (pl_DefaultEffect p0) = None" "Mode_Valid (pl_Mode p0) = None"
    "compile_window p0 = Inr p1" "compile_rules env 0 (pl_Rules p) = Inr rs" "q = p1\<lparr>pl_Rules := rs\<rparr>"
proof -
  let ?p0 = "p\<lparr>pl_DefaultEffect := (if pl_DefaultEffect p = [] then EffectAllow else pl_DefaultEffect p),
       pl_Mode := (if pl_Mode p = [] then ModeEnforce else pl_Mode p)\<rparr>"
  obtain env where env: "newEnv declarations = Inr env"
    using assms by (cases "newEnv declarations") (auto simp: Compile_def)
  have e: "validEffect (pl_DefaultEffect ?p0) = None" and m: "Mode_Valid (pl_Mode ?p0) = None"
    using assms env by (auto simp: Compile_def Let_def split: option.splits if_splits)
  have c: "Compile newEnv p = (case compile_window ?p0 of Inl e \<Rightarrow> Inl e
      | Inr p \<Rightarrow> map_sum id (\<lambda>rs. p\<lparr>pl_Rules := rs\<rparr>) (compile_rules env 0 (pl_Rules p)))"
    using env e m by (simp add: Compile_def Let_def split: if_splits)
  from assms c obtain p1 where p1: "compile_window ?p0 = Inr p1" by (cases "compile_window ?p0") auto
  with compile_window_fields [OF p1] assms c obtain rs where
    "compile_rules env 0 (pl_Rules p) = Inr rs" "q = p1\<lparr>pl_Rules := rs\<rparr>"
    by (cases "compile_rules env 0 (pl_Rules p)") auto
  with that env e m p1 show thesis by blast
qed

lemma Compile_ok: "Compile newEnv p = Inr q \<Longrightarrow> policy_ok q"
proof (erule Compile_cases)
  fix env p0 p1 rs
  assume "validEffect (pl_DefaultEffect p0) = None" "Mode_Valid (pl_Mode p0) = None"
    "compile_window p0 = Inr p1" "compile_rules env 0 (pl_Rules p) = Inr rs" "q = p1\<lparr>pl_Rules := rs\<rparr>"
  with compile_window_fields [of p0 p1] compile_rules_ok show "policy_ok q"
    by (auto simp: policy_ok_def validEffect_None Mode_Valid_def split: if_splits)
qed

lemma first_match_rule:
  assumes "dc_AlwaysEnforce (first_match eval dflt vars rs)"
  shows "\<exists>r \<in> set rs. rl_AlwaysEnforce r \<and> rl_Effect r = dc_Effect (first_match eval dflt vars rs) \<and>
    rl_Name r = dc_Rule (first_match eval dflt vars rs)"
proof (cases "find (decides eval vars) rs")
  case None
  with assms show ?thesis by (simp add: first_match_def Let_def)
next
  case (Some r)
  then have "r \<in> set rs" by (auto simp: find_Some_iff)
  with Some assms show ?thesis by (auto simp: first_match_def Let_def)
qed

text \<open>
  C14: Of a policy that compiled, every decision is one of the three effects, and a decision
  marked always_enforce is a deny by a named rule: monitor mode can only be overridden to
  block.\<close>

theorem compiled_decisions:
  assumes "Compile newEnv p = Inr q"
  shows "dc_Effect (Evaluate eval q req) \<in> {EffectAllow, EffectDeny, EffectAudit} \<and>
    (if dc_AlwaysEnforce (Evaluate eval q req)
     then dc_Effect (Evaluate eval q req) = EffectDeny \<and> dc_Rule (Evaluate eval q req) \<noteq> [] \<and>
       HasAlwaysEnforce (Some q)
     else True)"
proof -
  let ?d = "first_match eval (pl_DefaultEffect q) (request_vars req) (pl_Rules q)"
  have ok: "policy_ok q" using assms by (rule Compile_ok)
  have "dc_Effect ?d \<in> {EffectAllow, EffectDeny, EffectAudit}"
    using ok by (auto simp: first_match_def Let_def policy_ok_def rule_ok_def list_all_iff find_Some_iff
        split: option.splits)
  moreover have "dc_Effect ?d = EffectDeny \<and> dc_Rule ?d \<noteq> [] \<and> HasAlwaysEnforce (Some q)"
    if "dc_AlwaysEnforce ?d"
  proof -
    from first_match_rule [OF that] obtain r where r: "r \<in> set (pl_Rules q)" "rl_AlwaysEnforce r"
      "rl_Effect r = dc_Effect ?d" "rl_Name r = dc_Rule ?d" by blast
    with ok have "rule_ok r" by (auto simp: policy_ok_def list_all_iff)
    with r show ?thesis by (auto simp: rule_ok_def HasAlwaysEnforce_def list_ex_iff)
  qed
  ultimately show ?thesis by (simp add: Evaluate_def evaluate_rules_eq)
qed

text \<open>A CEL library that accepts every expression: its program is the text, true when it is the
  tool's name.\<close>

definition example_env :: "(bytes \<times> cel_type) list \<Rightarrow> bytes + (bytes, bytes) cel_env" where
  "example_env _ = Inr \<lparr>ce_Compile = Inr, ce_OutputType = (\<lambda>_. BoolType), ce_Program = Inr\<rparr>"

definition example_eval :: "bytes \<Rightarrow> vars \<Rightarrow> bytes + cel_val" where
  "example_eval prog vars =
     (case map_of vars ''tool'' of Some (VStr t) \<Rightarrow> Inr (CelBool (prog = t)) | _ \<Rightarrow> Inl ''no tool'')"

definition example_rule :: "bytes \<Rightarrow> bytes \<Rightarrow> bool \<Rightarrow> bytes rule" where
  "example_rule tool eff always = \<lparr>rl_Name = ''no-'' @ tool, rl_Match = tool, rl_Effect = eff,
     rl_Message = ''ask first'', rl_AlwaysEnforce = always, rl_program = None\<rparr>"

definition example_policy :: "bytes policy" where
  "example_policy = \<lparr>pl_DefaultEffect = [], pl_Workspace = [''/srv''], pl_RateWindow = '' 1m30s '',
     pl_Mode = [], pl_Rules = [example_rule ''read'' EffectAudit False, example_rule ''rm'' EffectDeny True],
     pl_rateWindow = 0\<rparr>"

definition example_compiled :: "bytes policy" where
  "example_compiled = example_policy\<lparr>pl_DefaultEffect := EffectAllow, pl_Mode := ModeEnforce,
     pl_rateWindow := 90000000000,
     pl_Rules := map (\<lambda>r. r\<lparr>rl_program := Some (rl_Match r)\<rparr>) (pl_Rules example_policy)\<rparr>"

definition example_request :: "bytes \<Rightarrow> request" where
  "example_request tool = \<lparr>rq_Tool = tool, rq_Method = ''tools/call'', rq_Args = None, rq_Targets = [],
     rq_SessionCalls = 1, rq_SessionTargets = 0, rq_CallsInWindow = 1, rq_TargetsInWindow = 0,
     rq_DecompositionScore = 0, rq_ScopeDeclared = False, rq_OutOfScope = [], rq_SessionOutOfScope = 0,
     rq_ToolDefinitionChanged = False, rq_SessionToolsChanged = 0, rq_SchemaKnown = False,
     rq_ArgsValid = True, rq_SchemaViolations = []\<rparr>"

lemma minute_and_a_half: "ParseDuration ''1m30s'' = Some 90000000000"
proof -
  have "duration_term ''30s'' = Some (30000000000, [])"
    by (simp add: duration_term_def is_digit_def byte_def Let_def HasPrefix_def unit_value_def)
  moreover have "duration_term ''1m30s'' = Some (60000000000, ''30s'')"
    by (simp add: duration_term_def is_digit_def byte_def Let_def HasPrefix_def unit_value_def)
  ultimately have "duration_terms 0 ''1m30s'' = Some 90000000000"
    by (simp add: duration_terms.simps)
  then show ?thesis by (simp add: ParseDuration_def HasPrefix_def)
qed

lemma example_window: "TrimSpace (pl_RateWindow example_policy) = ''1m30s''"
  by code_simp

lemma example_rules: "compile_rules \<lparr>ce_Compile = Inr, ce_OutputType = (\<lambda>_. BoolType), ce_Program = Inr\<rparr> 0
    (pl_Rules example_policy) = Inr (pl_Rules example_compiled :: bytes rule list)"
  by code_simp

lemma example_compiles: "Compile example_env example_policy = Inr example_compiled"
proof -
  have "compile_window (example_policy\<lparr>pl_DefaultEffect := EffectAllow, pl_Mode := ModeEnforce\<rparr>) =
      Inr (example_policy\<lparr>pl_DefaultEffect := EffectAllow, pl_Mode := ModeEnforce, pl_rateWindow := 90000000000\<rparr>)"
    using example_window minute_and_a_half by (simp add: compile_window_def)
  moreover have "pl_DefaultEffect example_policy = []" "pl_Mode example_policy = []" by code_simp+
  moreover have "validEffect EffectAllow = None" "Mode_Valid ModeEnforce = None" by code_simp+
  ultimately show ?thesis
    using example_rules by (simp add: Compile_def example_env_def example_compiled_def)
qed

lemma compiled_decisions_witness:
  "dc_Effect (Evaluate example_eval example_compiled (example_request ''rm'')) = EffectDeny \<and>
   dc_Audited (Evaluate example_eval example_compiled (example_request ''read'')) = [''no-read'']"
proof -
  have "dc_AlwaysEnforce (Evaluate example_eval example_compiled (example_request ''rm''))" by code_simp
  moreover have "dc_Audited (Evaluate example_eval example_compiled (example_request ''read'')) = [''no-read'']"
    by code_simp
  ultimately show ?thesis
    using compiled_decisions [OF example_compiles, of example_eval "example_request ''rm''"] by simp
qed

end
