(* ===== verification/Inventory.thy ===== *)
theory Inventory
  imports JsonRpc "HOL-Library.Product_Lexorder"
begin

text \<open>
  The tool inventory, \<open>internal/inventory/inventory.go\<close>: fingerprints of advertised tool
  definitions, what changed since they were first seen, and the schemas captured with them.
  Go maps are association lists without duplicate keys, in the order they were filled; no
  result depends on that order. \<open>sha\<close> is \<open>sha256\<close> in hexadecimal, \<open>pr\<close> the printability tables
  behind \<open>strconv.Quote\<close>, and \<open>lib\<close> the jsonschema library: all three are parameters.
\<close>

section \<open>Definitions\<close>

datatype change_kind = Added | Modified | Removed

fun kind_text :: "change_kind \<Rightarrow> bytes" where
  "kind_text Added = ''added''"
| "kind_text Modified = ''modified''"
| "kind_text Removed = ''removed''"

text \<open>Kinds are strings in the source and are ordered as such.\<close>

instantiation change_kind :: linorder
begin

definition less_eq_change_kind :: "change_kind \<Rightarrow> change_kind \<Rightarrow> bool" where
  "less_eq_change_kind a b \<longleftrightarrow> kind_text a \<le> kind_text b"

definition less_change_kind :: "change_kind \<Rightarrow> change_kind \<Rightarrow> bool" where
  "less_change_kind a b \<longleftrightarrow> kind_text a < kind_text b"

instance
proof
  fix a b c :: change_kind
  show "a \<le> a" "a < b \<longleftrightarrow> a \<le> b \<and> \<not> b \<le> a" "a \<le> b \<or> b \<le> a"
    by (auto simp: less_eq_change_kind_def less_change_kind_def)
  show "a \<le> b \<Longrightarrow> b \<le> c \<Longrightarrow> a \<le> c" by (simp add: less_eq_change_kind_def)
  show "a \<le> b \<Longrightarrow> b \<le> a \<Longrightarrow> a = b"
    by (cases a; cases b; simp add: less_eq_change_kind_def)
qed

end

record change =
  ch_Tool :: bytes
  ch_Kind :: change_kind
  ch_Was :: bytes
  ch_Now :: bytes
  ch_Listing :: nat

definition short :: "bytes \<Rightarrow> bytes" where
  "short fp = (if length fp \<le> 12 then fp else take 12 fp)"

definition Change_String :: "change \<Rightarrow> bytes" where
  "Change_String c =
     (case ch_Kind c of
       Modified \<Rightarrow> ch_Tool c @ '' modified ('' @ short (ch_Was c) @ '' -> '' @ short (ch_Now c) @ '') at listing '' @
         Itoa (int (ch_Listing c))
     | Added \<Rightarrow> ch_Tool c @ '' added ('' @ short (ch_Now c) @ '') at listing '' @ Itoa (int (ch_Listing c))
     | Removed \<Rightarrow> ch_Tool c @ '' removed at listing '' @ Itoa (int (ch_Listing c)))"

subsection \<open>Schemas\<close>

text \<open>What the jsonschema library reports: a tree of errors, or an error of another type.\<close>

datatype error_kind = AdditionalProperties "bytes list" | Required "bytes list" | OtherKind bytes

datatype validation_error = ValidationError "bytes list" error_kind "validation_error list"

datatype verdict = Valid | Invalid validation_error | Failed bytes

record ('d, 'c, 's) schema_lib =
  sl_UnmarshalJSON :: "bytes \<Rightarrow> bytes + 'd"
  sl_AddResource :: "'d \<Rightarrow> bytes + 'c"
  sl_Compile :: "'c \<Rightarrow> bytes + 's"
  sl_Validate :: "'s \<Rightarrow> json \<Rightarrow> verdict"

definition inputSchema_of :: "bytes \<Rightarrow> bytes option" where
  "inputSchema_of raw =
     (case parse_json raw of
       Some JNull \<Rightarrow> Some []
     | Some (JObj _) \<Rightarrow> map_option (last_raw ''inputSchema'' []) (object_members raw)
     | _ \<Rightarrow> None)"

datatype schema_error = DefinitionError | DecodeSchema bytes | AddSchemaResource bytes | CompileSchema bytes bytes

definition compileSchema :: "('d, 'c, 's) schema_lib \<Rightarrow> bytes \<Rightarrow> bytes \<Rightarrow> schema_error + 's option" where
  "compileSchema lib name raw =
     (case inputSchema_of raw of
       None \<Rightarrow> Inl DefinitionError
     | Some schema \<Rightarrow>
         if length schema = 0 then Inr None
         else case sl_UnmarshalJSON lib schema of
           Inl e \<Rightarrow> Inl (DecodeSchema e)
         | Inr doc \<Rightarrow>
           (case sl_AddResource lib doc of
             Inl e \<Rightarrow> Inl (AddSchemaResource e)
           | Inr c \<Rightarrow> map_sum (CompileSchema name) Some (sl_Compile lib c)))"

subsection \<open>The registry\<close>

record 's registry =
  rg_first :: "(bytes \<times> bytes) list"
  rg_changed :: "bytes list"
  rg_schemas :: "(bytes \<times> 's) list"
  rg_changes :: "change list"
  rg_listings :: nat
  rg_schemaErrs :: "(bytes \<times> schema_error) list"

definition NewRegistry :: "'s registry" where
  "NewRegistry = \<lparr>rg_first = [], rg_changed = [], rg_schemas = [], rg_changes = [], rg_listings = 0, rg_schemaErrs = []\<rparr>"

fun canonical :: "(bytes \<Rightarrow> bool) \<Rightarrow> json \<Rightarrow> bytes" where
  "canonical pr (JObj ms) =
     CHR ''{'' # Join (map (\<lambda>(k, c). quote pr k @ CHR '':'' # c) (sort_key fst (map (\<lambda>(k, v). (k, canonical pr v)) ms)))
       '','' @ ''}''"
| "canonical pr (JArr es) = CHR ''['' # Join (map (canonical pr) es) '','' @ '']''"
| "canonical pr (JNum n) = n"
| "canonical pr (JStr s) = quote pr s"
| "canonical pr (JBool b) = (if b then ''true'' else ''false'')"
| "canonical pr JNull = ''null''"

definition fingerprint :: "(bytes \<Rightarrow> bytes) \<Rightarrow> (bytes \<Rightarrow> bool) \<Rightarrow> bytes \<Rightarrow> (bytes \<times> bytes) option" where
  "fingerprint sha pr raw =
     (case map_option to_any (parse_json raw) of
       Some (JObj obj) \<Rightarrow>
         (case map_of obj ''name'' of
           Some (JStr n) \<Rightarrow> if n = [] then None else Some (n, sha (canonical pr (JObj obj)))
         | _ \<Rightarrow> None)
     | _ \<Rightarrow> None)"

definition compileLocked :: "('d, 'c, 's) schema_lib \<Rightarrow> 's registry \<Rightarrow> bytes \<Rightarrow> bytes \<Rightarrow> 's registry" where
  "compileLocked lib r name raw =
     (if length raw = 0 then r
      else case compileSchema lib name raw of
        Inl e \<Rightarrow> r\<lparr>rg_schemaErrs := AList.update name e (rg_schemaErrs r)\<rparr>
      | Inr None \<Rightarrow> r
      | Inr (Some sch) \<Rightarrow> r\<lparr>rg_schemas := AList.update name sch (rg_schemas r)\<rparr>)"

text \<open>The tools of one listing: the fingerprint and the bytes each name was last seen with.\<close>

definition listed :: "(bytes \<Rightarrow> bytes) \<Rightarrow> (bytes \<Rightarrow> bool) \<Rightarrow> bytes list \<Rightarrow> (bytes \<times> bytes \<times> bytes) list" where
  "listed sha pr tools =
     foldl (\<lambda>seen raw. case fingerprint sha pr raw of
         None \<Rightarrow> seen
       | Some (name, fp) \<Rightarrow> AList.update name (fp, raw) seen) [] tools"

definition baseline :: "('d, 'c, 's) schema_lib \<Rightarrow> 's registry \<Rightarrow> bytes \<times> bytes \<times> bytes \<Rightarrow> 's registry" where
  "baseline lib r = (\<lambda>(name, fp, raw). compileLocked lib (r\<lparr>rg_first := AList.update name fp (rg_first r)\<rparr>) name raw)"

definition mark_changed :: "bytes \<Rightarrow> 's registry \<Rightarrow> 's registry" where
  "mark_changed name r = r\<lparr>rg_changed := List.insert name (rg_changed r)\<rparr>"

definition compare_seen :: "('d, 'c, 's) schema_lib \<Rightarrow> 's registry \<times> change list \<Rightarrow> bytes \<times> bytes \<times> bytes \<Rightarrow> 's registry \<times> change list" where
  "compare_seen lib = (\<lambda>(r, out) (name, fp, raw).
     case map_of (rg_first r) name of
       None \<Rightarrow>
         (mark_changed name (baseline lib r (name, fp, raw)),
          out @ [\<lparr>ch_Tool = name, ch_Kind = Added, ch_Was = [], ch_Now = fp, ch_Listing = rg_listings r\<rparr>])
     | Some was \<Rightarrow>
         if was \<noteq> fp then
           (mark_changed name r,
            out @ [\<lparr>ch_Tool = name, ch_Kind = Modified, ch_Was = was, ch_Now = fp, ch_Listing = rg_listings r\<rparr>])
         else (r, out))"

definition removedAlready :: "'s registry \<Rightarrow> bytes \<Rightarrow> bool" where
  "removedAlready r name \<longleftrightarrow> list_ex (\<lambda>c. ch_Tool c = name \<and> ch_Kind c = Removed) (rg_changes r)"

definition removals :: "'s registry \<Rightarrow> (bytes \<times> bytes \<times> bytes) list \<Rightarrow> change list" where
  "removals r seen =
     map (\<lambda>(name, was). \<lparr>ch_Tool = name, ch_Kind = Removed, ch_Was = was, ch_Now = [], ch_Listing = rg_listings r\<rparr>)
       (filter (\<lambda>(name, was). map_of seen name = None \<and> \<not> removedAlready r name) (rg_first r))"

definition change_key :: "change \<Rightarrow> change_kind \<times> bytes" where
  "change_key c = (ch_Kind c, ch_Tool c)"

definition Registry_Observe :: "(bytes \<Rightarrow> bytes) \<Rightarrow> (bytes \<Rightarrow> bool) \<Rightarrow> ('d, 'c, 's) schema_lib \<Rightarrow> 's registry \<Rightarrow> bytes list \<Rightarrow> 's registry \<times> change list" where
  "Registry_Observe sha pr lib r tools =
     (let r = r\<lparr>rg_listings := rg_listings r + 1\<rparr>;
          seen = listed sha pr tools
      in if rg_listings r = 1 then (foldl (baseline lib) r seen, [])
         else
           let (r, out) = foldl (compare_seen lib) (r, []) seen;
               out = sort_key change_key (out @ removals r seen)
           in (r\<lparr>rg_changes := rg_changes r @ out\<rparr>, out))"

definition Registry_Changed :: "'s registry \<Rightarrow> bytes \<Rightarrow> bool" where
  "Registry_Changed r tool \<longleftrightarrow> tool \<in> set (rg_changed r)"

definition ChangedCount :: "'s registry \<Rightarrow> nat" where
  "ChangedCount r = length (rg_changed r)"

definition Changes :: "'s registry \<Rightarrow> change list" where
  "Changes r = rg_changes r"

definition Listings :: "'s registry \<Rightarrow> nat" where
  "Listings r = rg_listings r"

definition Tracked :: "'s registry \<Rightarrow> nat" where
  "Tracked r = length (rg_first r)"

definition Schemas :: "'s registry \<Rightarrow> nat" where
  "Schemas r = length (rg_schemas r)"

definition SchemaErrors :: "'s registry \<Rightarrow> (bytes \<times> schema_error) list" where
  "SchemaErrors r = rg_schemaErrs r"

subsection \<open>Validation\<close>

definition MaxViolations :: nat where "MaxViolations = 10"
definition MaxViolationLen :: nat where "MaxViolationLen = 160"
definition maxNames :: nat where "maxNames = 5"

definition and_more :: "nat \<Rightarrow> bytes" where
  "and_more extra = ''(and '' @ Itoa (int extra) @ '' more)''"

definition nameList :: "bytes list \<Rightarrow> bytes" where
  "nameList names =
     (let sorted = sort names in
      Join (if length sorted > maxNames
        then take maxNames sorted @ [and_more (length sorted - maxNames)] else sorted) '', '')"

definition describe :: "bytes list \<Rightarrow> error_kind \<Rightarrow> bytes" where
  "describe location k =
     (let loc = CHR ''/'' # Join location ''/'';
          loc = (if loc = ''/'' then ''(root)'' else loc);
          detail = (case k of
              AdditionalProperties ps \<Rightarrow> ''properties not in the tool's declared schema: '' @ nameList ps
            | Required ms \<Rightarrow> ''missing required properties: '' @ nameList ms
            | OtherKind text \<Rightarrow> text);
          out = loc @ '': '' @ detail
      in if length out > MaxViolationLen then take MaxViolationLen out @ [CHR 0xE2, CHR 0x80, CHR 0xA6] else out)"

fun leaves :: "validation_error \<Rightarrow> bytes list" where
  "leaves (ValidationError loc k causes) =
     (if causes = [] then [describe loc k] else concat (map leaves causes))"

definition flatten :: "validation_error \<Rightarrow> bytes list" where
  "flatten ve =
     (let out = sorted_list_of_set (set (leaves ve)) in
      if length out > MaxViolations
      then take MaxViolations out @ [and_more (length out - MaxViolations)] else out)"

definition Registry_Validate :: "('d, 'c, 's) schema_lib \<Rightarrow> 's registry \<Rightarrow> bytes \<Rightarrow> (bytes \<times> json) list option \<Rightarrow> bool \<times> bytes list" where
  "Registry_Validate lib r tool args =
     (case map_of (rg_schemas r) tool of
       None \<Rightarrow> (False, [])
     | Some sch \<Rightarrow>
         (case sl_Validate lib sch (JObj (case args of None \<Rightarrow> [] | Some a \<Rightarrow> a)) of
           Valid \<Rightarrow> (True, [])
         | Failed e \<Rightarrow> (True, [e])
         | Invalid ve \<Rightarrow> (True, flatten ve)))"

section \<open>The canonical encoding\<close>

text \<open>A definition up to the order of its members.\<close>

fun normal :: "json \<Rightarrow> json" where
  "normal (JObj ms) = JObj (sort_key fst (map (\<lambda>(k, v). (k, normal v)) ms))"
| "normal (JArr es) = JArr (map normal es)"
| "normal j = j"

fun render :: "(bytes \<Rightarrow> bool) \<Rightarrow> json \<Rightarrow> bytes"
  and render_elems :: "(bytes \<Rightarrow> bool) \<Rightarrow> json list \<Rightarrow> bytes"
  and render_members :: "(bytes \<Rightarrow> bool) \<Rightarrow> (bytes \<times> json) list \<Rightarrow> bytes" where
  "render pr (JObj ms) = CHR ''{'' # render_members pr ms @ ''}''"
| "render pr (JArr es) = CHR ''['' # render_elems pr es @ '']''"
| "render pr (JNum n) = n"
| "render pr (JStr s) = quote pr s"
| "render pr (JBool b) = (if b then ''true'' else ''false'')"
| "render pr JNull = ''null''"
| "render_elems pr [] = []"
| "render_elems pr (e # es) = render pr e @ (if es = [] then [] else CHR '','' # render_elems pr es)"
| "render_members pr [] = []"
| "render_members pr ((k, v) # ms) =
     quote pr k @ CHR '':'' # render pr v @ (if ms = [] then [] else CHR '','' # render_members pr ms)"

lemma Join_comma: "Join (w # ws) '','' = w @ (if ws = [] then [] else CHR '','' # Join ws '','')"
  by (cases ws) auto

lemma render_elems_Join: "render_elems pr es = Join (map (render pr) es) '',''"
  by (induction es) (auto simp: Join_comma simp del: Join.simps(2,3))

lemma render_members_Join: "render_members pr ms = Join (map (\<lambda>(k, v). quote pr k @ CHR '':'' # render pr v) ms) '',''"
  by (induction ms) (auto simp: Join_comma simp del: Join.simps(2,3))

lemma sort_key_map_snd: "sort_key fst (map (\<lambda>(k, v). (k, f v)) xs) = map (\<lambda>(k, v). (k, f v)) (sort_key fst xs)"
proof (induction xs)
  case (Cons x xs)
  have "insort_key fst (fst x, f (snd x)) (map (\<lambda>(k, v). (k, f v)) ys) = map (\<lambda>(k, v). (k, f v)) (insort_key fst x ys)" for ys
    by (induction ys) (auto simp: split_beta)
  with Cons show ?case by (cases x) simp
qed simp

lemma canonical_render: "canonical pr v = render pr (normal v)"
proof (induction v)
  case (JObj ms)
  have "map (\<lambda>(k, v). (k, canonical pr v)) ms = map (\<lambda>(k, v). (k, render pr v)) (map (\<lambda>(k, v). (k, normal v)) ms)"
    using JObj by (fastforce simp: comp_def)
  then have "sort_key fst (map (\<lambda>(k, v). (k, canonical pr v)) ms) =
      map (\<lambda>(k, v). (k, render pr v)) (sort_key fst (map (\<lambda>(k, v). (k, normal v)) ms))"
    by (simp only: sort_key_map_snd)
  then show ?case by (simp add: render_members_Join comp_def split_beta')
next
  case (JArr es)
  then have "map (canonical pr) es = map (render pr) (map normal es)" by simp
  then show ?case by (simp only: canonical.simps normal.simps render.simps render_elems_Join)
qed simp_all

text \<open>Number literals as the scanner accepts them.\<close>

fun numerals :: "json \<Rightarrow> bool" where
  "numerals (JNum n) = (n \<noteq> [] \<and> list_all number_char n \<and> (hd n = CHR ''-'' \<or> is_digit (hd n)))"
| "numerals (JArr es) = list_all numerals es"
| "numerals (JObj ms) = list_all (\<lambda>(_, v). numerals v) ms"
| "numerals j = True"

definition stops :: "bytes \<Rightarrow> bool" where
  "stops t \<longleftrightarrow> t = [] \<or> hd t \<in> set '',]}''"

lemma stops_simps [simp]: "stops []" "stops (CHR '','' # t)" "stops (CHR '']'' # t)" "stops (CHR ''}'' # t)"
  by (simp_all add: stops_def)

lemma stops_number: "stops t \<Longrightarrow> takeWhile number_char (n @ t) = takeWhile number_char n"
proof -
  assume "stops t"
  then have "takeWhile number_char t = []"
    by (cases t) (auto simp: stops_def number_char_def is_digit_def byte_def)
  then show ?thesis by (induction n) simp_all
qed

lemma number_split:
  assumes "list_all number_char n" "list_all number_char m" "n @ x = m @ y" "stops x" "stops y"
  shows "n = m \<and> x = y"
proof -
  have "takeWhile number_char n = n" "takeWhile number_char m = m"
    using assms(1,2) by (simp_all add: takeWhile_eq_all_conv list_all_iff)
  with stops_number [OF assms(4), of n] stops_number [OF assms(5), of m] assms(3) show ?thesis by simp
qed

text \<open>The kind of a value, read off its first character.\<close>

fun tag :: "json \<Rightarrow> nat" where
  "tag (JObj _) = 0" | "tag (JArr _) = 1" | "tag (JNum _) = 2" | "tag (JStr _) = 3" | "tag (JBool True) = 4"
| "tag (JBool False) = 5" | "tag JNull = 6"

definition tag_of_char :: "char \<Rightarrow> nat" where
  "tag_of_char c =
     (if c = CHR ''{'' then 0 else if c = CHR ''['' then 1 else if c = CHR 0x22 then 3 else if c = CHR ''t'' then 4
      else if c = CHR ''f'' then 5 else if c = CHR ''n'' then 6 else 2)"

lemma render_hd: "numerals v \<Longrightarrow> render pr v \<noteq> [] \<and> tag_of_char (hd (render pr v)) = tag v \<and> hd (render pr v) \<notin> set '',]}''"
proof (cases v)
  case (JNum n)
  assume "numerals v"
  then have n: "n \<noteq> []" "hd n = CHR ''-'' \<or> is_digit (hd n)" by (simp_all add: JNum)
  then have "hd n \<notin> set ''{[tfn,]}'' \<and> hd n \<noteq> CHR 0x22" by (auto simp: is_digit_def byte_def)
  with n JNum show ?thesis by (simp add: tag_of_char_def)
next
  case (JBool b)
  then show ?thesis by (cases b) (auto simp: tag_of_char_def)
qed (auto simp: tag_of_char_def quote_def)

lemma same_tag:
  assumes "numerals v" "numerals w" "render pr v @ x = render pr w @ y"
  shows "tag v = tag w"
proof -
  note v = render_hd [OF assms(1), of pr] and w = render_hd [OF assms(2), of pr]
  have "hd (render pr v) = hd (render pr v @ x)" using v by simp
  also have "\<dots> = hd (render pr w)" using w assms(3) by simp
  finally show ?thesis using v w by simp
qed

lemma render_prefix_code:
  "numerals v \<Longrightarrow> numerals w \<Longrightarrow> stops x \<Longrightarrow> stops y \<Longrightarrow> render pr v @ x = render pr w @ y \<Longrightarrow> v = w \<and> x = y"
  "list_all numerals es \<Longrightarrow> list_all numerals fs \<Longrightarrow>
    render_elems pr es @ CHR '']'' # x = render_elems pr fs @ CHR '']'' # y \<Longrightarrow> es = fs \<and> x = y"
  "list_all (\<lambda>(_, v). numerals v) ms \<Longrightarrow> list_all (\<lambda>(_, v). numerals v) ns \<Longrightarrow>
    render_members pr ms @ CHR ''}'' # x = render_members pr ns @ CHR ''}'' # y \<Longrightarrow> ms = ns \<and> x = y"
proof (induction pr v and pr es and pr ms arbitrary: w x y and fs x y and ns x y
    rule: render_render_elems_render_members.induct)
  case (1 pr ms)
  from same_tag [OF "1.prems"(1,2,5)] obtain ns where w: "w = JObj ns"
    by (cases w rule: tag.cases) auto
  with "1.IH" [of ns x y] "1.prems" show ?case by simp
next
  case (2 pr es)
  from same_tag [OF "2.prems"(1,2,5)] obtain fs where w: "w = JArr fs"
    by (cases w rule: tag.cases) auto
  with "2.IH" [of fs x y] "2.prems" show ?case by simp
next
  case (3 pr n)
  from same_tag [OF "3.prems"(1,2,5)] obtain m where w: "w = JNum m"
    by (cases w rule: tag.cases) auto
  with number_split [of n m x y] "3.prems" show ?case by simp
next
  case (4 pr s)
  from same_tag [OF "4.prems"(1,2,5)] obtain t where w: "w = JStr t"
    by (cases w rule: tag.cases) auto
  with "4.prems" show ?case by (simp add: quote_prefix_code)
next
  case (5 pr b)
  from same_tag [OF "5.prems"(1,2,5)] have "w = JBool b"
    by (cases w rule: tag.cases; cases b) auto
  with "5.prems" show ?case by simp
next
  case (6 pr)
  from same_tag [OF "6.prems"(1,2,5)] have "w = JNull"
    by (cases w rule: tag.cases) auto
  with "6.prems" show ?case by simp
next
  case (7 pr)
  show ?case
  proof (cases fs)
    case (Cons f fs')
    with "7.prems" render_hd [of f pr] show ?thesis by (cases "render pr f") auto
  qed (use "7.prems" in simp)
next
  case (8 pr e es)
  then have e: "numerals e" "list_all numerals es" by simp_all
  show ?case
  proof (cases fs)
    case Nil
    with "8.prems"(3) render_hd [OF e(1), of pr] show ?thesis by (cases "render pr e") auto
  next
    case (Cons f fs')
    let ?rest = "\<lambda>es x. (if es = [] then [] else CHR '','' # render_elems pr es) @ CHR '']'' # x"
    have "render pr e @ ?rest es x = render pr f @ ?rest fs' y" using "8.prems"(3) Cons by simp
    with "8.IH"(1) [of f "?rest es x" "?rest fs' y"] e Cons "8.prems"(2)
    have r: "e = f" "?rest es x = ?rest fs' y" by auto
    then show ?thesis using "8.IH"(2) [of fs' x y] e Cons "8.prems"(2)
      by (cases "es = []"; cases "fs' = []") auto
  qed
next
  case (9 pr)
  show ?case
  proof (cases ns)
    case (Cons n ns')
    with "9.prems" show ?thesis by (cases n) (auto simp: quote_def)
  qed (use "9.prems" in simp)
next
  case (10 pr k v ms)
  then have v: "numerals v" "list_all (\<lambda>(_, v). numerals v) ms" by simp_all
  show ?case
  proof (cases ns)
    case Nil
    with "10.prems"(3) show ?thesis by (auto simp: quote_def)
  next
    case (Cons n ns')
    obtain l w where n: "n = (l, w)" by (cases n)
    let ?rest = "\<lambda>ms x. (if ms = [] then [] else CHR '','' # render_members pr ms) @ CHR ''}'' # x"
    have "quote pr k @ CHR '':'' # render pr v @ ?rest ms x = quote pr l @ CHR '':'' # render pr w @ ?rest ns' y"
      using "10.prems"(3) Cons n by simp
    then have k: "k = l" "render pr v @ ?rest ms x = render pr w @ ?rest ns' y" unfolding quote_prefix_code by simp_all
    from k(2) "10.IH"(1) [of w "?rest ms x" "?rest ns' y"] v Cons n "10.prems"(2)
    have r: "v = w" "?rest ms x = ?rest ns' y" by auto
    then show ?thesis using "10.IH"(2) [of ns' x y] v Cons n k(1) "10.prems"(2)
      by (cases "ms = []"; cases "ns' = []") auto
  qed
qed

lemma numerals_normal: "numerals v \<Longrightarrow> numerals (normal v)"
  by (induction v) (fastforce simp: list_all_iff)+

lemma canonical_inject:
  assumes "numerals v" "numerals w" "canonical pr v = canonical pr w"
  shows "normal v = normal w"
  using render_prefix_code(1) [of "normal v" "normal w" "[]" "[]" pr] numerals_normal assms
  by (simp add: canonical_render)

lemma scan_number_hd:
  assumes "scan_number s = Some (n, r)"
  shows "n \<noteq> [] \<and> list_all number_char n \<and> (hd n = CHR ''-'' \<or> is_digit (hd n))"
proof -
  have "number_ok n" using scan_number_local [OF assms] ends_simps(1) by (metis append_Nil2 number_ok_def)
  then obtain c r' where "n = c # r'" "c = CHR ''-'' \<or> is_digit c" by (rule number_ok_hd)
  with number_chars [OF assms] show ?thesis by auto
qed

lemma parse_numerals:
  "parse_value d s = Some (v, r) \<Longrightarrow> numerals v"
  "parse_elems d s = Some (es, r) \<Longrightarrow> list_all (\<lambda>(_, v). numerals v) es"
  "parse_members d s = Some (ms, r) \<Longrightarrow> list_all (\<lambda>(_, _, v). numerals v) ms"
proof (induction d s and d s and d s arbitrary: v r and es r and ms r
    rule: parse_value_parse_elems_parse_members.induct)
  case (1 d s)
  then obtain c s' where s: "s = c # s'" by (cases s) auto
  note step = parse_value.simps [of d s, unfolded s list.case]
  consider (obj) "c = CHR ''{''" | (arr) "c = CHR ''[''" | (str) "c = CHR 0x22" | (lit) "c \<in> set ''tfn''"
    | (num) "c \<noteq> CHR 0x22" "c \<notin> set ''{[tfn''" by auto
  then show ?case
  proof cases
    case obj
    show ?thesis
    proof (cases "HasPrefix (skip_ws s') ''}''")
      case False
      with "1.prems" obj step s obtain ms where "0 < d" "parse_members (d - 1) (skip_ws s') = Some (ms, r)"
        "v = JObj (map (\<lambda>(k, _, v). (k, v)) ms)"
        by (cases "parse_members (d - 1) (skip_ws s')") (auto split: if_splits)
      with "1.IH"(1) [OF s obj] False show ?thesis by (fastforce simp: list_all_iff)
    qed (use "1.prems" obj step s in \<open>auto split: if_splits\<close>)
  next
    case arr
    then have nobj: "c \<noteq> CHR ''{''" by simp
    show ?thesis
    proof (cases "HasPrefix (skip_ws s') '']''")
      case False
      with "1.prems" arr step s obtain es where "0 < d" "parse_elems (d - 1) (skip_ws s') = Some (es, r)" "v = JArr (map snd es)"
        by (cases "parse_elems (d - 1) (skip_ws s')") (auto split: if_splits)
      with "1.IH"(2) [OF s nobj arr] False show ?thesis by (fastforce simp: list_all_iff)
    qed (use "1.prems" arr step s in \<open>auto split: if_splits\<close>)
  next
    case str
    with "1.prems" step s show ?thesis by (cases "scan_string s'") auto
  next
    case lit
    with "1.prems" step s show ?thesis by (auto simp: literal_def split: if_splits)
  next
    case num
    with "1.prems" step s obtain n where "scan_number s = Some (n, r)" "v = JNum n"
      by (cases "scan_number s") auto
    with scan_number_hd show ?thesis by simp
  qed
next
  case (2 d s)
  from "2.prems" obtain v r1 where v: "parse_value d s = Some (v, r1)" "length r1 < length s"
    by (subst (asm) parse_elems.simps) (auto split: option.splits if_splits)
  let ?raw = "take (length s - length r1) s"
  have nv: "numerals v" using "2.IH"(1) v by blast
  have "es = [(?raw, v)] \<or> (\<exists>es'. es = (?raw, v) # es' \<and> HasPrefix (skip_ws r1) '','' \<and>
      parse_elems d (skip_ws (drop 1 (skip_ws r1))) = Some (es', r))"
    using "2.prems" v by (subst (asm) parse_elems.simps) (auto simp: Let_def split: if_splits)
  with nv "2.IH"(2) v show ?case by fastforce
next
  case (3 d s)
  from "3.prems" obtain q r0 v r1 where q: "HasPrefix s [CHR 0x22]" "scan_string (drop 1 s) = Some (q, r0)"
    "length r0 < length s" "HasPrefix (skip_ws r0) '':''"
    and v: "parse_value d (skip_ws (drop 1 (skip_ws r0))) = Some (v, r1)" "length r1 < length (skip_ws (drop 1 (skip_ws r0)))"
    by (subst (asm) parse_members.simps) (auto simp: Let_def split: option.splits if_splits)
  have nv: "numerals v" using "3.IH"(1) q v by blast
  have "(\<exists>raw. ms = [(unquote q, raw, v)]) \<or> (\<exists>raw ms'. ms = (unquote q, raw, v) # ms' \<and> HasPrefix (skip_ws r1) '','' \<and>
      parse_members d (skip_ws (drop 1 (skip_ws r1))) = Some (ms', r))"
    using "3.prems" q v by (subst (asm) parse_members.simps) (auto simp: Let_def split: if_splits)
  with nv "3.IH"(2) q v show ?case by fastforce
qed

lemma update_set: "set (AList.update k v al) \<subseteq> insert (k, v) (set al)"
  by (induction al) auto

lemma last_wins_set: "set (last_wins ms) \<subseteq> set ms"
proof -
  have "set (foldl (\<lambda>m (k, v). AList.update k v m) al ms) \<subseteq> set al \<union> set ms" for al :: "(bytes \<times> 'a) list"
  proof (induction ms arbitrary: al)
    case (Cons m ms)
    show ?case using Cons [of "AList.update (fst m) (snd m) al"] update_set [of "fst m" "snd m" al]
      by (cases m) auto
  qed simp
  from this [of "[]"] show ?thesis by (simp add: last_wins_def)
qed

lemma numerals_any: "numerals v \<Longrightarrow> numerals (to_any v)"
proof (induction v)
  case (JObj ms)
  then have "\<forall>(k, v) \<in> set (map (\<lambda>(k, v). (k, to_any v)) ms). numerals v" by (fastforce simp: list_all_iff)
  with last_wins_set [of "map (\<lambda>(k, v). (k, to_any v)) ms"] show ?case by (auto simp: list_all_iff)
qed (auto simp: list_all_iff)

lemma parsed_numerals: "parse_json s = Some v \<Longrightarrow> numerals (to_any v)"
  using parse_numerals(1) by (auto simp: parse_json_def numerals_any split: option.splits prod.splits if_splits)

text \<open>The definition a fingerprint stands for: the decoded tool, up to the order of keys.\<close>

definition definition_of :: "bytes \<Rightarrow> json option" where
  "definition_of raw = map_option (\<lambda>v. normal (to_any v)) (parse_json raw)"

lemma fingerprint_Some:
  assumes "fingerprint sha pr raw = Some (name, fp)"
  obtains v where "parse_json raw = Some v" "fp = sha (canonical pr (to_any v))" "definition_of raw = Some (normal (to_any v))"
    "numerals (to_any v)"
  using assms parsed_numerals [of raw]
  by (auto simp: fingerprint_def definition_of_def split: option.splits json.splits if_splits)

text \<open>The text a definition is hashed as.\<close>

definition hashed_text :: "(bytes \<Rightarrow> bool) \<Rightarrow> bytes \<Rightarrow> bytes" where
  "hashed_text pr raw = (case parse_json raw of Some v \<Rightarrow> canonical pr (to_any v) | None \<Rightarrow> [])"

text \<open>
  C19: A fingerprint covers the whole definition: it is the hash of a text, and the texts of two
  tools are equal exactly when the tools decode to the same definition up to key order. So equal
  definitions have equal fingerprints, and a definition that differs anywhere, in any field at any
  depth, has another one unless these two texts are themselves a collision of the hash.\<close>

theorem fingerprint_covers_definition:
  assumes "fingerprint sha pr a = Some (n, fp)" "fingerprint sha pr b = Some (m, fq)"
  shows "fp = sha (hashed_text pr a) \<and> fq = sha (hashed_text pr b) \<and>
    (hashed_text pr a = hashed_text pr b \<longleftrightarrow> definition_of a = definition_of b) \<and>
    (if definition_of a = definition_of b then fp = fq
     else fp \<noteq> fq \<or> (hashed_text pr a \<noteq> hashed_text pr b \<and> sha (hashed_text pr a) = sha (hashed_text pr b)))"
proof -
  obtain v where v: "parse_json a = Some v" "fp = sha (canonical pr (to_any v))" "definition_of a = Some (normal (to_any v))"
    "numerals (to_any v)"
    by (rule fingerprint_Some [OF assms(1)])
  obtain w where w: "parse_json b = Some w" "fq = sha (canonical pr (to_any w))" "definition_of b = Some (normal (to_any w))"
    "numerals (to_any w)"
    by (rule fingerprint_Some [OF assms(2)])
  have "canonical pr (to_any v) = canonical pr (to_any w) \<longleftrightarrow> definition_of a = definition_of b"
    using canonical_inject [OF v(4) w(4), of pr] v(3) w(3) by (auto simp: canonical_render)
  with v w show ?thesis by (auto simp: hashed_text_def)
qed

section \<open>What is flagged\<close>

text \<open>One listing as a function from tool names to fingerprints, and the tools it introduces.\<close>

type_synonym listing = "bytes \<Rightarrow> (bytes \<times> bytes) option"

definition shown :: "listing \<Rightarrow> bytes \<Rightarrow> bytes option" where
  "shown S n = map_option fst (S n)"

lemma listed_distinct: "distinct (map fst (listed sha pr tools))"
proof -
  have "distinct (map fst al) \<Longrightarrow> distinct (map fst (foldl (\<lambda>seen raw. case fingerprint sha pr raw of
         None \<Rightarrow> seen | Some (name, fp) \<Rightarrow> AList.update name (fp, raw) seen) al tools))" for al :: "(bytes \<times> bytes \<times> bytes) list"
    by (induction tools arbitrary: al) (auto split: option.splits intro: distinct_update)
  then show ?thesis by (simp add: listed_def)
qed

definition captures :: "('d, 'c, 's) schema_lib \<Rightarrow> bytes \<Rightarrow> bytes \<Rightarrow> 's option" where
  "captures lib name raw = (if length raw = 0 then None else case compileSchema lib name raw of Inr (Some sch) \<Rightarrow> Some sch | _ \<Rightarrow> None)"

lemma compileLocked_frame [simp]:
  "rg_first (compileLocked lib r n raw) = rg_first r" "rg_changed (compileLocked lib r n raw) = rg_changed r"
  "rg_changes (compileLocked lib r n raw) = rg_changes r" "rg_listings (compileLocked lib r n raw) = rg_listings r"
  by (auto simp: compileLocked_def split: sum.splits option.splits)

lemma compileLocked_schemas: "map_of (rg_schemas (compileLocked lib r n raw)) =
    (case captures lib n raw of Some sch \<Rightarrow> (map_of (rg_schemas r))(n \<mapsto> sch) | None \<Rightarrow> map_of (rg_schemas r))"
  by (auto simp: compileLocked_def captures_def update_conv' split: sum.splits option.splits)

lemma baseline_fields [simp]:
  "map_of (rg_first (baseline lib r (n, fp, raw))) = (map_of (rg_first r))(n \<mapsto> fp)"
  "rg_changed (baseline lib r (n, fp, raw)) = rg_changed r" "rg_changes (baseline lib r (n, fp, raw)) = rg_changes r"
  "rg_listings (baseline lib r (n, fp, raw)) = rg_listings r"
  "map_of (rg_schemas (baseline lib r (n, fp, raw))) =
    (case captures lib n raw of Some sch \<Rightarrow> (map_of (rg_schemas r))(n \<mapsto> sch) | None \<Rightarrow> map_of (rg_schemas r))"
  by (simp_all add: baseline_def update_conv' compileLocked_schemas split: option.split)

lemma mark_changed_fields [simp]:
  "rg_first (mark_changed n r) = rg_first r" "set (rg_changed (mark_changed n r)) = insert n (set (rg_changed r))"
  "rg_changes (mark_changed n r) = rg_changes r" "rg_listings (mark_changed n r) = rg_listings r"
  "rg_schemas (mark_changed n r) = rg_schemas r" "distinct (rg_changed (mark_changed n r)) = distinct (rg_changed r)"
  by (simp_all add: mark_changed_def distinct_insert)

text \<open>The registry after a listing, as functions of the registry before and the listing.\<close>

definition first_after :: "(bytes \<Rightarrow> bytes option) \<Rightarrow> listing \<Rightarrow> bytes \<Rightarrow> bytes option" where
  "first_after F S n = (case F n of Some fp \<Rightarrow> Some fp | None \<Rightarrow> shown S n)"

definition schema_after :: "('d, 'c, 's) schema_lib \<Rightarrow> (bytes \<Rightarrow> bytes option) \<Rightarrow> (bytes \<Rightarrow> 's option) \<Rightarrow> listing \<Rightarrow> bytes \<Rightarrow> 's option" where
  "schema_after lib F M S n =
     (case (F n, S n) of (None, Some (fp, raw)) \<Rightarrow>
         (case captures lib n raw of Some sch \<Rightarrow> Some sch | None \<Rightarrow> M n)
      | _ \<Rightarrow> M n)"

definition differs :: "(bytes \<Rightarrow> bytes option) \<Rightarrow> listing \<Rightarrow> bytes set" where
  "differs F S = {n. \<exists>fp. shown S n = Some fp \<and> F n \<noteq> Some fp}"

definition new_change :: "(bytes \<Rightarrow> bytes option) \<Rightarrow> nat \<Rightarrow> bytes \<times> bytes \<times> bytes \<Rightarrow> change list" where
  "new_change F l = (\<lambda>(name, fp, raw).
     case F name of
       None \<Rightarrow> [\<lparr>ch_Tool = name, ch_Kind = Added, ch_Was = [], ch_Now = fp, ch_Listing = l\<rparr>]
     | Some was \<Rightarrow>
         if was \<noteq> fp then [\<lparr>ch_Tool = name, ch_Kind = Modified, ch_Was = was, ch_Now = fp, ch_Listing = l\<rparr>] else [])"

lemma baseline_fold:
  assumes "distinct (map fst seen)" "set (map fst seen) \<inter> dom (map_of (rg_first r)) = {}"
  shows "map_of (rg_first (foldl (baseline lib) r seen)) = first_after (map_of (rg_first r)) (map_of seen) \<and>
    map_of (rg_schemas (foldl (baseline lib) r seen)) =
      schema_after lib (map_of (rg_first r)) (map_of (rg_schemas r)) (map_of seen) \<and>
    rg_changed (foldl (baseline lib) r seen) = rg_changed r \<and> rg_changes (foldl (baseline lib) r seen) = rg_changes r \<and>
    rg_listings (foldl (baseline lib) r seen) = rg_listings r"
  using assms
proof (induction seen arbitrary: r)
  case Nil
  then show ?case by (auto simp: first_after_def schema_after_def shown_def split: option.splits)
next
  case (Cons t seen)
  obtain n fp raw where t: "t = (n, fp, raw)" by (cases t)
  let ?r = "baseline lib r (n, fp, raw)"
  have fr: "map_of (rg_first r) n = None" "map_of seen n = None"
    using Cons.prems t by (auto simp: map_of_eq_None_iff disjoint_iff domIff)
  have "set (map fst seen) \<inter> dom (map_of (rg_first ?r)) = {}"
    using Cons.prems t by auto
  from Cons.IH [OF _ this] Cons.prems(1) fr show ?case
    by (auto simp: t fun_eq_iff first_after_def schema_after_def shown_def split: option.splits)
qed

lemma compare_fold:
  assumes "distinct (map fst seen)" "foldl (compare_seen lib) (r, out) seen = (r', out')"
  shows "map_of (rg_first r') = first_after (map_of (rg_first r)) (map_of seen) \<and>
    map_of (rg_schemas r') = schema_after lib (map_of (rg_first r)) (map_of (rg_schemas r)) (map_of seen) \<and>
    set (rg_changed r') = set (rg_changed r) \<union> differs (map_of (rg_first r)) (map_of seen) \<and>
    (distinct (rg_changed r') \<longleftrightarrow> distinct (rg_changed r)) \<and>
    rg_changes r' = rg_changes r \<and> rg_listings r' = rg_listings r \<and>
    out' = out @ concat (map (new_change (map_of (rg_first r)) (rg_listings r)) seen)"
  using assms
proof (induction seen arbitrary: r out)
  case Nil
  then show ?case by (auto simp: first_after_def schema_after_def shown_def differs_def split: option.splits)
next
  case (Cons t seen)
  obtain n fp raw where t: "t = (n, fp, raw)" by (cases t)
  obtain r1 out1 where r1: "compare_seen lib (r, out) t = (r1, out1)" by (cases "compare_seen lib (r, out) t")
  have n: "map_of seen n = None" "n \<notin> fst ` set seen" using Cons.prems(1) t by (auto simp: map_of_eq_None_iff)
  from r1 have F: "map_of (rg_first r1) = (if map_of (rg_first r) n = None then (map_of (rg_first r))(n \<mapsto> fp) else map_of (rg_first r))"
    and M: "map_of (rg_schemas r1) = schema_after lib (map_of (rg_first r)) (map_of (rg_schemas r)) [n \<mapsto> (fp, raw)]"
    and C: "set (rg_changed r1) = set (rg_changed r) \<union> (if map_of (rg_first r) n = Some fp then {} else {n})"
      "distinct (rg_changed r1) \<longleftrightarrow> distinct (rg_changed r)" "rg_changes r1 = rg_changes r" "rg_listings r1 = rg_listings r"
    and O: "out1 = out @ new_change (map_of (rg_first r)) (rg_listings r) t"
    by (auto simp: t compare_seen_def new_change_def schema_after_def fun_eq_iff split: option.splits if_splits)
  have "new_change (map_of (rg_first r1)) l t' = new_change (map_of (rg_first r)) l t'" if "t' \<in> set seen" for t' l
  proof -
    have "fst t' \<noteq> n" using that n(2) by auto
    then show ?thesis by (cases t') (simp add: new_change_def F)
  qed
  then have nc: "map (new_change (map_of (rg_first r1)) l) seen = map (new_change (map_of (rg_first r)) l) seen" for l by simp
  have "foldl (compare_seen lib) (r1, out1) seen = (r', out')" using Cons.prems(2) r1 by simp
  note IH = Cons.IH [OF _ this]
  have "first_after (map_of (rg_first r1)) (map_of seen) = first_after (map_of (rg_first r)) (map_of (t # seen))"
    using n F by (auto simp: t fun_eq_iff first_after_def shown_def split: option.splits)
  moreover have "schema_after lib (map_of (rg_first r1)) (map_of (rg_schemas r1)) (map_of seen) =
      schema_after lib (map_of (rg_first r)) (map_of (rg_schemas r)) (map_of (t # seen))"
    using n F M by (auto simp: t fun_eq_iff schema_after_def split: option.splits)
  moreover have "set (rg_changed r1) \<union> differs (map_of (rg_first r1)) (map_of seen) =
      set (rg_changed r) \<union> differs (map_of (rg_first r)) (map_of (t # seen))"
    using n F C(1) by (auto simp: t differs_def shown_def split: if_splits)
  ultimately show ?case using IH Cons.prems(1) C O nc by (simp add: t fun_upd_def)
qed

lemma first_distinct:
  "distinct (map fst (rg_first r)) \<Longrightarrow> distinct (map fst (rg_first (baseline lib r t)))"
  "distinct (map fst (rg_first r)) \<Longrightarrow> distinct (map fst (rg_first (fst (compare_seen lib (r, out) t))))"
  by (auto simp: baseline_def compare_seen_def split_beta' split: option.split intro: distinct_update)

lemma first_distinct_folds:
  "distinct (map fst (rg_first r)) \<Longrightarrow> distinct (map fst (rg_first (foldl (baseline lib) r seen)))"
  "distinct (map fst (rg_first r)) \<Longrightarrow> distinct (map fst (rg_first (fst (foldl (compare_seen lib) (r, out) seen))))"
proof -
  show "distinct (map fst (rg_first r)) \<Longrightarrow> distinct (map fst (rg_first (foldl (baseline lib) r seen)))"
    by (induction seen arbitrary: r) (auto intro: first_distinct)
  show "distinct (map fst (rg_first r)) \<Longrightarrow> distinct (map fst (rg_first (fst (foldl (compare_seen lib) (r, out) seen))))"
  proof (induction seen arbitrary: r out)
    case (Cons t seen)
    then show ?case using first_distinct(2) [of r lib out t] by (cases "compare_seen lib (r, out) t") simp
  qed simp
qed

subsection \<open>One listing\<close>

definition reported :: "(bytes \<Rightarrow> bytes option) \<Rightarrow> listing \<Rightarrow> (bytes \<Rightarrow> bool) \<Rightarrow> nat \<Rightarrow> change set" where
  "reported F S gone l =
     {\<lparr>ch_Tool = n, ch_Kind = Added, ch_Was = [], ch_Now = fp, ch_Listing = l\<rparr> |n fp. F n = None \<and> shown S n = Some fp} \<union>
     {\<lparr>ch_Tool = n, ch_Kind = Modified, ch_Was = was, ch_Now = fp, ch_Listing = l\<rparr> |n was fp.
        F n = Some was \<and> shown S n = Some fp \<and> was \<noteq> fp} \<union>
     {\<lparr>ch_Tool = n, ch_Kind = Removed, ch_Was = was, ch_Now = [], ch_Listing = l\<rparr> |n was.
        F n = Some was \<and> shown S n = None \<and> \<not> gone n}"

lemma reported_key: "c \<in> reported F S gone l \<Longrightarrow> d \<in> reported F S gone l \<Longrightarrow> change_key c = change_key d \<Longrightarrow> c = d"
  by (auto simp: reported_def change_key_def)

definition changes_list :: "'s registry \<Rightarrow> (bytes \<times> bytes \<times> bytes) list \<Rightarrow> change list" where
  "changes_list r seen = concat (map (new_change (map_of (rg_first r)) (rg_listings r)) seen) @ removals r seen"

lemma new_change_mem:
  "c \<in> set (new_change F l (n, fp, raw)) \<longleftrightarrow>
    F n = None \<and> c = \<lparr>ch_Tool = n, ch_Kind = Added, ch_Was = [], ch_Now = fp, ch_Listing = l\<rparr> \<or>
    (\<exists>was. F n = Some was \<and> was \<noteq> fp \<and>
      c = \<lparr>ch_Tool = n, ch_Kind = Modified, ch_Was = was, ch_Now = fp, ch_Listing = l\<rparr>)"
  by (auto simp: new_change_def split: option.split)

lemma set_new_changes:
  assumes "distinct (map fst seen)"
  shows "set (concat (map (new_change F l) seen)) =
    {\<lparr>ch_Tool = n, ch_Kind = Added, ch_Was = [], ch_Now = fp, ch_Listing = l\<rparr> |n fp. F n = None \<and> shown (map_of seen) n = Some fp} \<union>
    {\<lparr>ch_Tool = n, ch_Kind = Modified, ch_Was = was, ch_Now = fp, ch_Listing = l\<rparr> |n was fp.
       F n = Some was \<and> shown (map_of seen) n = Some fp \<and> was \<noteq> fp}" (is "?L = ?R")
proof -
  have m: "shown (map_of seen) n = Some fp \<longleftrightarrow> (\<exists>raw. (n, fp, raw) \<in> set seen)" for n fp
    using assms by (auto simp: shown_def)
  have "c \<in> ?L \<longleftrightarrow> c \<in> ?R" for c
  proof -
    have "c \<in> ?L \<longleftrightarrow> (\<exists>n fp raw. (n, fp, raw) \<in> set seen \<and> c \<in> set (new_change F l (n, fp, raw)))" by force
    then show ?thesis unfolding m new_change_mem by blast
  qed
  then show ?thesis by blast
qed

lemma set_removals:
  assumes "distinct (map fst (rg_first r))"
  shows "set (removals r seen) =
    {\<lparr>ch_Tool = n, ch_Kind = Removed, ch_Was = was, ch_Now = [], ch_Listing = rg_listings r\<rparr> |n was.
       map_of (rg_first r) n = Some was \<and> shown (map_of seen) n = None \<and> \<not> removedAlready r n}"
  using assms by (fastforce simp: removals_def shown_def)

lemma distinct_new_changes:
  "distinct (map fst seen) \<Longrightarrow> distinct (map ch_Tool (concat (map (new_change F l) seen))) \<and>
    ch_Tool ` set (concat (map (new_change F l) seen)) \<subseteq> fst ` set seen"
proof (induction seen)
  case (Cons t seen)
  obtain n fp raw where t: "t = (n, fp, raw)" by (cases t)
  have "new_change F l t = [] \<or> (\<exists>c. new_change F l t = [c] \<and> ch_Tool c = n)"
    by (auto simp: t new_change_def split: option.split)
  moreover have "n \<notin> ch_Tool ` set (concat (map (new_change F l) seen))"
    using Cons t by auto
  ultimately show ?case using Cons t by (auto simp del: set_concat)
qed simp

lemma distinct_mapD: "distinct (map f xs) \<Longrightarrow> distinct xs"
  by (simp add: distinct_map)

lemma distinct_changes:
  assumes "distinct (map fst seen)" "distinct (map fst (rg_first r))"
  shows "distinct (concat (map (new_change F l) seen) @ removals r seen)"
proof -
  have "distinct (map ch_Tool (removals r seen))"
    using assms(2) by (auto simp: removals_def comp_def split_beta distinct_map_filter)
  moreover have "ch_Kind c \<noteq> Removed" if "c \<in> set (concat (map (new_change F l) seen))" for c
    using that unfolding set_new_changes [OF assms(1)] by auto
  moreover have "ch_Kind c = Removed" if "c \<in> set (removals r seen)" for c
    using that unfolding set_removals [OF assms(2)] by auto
  ultimately show ?thesis using distinct_new_changes [OF assms(1), of F l]
    by (auto simp del: set_concat dest!: distinct_mapD)
qed

text \<open>
  C20: After the first listing, each listing is compared with what every tool was first seen as,
  never with the listing before it. Exactly the tools that appeared late, the tools whose
  definition is not the first one and (once) the tools that are gone are reported, in an order
  that depends on nothing but the changes.\<close>

theorem Observe_reports_changes:
  assumes "Registry_Observe sha pr lib r tools = (r', out)" "0 < rg_listings r" "distinct (map fst (rg_first r))"
  shows "set out = reported (map_of (rg_first r)) (map_of (listed sha pr tools)) (removedAlready r) (rg_listings r + 1) \<and>
    sorted_wrt (<) (map change_key out) \<and> rg_changes r' = rg_changes r @ out"
proof -
  let ?r = "r\<lparr>rg_listings := rg_listings r + 1\<rparr>" and ?seen = "listed sha pr tools"
  obtain r1 out1 where f: "foldl (compare_seen lib) (?r, []) ?seen = (r1, out1)" by (cases "foldl (compare_seen lib) (?r, []) ?seen")
  note d = listed_distinct [of sha pr tools]
  note c = compare_fold [OF d f]
  have dr: "distinct (map fst (rg_first r1))" using first_distinct_folds(2) [of ?r lib "[]" ?seen] assms(3) f by simp
  let ?all = "concat (map (new_change (map_of (rg_first r)) (rg_listings r + 1)) ?seen) @ removals r1 ?seen"
  have out: "out = sort_key change_key ?all" "r' = r1\<lparr>rg_changes := rg_changes r1 @ out\<rparr>"
    using assms(1,2) f c by (auto simp: Registry_Observe_def Let_def)
  have "removedAlready r1 = removedAlready r" using c by (simp add: removedAlready_def fun_eq_iff)
  moreover have "map_of (rg_first r1) n = Some was \<and> shown (map_of ?seen) n = None \<longleftrightarrow>
      map_of (rg_first r) n = Some was \<and> shown (map_of ?seen) n = None" for n was
    using c by (auto simp: first_after_def split: option.splits)
  moreover have "rg_listings r1 = rg_listings r + 1" using c by simp
  ultimately have "set ?all = reported (map_of (rg_first r)) (map_of ?seen) (removedAlready r) (rg_listings r + 1)"
    unfolding set_append set_new_changes [OF d] set_removals [OF dr] reported_def by (simp only: conj_assoc [symmetric])
  moreover from this reported_key have "inj_on change_key (set ?all)" unfolding inj_on_def by metis
  moreover have "distinct ?all" by (rule distinct_changes [OF d dr])
  ultimately show ?thesis using out c
    by (simp add: strict_sorted_iff distinct_map)
qed

subsection \<open>A session of listings\<close>

definition observe_listings :: "(bytes \<Rightarrow> bytes) \<Rightarrow> (bytes \<Rightarrow> bool) \<Rightarrow> ('d, 'c, 's) schema_lib \<Rightarrow> 's registry \<Rightarrow> bytes list list \<Rightarrow> 's registry" where
  "observe_listings sha pr lib r ls = foldl (\<lambda>r tools. fst (Registry_Observe sha pr lib r tools)) r ls"

definition first_shown :: "listing list \<Rightarrow> bytes \<Rightarrow> bytes option" where
  "first_shown Ls n = (case find (\<lambda>S. S n \<noteq> None) Ls of Some S \<Rightarrow> shown S n | None \<Rightarrow> None)"

definition first_schema :: "('d, 'c, 's) schema_lib \<Rightarrow> listing list \<Rightarrow> bytes \<Rightarrow> 's option" where
  "first_schema lib Ls n =
     (case find (\<lambda>S. S n \<noteq> None) Ls of
       Some S \<Rightarrow> (case S n of Some (fp, raw) \<Rightarrow> captures lib n raw | None \<Rightarrow> None)
     | None \<Rightarrow> None)"

text \<open>A tool moved when a listing after the first shows it with anything but the fingerprint it
  was first shown with before that listing, or shows it for the first time.\<close>

definition moved :: "listing list \<Rightarrow> bytes set" where
  "moved Ls = {n. \<exists>j fp. 0 < j \<and> j < length Ls \<and> shown (Ls ! j) n = Some fp \<and> first_shown (take j Ls) n \<noteq> Some fp}"

lemma find_snoc: "find P (xs @ [x]) = (case find P xs of Some y \<Rightarrow> Some y | None \<Rightarrow> if P x then Some x else None)"
  by (induction xs) auto

lemma find_prop: "find P xs = Some x \<Longrightarrow> P x"
  by (auto simp: find_Some_iff)

lemma first_shown_snoc: "first_shown (Ls @ [S]) = first_after (first_shown Ls) S"
proof
  fix n
  show "first_shown (Ls @ [S]) n = first_after (first_shown Ls) S n"
    by (cases "S n") (auto simp: first_shown_def first_after_def find_snoc shown_def dest: find_prop split: option.splits)
qed

lemma first_shown_None: "first_shown Ls n = None \<longleftrightarrow> find (\<lambda>S. S n \<noteq> None) Ls = None"
  by (auto simp: first_shown_def shown_def dest: find_prop split: option.splits)

lemma first_schema_snoc: "first_schema lib (Ls @ [S]) = schema_after lib (first_shown Ls) (first_schema lib Ls) S"
proof
  fix n
  show "first_schema lib (Ls @ [S]) n = schema_after lib (first_shown Ls) (first_schema lib Ls) S n"
    using first_shown_None [of Ls n]
    by (cases "find (\<lambda>S. S n \<noteq> None) Ls")
      (auto simp: first_schema_def schema_after_def find_snoc split: option.splits)
qed

lemma moved_snoc: "moved (Ls @ [S]) = moved Ls \<union> (if Ls = [] then {} else differs (first_shown Ls) S)"
proof -
  have "n \<in> moved (Ls @ [S]) \<longleftrightarrow> n \<in> moved Ls \<or> Ls \<noteq> [] \<and> n \<in> differs (first_shown Ls) S" for n
    unfolding moved_def differs_def mem_Collect_eq
  proof (intro iffI; elim exE conjE disjE)
    fix j fp
    assume "0 < j" "j < length (Ls @ [S])" "shown ((Ls @ [S]) ! j) n = Some fp" "first_shown (take j (Ls @ [S])) n \<noteq> Some fp"
    then show "(\<exists>j fp. 0 < j \<and> j < length Ls \<and> shown (Ls ! j) n = Some fp \<and> first_shown (take j Ls) n \<noteq> Some fp) \<or>
        Ls \<noteq> [] \<and> (\<exists>fp. shown S n = Some fp \<and> first_shown Ls n \<noteq> Some fp)"
      by (cases "j = length Ls") (auto simp: nth_append)
  next
    fix j fp
    assume "0 < j" "j < length Ls" "shown (Ls ! j) n = Some fp" "first_shown (take j Ls) n \<noteq> Some fp"
    then show "\<exists>j fp. 0 < j \<and> j < length (Ls @ [S]) \<and> shown ((Ls @ [S]) ! j) n = Some fp \<and>
        first_shown (take j (Ls @ [S])) n \<noteq> Some fp"
      by (intro exI [of _ j] exI [of _ fp]) (auto simp: nth_append)
  next
    fix fp
    assume "Ls \<noteq> []" "shown S n = Some fp" "first_shown Ls n \<noteq> Some fp"
    then show "\<exists>j fp. 0 < j \<and> j < length (Ls @ [S]) \<and> shown ((Ls @ [S]) ! j) n = Some fp \<and>
        first_shown (take j (Ls @ [S])) n \<noteq> Some fp"
      by (intro exI [of _ "length Ls"] exI [of _ fp]) auto
  qed
  then show ?thesis by auto
qed

definition tracks :: "('d, 'c, 's) schema_lib \<Rightarrow> 's registry \<Rightarrow> listing list \<Rightarrow> bool" where
  "tracks lib r Ls \<longleftrightarrow>
     rg_listings r = length Ls \<and> map_of (rg_first r) = first_shown Ls \<and> map_of (rg_schemas r) = first_schema lib Ls \<and>
     set (rg_changed r) = moved Ls \<and> distinct (rg_changed r) \<and> distinct (map fst (rg_first r))"

lemma tracks_Observe:
  assumes "tracks lib r Ls"
  shows "tracks lib (fst (Registry_Observe sha pr lib r tools)) (Ls @ [map_of (listed sha pr tools)])"
proof (cases "Ls = []")
  case True
  let ?r = "r\<lparr>rg_listings := 1\<rparr>" and ?seen = "listed sha pr tools"
  have e: "first_shown [] = Map.empty" "first_schema lib [] = Map.empty" "moved [] = {}"
    by (auto simp: first_shown_def first_schema_def moved_def)
  have r: "rg_listings r = 0" "map_of (rg_schemas r) = Map.empty" "rg_changed r = []" "rg_first r = []"
    using assms True by (simp_all add: tracks_def e)
  have "Registry_Observe sha pr lib r tools = (foldl (baseline lib) ?r ?seen, [])"
    by (simp add: Registry_Observe_def r)
  then show ?thesis
    using baseline_fold [OF listed_distinct [of sha pr tools], of ?r lib] r first_distinct_folds(1) [of ?r lib ?seen]
      first_shown_snoc [of "[]" "map_of ?seen"] first_schema_snoc [of lib "[]" "map_of ?seen"] moved_snoc [of "[]" "map_of ?seen"]
    by (simp add: tracks_def True e)
next
  case False
  let ?r = "r\<lparr>rg_listings := rg_listings r + 1\<rparr>" and ?seen = "listed sha pr tools"
  obtain r1 out1 where f: "foldl (compare_seen lib) (?r, []) ?seen = (r1, out1)" by (cases "foldl (compare_seen lib) (?r, []) ?seen")
  have n: "rg_listings r \<noteq> 0" using assms False by (simp add: tracks_def)
  have "distinct (map fst (rg_first r1))" using first_distinct_folds(2) [of ?r lib "[]" ?seen] assms f by (simp add: tracks_def)
  moreover have "fst (Registry_Observe sha pr lib r tools) =
      r1\<lparr>rg_changes := rg_changes r1 @ sort_key change_key (out1 @ removals r1 ?seen)\<rparr>"
    using n f by (simp add: Registry_Observe_def Let_def)
  ultimately show ?thesis
    using compare_fold [OF listed_distinct f] assms False
    by (simp add: tracks_def first_shown_snoc first_schema_snoc moved_snoc)
qed

definition listing_maps :: "(bytes \<Rightarrow> bytes) \<Rightarrow> (bytes \<Rightarrow> bool) \<Rightarrow> bytes list list \<Rightarrow> listing list" where
  "listing_maps sha pr ls = map (\<lambda>tools. map_of (listed sha pr tools)) ls"

definition after_listings :: "(bytes \<Rightarrow> bytes) \<Rightarrow> (bytes \<Rightarrow> bool) \<Rightarrow> ('d, 'c, 's) schema_lib \<Rightarrow> bytes list list \<Rightarrow> 's registry" where
  "after_listings sha pr lib ls = observe_listings sha pr lib NewRegistry ls"

lemma tracks_session:
  "tracks lib (after_listings sha pr lib ls) (listing_maps sha pr ls)"
  unfolding after_listings_def listing_maps_def
proof (induction ls rule: rev_induct)
  case Nil
  show ?case
    by (simp add: tracks_def observe_listings_def NewRegistry_def first_shown_def first_schema_def moved_def fun_eq_iff)
next
  case (snoc tools ls)
  from tracks_Observe [OF this, of sha pr tools] show ?case by (simp add: observe_listings_def)
qed

text \<open>
  C16: The inventory flags exactly the tools whose definition moved: over any sequence of
  listings, a tool is flagged when some later listing introduced it or showed it with another
  fingerprint than the first one it was shown with. Changing a definition and changing it back
  does not clear the flag, and the counter is the number of flagged tools.\<close>

theorem flags_exactly_moved_tools:
  "(Registry_Changed (after_listings sha pr lib ls) n \<longleftrightarrow> n \<in> moved (listing_maps sha pr ls)) \<and>
   ChangedCount (after_listings sha pr lib ls) = card (moved (listing_maps sha pr ls)) \<and>
   Listings (after_listings sha pr lib ls) = length ls"
  using tracks_session [of lib sha pr ls]
  by (auto simp: tracks_def Registry_Changed_def ChangedCount_def Listings_def listing_maps_def distinct_card [symmetric])

text \<open>
  Arguments are always checked against the schema the tool was first advertised with: over
  any sequence of listings, validation uses the schema compiled from the first definition, so
  widening a schema later admits nothing.\<close>

theorem validates_against_first_schema:
  "Registry_Validate lib (after_listings sha pr lib ls) tool args =
    (case first_schema lib (listing_maps sha pr ls) tool of
       None \<Rightarrow> (False, [])
     | Some sch \<Rightarrow> (True, (case sl_Validate lib sch (JObj (case args of None \<Rightarrow> [] | Some a \<Rightarrow> a)) of
           Valid \<Rightarrow> [] | Failed e \<Rightarrow> [e] | Invalid ve \<Rightarrow> flatten ve)))"
  using tracks_session [of lib sha pr ls]
  by (simp add: tracks_def Registry_Validate_def split: option.split verdict.split)

section \<open>Violations are bounded\<close>

lemma capped_length: "length (if n < length out then take n out @ [a, b, c] else out) \<le> n + 3"
  by simp

lemma describe_bound: "length (describe loc k) \<le> MaxViolationLen + 3"
  unfolding describe_def Let_def by (rule capped_length)

lemma leaves_bound: "\<forall>v \<in> set (leaves ve). length v \<le> MaxViolationLen + 3"
proof (induction ve)
  case (ValidationError loc k causes)
  then show ?case using describe_bound by auto
qed

text \<open>
  The evidence an argument error leaves is bounded whatever the arguments were: at most
  eleven strings, in byte order and without repetition up to the last, each at most 163 bytes
  except the note of how many were left out.\<close>

theorem flatten_bounded:
  "length (flatten ve) \<le> MaxViolations + 1 \<and> sorted_wrt (<) (take MaxViolations (flatten ve)) \<and>
    list_all (\<lambda>v. length v \<le> MaxViolationLen + 3) (take MaxViolations (flatten ve)) \<and>
    (if card (set (leaves ve)) \<le> MaxViolations then flatten ve = sorted_list_of_set (set (leaves ve)) else True)"
proof -
  let ?out = "sorted_list_of_set (set (leaves ve))"
  have t: "take MaxViolations (flatten ve) = take MaxViolations ?out"
    by (simp add: flatten_def Let_def)
  have "sorted_wrt (<) ?out" by simp
  then have "sorted_wrt (<) (take MaxViolations ?out)" by (rule sorted_wrt_take)
  moreover have "list_all (\<lambda>v. length v \<le> MaxViolationLen + 3) (take MaxViolations ?out)"
    using leaves_bound by (auto simp: list_all_iff dest: in_set_takeD)
  ultimately show ?thesis unfolding t by (simp add: flatten_def Let_def)
qed

section \<open>An example\<close>

definition example_tool :: "bytes \<Rightarrow> json" where
  "example_tool d = JObj [(''name'', JStr ''read''), (''description'', JStr d)]"

definition example_lib :: "(bytes, bytes, bytes) schema_lib" where
  "example_lib = \<lparr>sl_UnmarshalJSON = Inr, sl_AddResource = Inr, sl_Compile = Inr, sl_Validate = (\<lambda>_ _. Valid)\<rparr>"

abbreviation no_print :: "bytes \<Rightarrow> bool" where
  "no_print \<equiv> \<lambda>_. False"

lemma example_tool_parses: "valid_utf8 d \<Longrightarrow> parse_json (encode_json (example_tool d)) = Some (example_tool d)"
proof (rule parse_json_encode)
  assume "valid_utf8 d"
  moreover have "valid_utf8 ''name''" "valid_utf8 ''read''" "valid_utf8 ''description''" by code_simp+
  ultimately show "valid_json max_depth (example_tool d)" by (simp add: example_tool_def max_depth_def)
qed

lemma example_fingerprint:
  "valid_utf8 d \<Longrightarrow> fingerprint (\<lambda>s. s) pr (encode_json (example_tool d)) = Some (''read'', canonical pr (example_tool d))"
  by (simp add: fingerprint_def example_tool_parses) (simp add: example_tool_def last_wins_def del: canonical.simps)

lemma example_utf8: "valid_utf8 ''reads a file''" "valid_utf8 ''sends it away''"
  by code_simp+

lemma example_differ:
  "canonical no_print (example_tool ''reads a file'') \<noteq> canonical no_print (example_tool ''sends it away'')"
  by code_simp

lemma fingerprint_covers_definition_witness:
  "definition_of (encode_json (example_tool ''reads a file'')) \<noteq> definition_of (encode_json (example_tool ''sends it away''))"
  using fingerprint_covers_definition [OF example_fingerprint example_fingerprint, OF example_utf8, of no_print] example_differ
  by (auto split: if_splits)

definition example_registry :: "bytes registry" where
  "example_registry = fst (Registry_Observe (\<lambda>s. s) no_print example_lib NewRegistry [encode_json (example_tool ''reads a file'')])"

lemma example_registry_fields:
  "rg_listings example_registry = 1"
  "map_of (rg_first example_registry) = [''read'' \<mapsto> canonical no_print (example_tool ''reads a file'')]"
  "distinct (map fst (rg_first example_registry))"
  by (simp_all add: example_registry_def Registry_Observe_def NewRegistry_def listed_def example_fingerprint example_utf8
      first_distinct del: canonical.simps)

lemma Observe_reports_changes_witness:
  "ch_Kind ` set (snd (Registry_Observe (\<lambda>s. s) no_print example_lib example_registry
     [encode_json (example_tool ''sends it away'')])) = {Modified}"
proof -
  let ?o = "Registry_Observe (\<lambda>s. s) no_print example_lib example_registry [encode_json (example_tool ''sends it away'')]"
  have "set (snd ?o) = reported (map_of (rg_first example_registry))
      (map_of (listed (\<lambda>s. s) no_print [encode_json (example_tool ''sends it away'')])) (removedAlready example_registry)
      (rg_listings example_registry + 1)"
    using Observe_reports_changes [of "\<lambda>s. s" no_print example_lib example_registry _ "fst ?o" "snd ?o"]
      example_registry_fields by simp
  then show ?thesis
    using example_differ by (auto simp: example_registry_fields(2) listed_def example_fingerprint example_utf8 reported_def
        shown_def simp del: canonical.simps)
qed

end
