(* ===== verification/Ring.thy ===== *)
theory Ring
  imports Prelude
begin

text \<open>
  The bounded circular buffer of \<open>internal/detect/ring.go\<close>.

  The record mirrors the Go struct: \<open>rg_buf\<close> is the backing array, \<open>rg_head\<close> the index
  of the oldest retained call, \<open>rg_n\<close> how many are retained, \<open>rg_evicted\<close> whether anything
  was ever dropped. The element type is a parameter, and \<open>z\<close> is its zero value
  (\<open>Call{}\<close> in Go). A run-time panic of the source is the value \<open>None\<close>.

  The lemmas show that the ring, under its invariant, behaves as the list of its retained
  elements (\<open>ring_list\<close>), and the locale \<open>fifo_window\<close> states that contract for its
  client, the session.
\<close>

section \<open>The structure and its operations\<close>

record 'a ring =
  rg_buf :: "'a list"
  rg_head :: nat
  rg_n :: nat
  rg_evicted :: bool

definition empty_ring :: "'a ring" where
  "empty_ring = \<lparr>rg_buf = [], rg_head = 0, rg_n = 0, rg_evicted = False\<rparr>"

definition ringMinCap :: nat where
  "ringMinCap = 16"

definition ring_next :: "'a ring \<Rightarrow> nat \<Rightarrow> nat" where
  "ring_next r i = (let i' = i + 1 in if i' = length (rg_buf r) then 0 else i')"

text \<open>The slot of the \<open>i\<close>-th oldest call.\<close>

definition slot :: "'a ring \<Rightarrow> nat \<Rightarrow> nat" where
  "slot r i = (rg_head r + i) mod length (rg_buf r)"

definition grow :: "'a \<Rightarrow> 'a ring \<Rightarrow> nat \<Rightarrow> 'a ring" where
  "grow z r mx =
     (let size = length (rg_buf r) * 2;
          size = (if size < ringMinCap then ringMinCap else size);
          size = (if size > mx then mx else size);
          buf = map (\<lambda>i. if i < rg_n r then rg_buf r ! slot r i else z) [0..<size]
      in r\<lparr>rg_buf := buf, rg_head := 0\<rparr>)"

definition push :: "'a \<Rightarrow> 'a ring \<Rightarrow> 'a \<Rightarrow> int \<Rightarrow> 'a ring" where
  "push z r c mx =
     (if mx \<le> 0 then r
      else
        let r = (if rg_n r = length (rg_buf r) \<and> int (length (rg_buf r)) < mx
                 then grow z r (nat mx) else r)
        in if rg_n r = length (rg_buf r)
           then r\<lparr>rg_buf := (rg_buf r)[rg_head r := c], rg_head := ring_next r (rg_head r),
                  rg_evicted := True\<rparr>
           else r\<lparr>rg_buf := (rg_buf r)[slot r (rg_n r) := c], rg_n := rg_n r + 1\<rparr>)"

text \<open>
  The loop that zeroes the evicted slots, then the index update. With an unallocated buffer
  the final \<open>% len(r.buf)\<close> divides by zero, which panics in Go.
\<close>

definition dropOldest :: "'a \<Rightarrow> 'a ring \<Rightarrow> int \<Rightarrow> 'a ring option" where
  "dropOldest z r k =
     (if k \<le> 0 then Some r
      else
        let m = (if k > int (rg_n r) then rg_n r else nat k);
            buf = foldl (\<lambda>b i. b[slot r i := z]) (rg_buf r) [0..<m]
        in if length (rg_buf r) = 0 then None
           else Some (r\<lparr>rg_buf := buf, rg_head := (rg_head r + m) mod length (rg_buf r),
                        rg_n := rg_n r - m, rg_evicted := True\<rparr>))"

definition ring_at :: "'a ring \<Rightarrow> int \<Rightarrow> 'a option" where
  "ring_at r i =
     (if i < 0 \<or> i \<ge> int (rg_n r) then None else Some (rg_buf r ! slot r (nat i)))"

definition parts :: "'a ring \<Rightarrow> 'a list \<times> 'a list" where
  "parts r =
     (if rg_n r = 0 then ([], [])
      else
        let en = rg_head r + rg_n r
        in if en \<le> length (rg_buf r)
           then (take (en - rg_head r) (drop (rg_head r) (rg_buf r)), [])
           else (drop (rg_head r) (rg_buf r), take (en - length (rg_buf r)) (rg_buf r)))"

text \<open>The sequence the iterator yields when the consumer never stops it.\<close>

definition ring_all :: "'a ring \<Rightarrow> (nat \<times> 'a) list" where
  "ring_all r =
     (let (front, back) = parts r in enumerate 0 front @ enumerate (length front) back)"

section \<open>Abstraction and invariant\<close>

definition ring_list :: "'a ring \<Rightarrow> 'a list" where
  "ring_list r = map (\<lambda>i. rg_buf r ! slot r i) [0..<rg_n r]"

text \<open>
  The shape of the buffer under a cap \<open>mx\<close>, and the ring's own promise that a slot outside
  the retained window holds the zero value (nothing evicted stays reachable).
\<close>

definition ring_inv :: "nat \<Rightarrow> 'a ring \<Rightarrow> bool" where
  "ring_inv mx r \<longleftrightarrow>
     rg_n r \<le> length (rg_buf r) \<and> length (rg_buf r) \<le> mx \<and>
     (if rg_buf r = [] then rg_head r = 0 else rg_head r < length (rg_buf r))"

definition dead_slots_zero :: "'a \<Rightarrow> 'a ring \<Rightarrow> bool" where
  "dead_slots_zero z r \<longleftrightarrow>
     (\<forall>i. rg_n r \<le> i \<and> i < length (rg_buf r) \<longrightarrow> rg_buf r ! slot r i = z)"

lemma ring_invD:
  assumes "ring_inv mx r"
  shows "rg_n r \<le> length (rg_buf r)" "length (rg_buf r) \<le> mx"
    "rg_buf r \<noteq> [] \<Longrightarrow> rg_head r < length (rg_buf r)"
    "rg_buf r = [] \<Longrightarrow> rg_head r = 0"
  using assms by (auto simp: ring_inv_def)

lemma length_ring_list [simp]: "length (ring_list r) = rg_n r"
  by (simp add: ring_list_def)

lemma nth_ring_list: "i < rg_n r \<Longrightarrow> ring_list r ! i = rg_buf r ! slot r i"
  by (simp add: ring_list_def)

lemma slot_less: "rg_buf r \<noteq> [] \<Longrightarrow> slot r i < length (rg_buf r)"
  by (simp add: slot_def)

lemma slot_inj:
  assumes "ring_inv mx r" "i < length (rg_buf r)" "j < length (rg_buf r)" "slot r i = slot r j"
  shows "i = j"
proof -
  from assms have "rg_head r < length (rg_buf r)" by (auto simp: ring_inv_def split: if_splits)
  with assms show ?thesis unfolding slot_def by (blast intro: mod_shift_inj)
qed

lemma empty_ring_inv: "ring_inv mx empty_ring"
  by (simp add: ring_inv_def empty_ring_def)

lemma empty_ring_list [ring_simps]: "ring_list empty_ring = []"
  by (simp add: ring_list_def empty_ring_def)

section \<open>Every operation, over the list of retained elements\<close>

lemma ring_list_Nil_iff: "ring_list r = [] \<longleftrightarrow> rg_n r = 0"
  by (metis length_0_conv length_ring_list)

lemma grow_size:
  assumes "ring_inv mx r" "length (rg_buf r) < mx"
  shows "length (rg_buf (grow z r mx)) \<le> mx" "length (rg_buf r) < length (rg_buf (grow z r mx))"
  using assms by (auto simp: grow_def Let_def ringMinCap_def)

lemma grow_inv:
  assumes "ring_inv mx r" "length (rg_buf r) < mx"
  shows "ring_inv mx (grow z r mx)"
proof -
  have "rg_head (grow z r mx) = 0" "rg_n (grow z r mx) = rg_n r"
    by (simp_all add: grow_def Let_def)
  with assms grow_size [OF assms, of z] show ?thesis
    by (auto simp: ring_inv_def)
qed

lemma grow_list [ring_simps]:
  assumes "ring_inv mx r" "length (rg_buf r) < mx"
  shows "ring_list (grow z r mx) = ring_list r"
proof (rule nth_equalityI)
  show "length (ring_list (grow z r mx)) = length (ring_list r)"
    by (simp add: grow_def Let_def)
next
  fix i
  assume "i < length (ring_list (grow z r mx))"
  then have i: "i < rg_n r" by (simp add: grow_def Let_def)
  have sz: "i < length (rg_buf (grow z r mx))"
    using i assms(1) grow_size(2) [OF assms, of z] by (auto simp: ring_inv_def)
  have "ring_list (grow z r mx) ! i = rg_buf (grow z r mx) ! i"
    using i sz by (simp add: ring_list_def slot_def grow_def Let_def)
  also have "\<dots> = rg_buf r ! slot r i"
    using i sz by (simp add: grow_def Let_def)
  finally show "ring_list (grow z r mx) ! i = ring_list r ! i"
    using i by (simp add: nth_ring_list)
qed

lemma grow_dead:
  assumes "ring_inv mx r" "length (rg_buf r) < mx"
  shows "dead_slots_zero z (grow z r mx)"
  using grow_size [OF assms, of z]
  by (auto simp: dead_slots_zero_def slot_def grow_def Let_def)

lemma grow_sel [simp]:
  "rg_n (grow z r mx) = rg_n r" "rg_evicted (grow z r mx) = rg_evicted r"
  "rg_head (grow z r mx) = 0"
  by (simp_all add: grow_def Let_def)

text \<open>Storing into the first free slot appends.\<close>

lemma store_append:
  fixes r :: "'a ring" and c :: 'a
  assumes inv: "ring_inv mx r" and room: "rg_n r < length (rg_buf r)"
  defines "r' \<equiv> r\<lparr>rg_buf := (rg_buf r)[slot r (rg_n r) := c], rg_n := rg_n r + 1\<rparr>"
  shows "ring_inv mx r'" and "ring_list r' = ring_list r @ [c]"
proof -
  show "ring_inv mx r'" using inv room by (auto simp: ring_inv_def r'_def)
  have sl: "slot r' i = slot r i" for i by (simp add: slot_def r'_def)
  show "ring_list r' = ring_list r @ [c]"
  proof (rule nth_equalityI)
    show "length (ring_list r') = length (ring_list r @ [c])" by (simp add: r'_def)
  next
    fix i
    assume "i < length (ring_list r')"
    then have i: "i < rg_n r + 1" by (simp add: r'_def)
    have ne: "rg_buf r \<noteq> []" using room by auto
    have "ring_list r' ! i = (rg_buf r)[slot r (rg_n r) := c] ! slot r i"
      using i by (simp add: nth_ring_list r'_def slot_def)
    also have "\<dots> = (if i = rg_n r then c else rg_buf r ! slot r i)"
      using slot_inj [OF inv, of i "rg_n r"] i room slot_less [OF ne] by (auto simp: nth_list_update)
    finally show "ring_list r' ! i = (ring_list r @ [c]) ! i"
      using i by (auto simp: nth_append nth_ring_list)
  qed
qed

text \<open>Overwriting the oldest slot of a full buffer drops the head and appends.\<close>

lemma ring_next_eq:
  assumes "h < length (rg_buf r)"
  shows "ring_next r h = (h + 1) mod length (rg_buf r)"
  using assms by (auto simp: ring_next_def Let_def)

lemma overwrite_oldest:
  fixes r :: "'a ring" and c :: 'a
  assumes inv: "ring_inv mx r" and full: "rg_n r = length (rg_buf r)" and ne: "rg_buf r \<noteq> []"
  defines "r' \<equiv> r\<lparr>rg_buf := (rg_buf r)[rg_head r := c], rg_head := ring_next r (rg_head r),
                  rg_evicted := True\<rparr>"
  shows "ring_inv mx r'" and "ring_list r' = tl (ring_list r) @ [c]"
proof -
  let ?l = "length (rg_buf r)"
  have h: "rg_head r < ?l" using ring_invD(3) [OF inv ne] .
  have l: "0 < ?l" using ne by simp
  show "ring_inv mx r'"
    using inv h l by (auto simp: ring_inv_def r'_def ring_next_eq)
  have sl: "slot r' i = slot r (i + 1)" for i
    using h by (simp add: slot_def r'_def ring_next_eq mod_simps algebra_simps)
  have last: "slot r ?l = rg_head r" using h by (simp add: slot_def)
  show "ring_list r' = tl (ring_list r) @ [c]"
  proof (rule nth_equalityI)
    show "length (ring_list r') = length (tl (ring_list r) @ [c])"
      using l full by (simp add: r'_def)
  next
    fix i
    assume "i < length (ring_list r')"
    then have i: "i < ?l" using full by (simp add: r'_def)
    have "ring_list r' ! i = (rg_buf r)[rg_head r := c] ! slot r (i + 1)"
      using i full sl [of i] by (simp add: nth_ring_list r'_def)
    also have "\<dots> = (tl (ring_list r) @ [c]) ! i"
    proof (cases "i + 1 = ?l")
      case True
      then show ?thesis using last h full by (auto simp: nth_append)
    next
      case False
      with i have i1: "i + 1 < ?l" by simp
      have "slot r (i + 1) \<noteq> slot r 0"
        using slot_inj [OF inv i1 l] by auto
      then have "slot r (i + 1) \<noteq> rg_head r" using h by (simp add: slot_def)
      then show ?thesis
        using i1 full by (auto simp: nth_append nth_tl nth_ring_list)
    qed
    finally show "ring_list r' ! i = (tl (ring_list r) @ [c]) ! i" .
  qed
qed

lemma push_cases:
  assumes "ring_inv mx r" "0 < mx"
  obtains (room) r' where "ring_inv mx r'" "ring_list r' = ring_list r" "rg_n r' = rg_n r"
      "rg_evicted r' = rg_evicted r" "rg_n r' < length (rg_buf r')"
      "push z r c (int mx) = r'\<lparr>rg_buf := (rg_buf r')[slot r' (rg_n r') := c], rg_n := rg_n r' + 1\<rparr>"
      "r' = r \<or> dead_slots_zero z r'"
  | (full) "rg_n r = length (rg_buf r)" "length (rg_buf r) = mx" "rg_buf r \<noteq> []"
      "push z r c (int mx) = r\<lparr>rg_buf := (rg_buf r)[rg_head r := c],
         rg_head := ring_next r (rg_head r), rg_evicted := True\<rparr>"
proof (cases "rg_n r = length (rg_buf r)")
  case True
  show ?thesis
  proof (cases "length (rg_buf r) < mx")
    case less: True
    have sz: "length (rg_buf r) < length (rg_buf (grow z r mx))"
      by (rule grow_size(2) [OF assms(1) less])
    then have "push z r c (int mx) = (grow z r mx)
        \<lparr>rg_buf := (rg_buf (grow z r mx))[slot (grow z r mx) (rg_n (grow z r mx)) := c],
         rg_n := rg_n (grow z r mx) + 1\<rparr>"
      using True less assms(2) by (simp add: push_def Let_def)
    then show ?thesis
      using grow_inv [OF assms(1) less] grow_list [OF assms(1) less]
        grow_dead [OF assms(1) less, of z] True sz
      by (intro room [of "grow z r mx"]) auto
  next
    case False
    then have "length (rg_buf r) = mx" using ring_invD(2) [OF assms(1)] by simp
    with True False assms(2) show ?thesis
      by (intro full) (auto simp: push_def Let_def)
  qed
next
  case False
  then have "rg_n r < length (rg_buf r)" using ring_invD(1) [OF assms(1)] by simp
  with assms False show ?thesis by (intro room [of r]) (auto simp: push_def Let_def)
qed

lemma push_inv:
  assumes "ring_inv mx r" "0 < mx"
  shows "ring_inv mx (push z r c (int mx))"
proof (rule push_cases [OF assms, where z = z and c = c])
  fix r' :: "'a ring"
  assume r': "ring_inv mx r'" "rg_n r' < length (rg_buf r')"
    "push z r c (int mx) = r'\<lparr>rg_buf := (rg_buf r')[slot r' (rg_n r') := c], rg_n := rg_n r' + 1\<rparr>"
  show ?thesis unfolding r'(3) by (rule store_append(1) [OF r'(1,2)])
next
  assume "rg_n r = length (rg_buf r)" "rg_buf r \<noteq> []"
    and eq: "push z r c (int mx) = r\<lparr>rg_buf := (rg_buf r)[rg_head r := c],
       rg_head := ring_next r (rg_head r), rg_evicted := True\<rparr>"
  then show ?thesis unfolding eq by (intro overwrite_oldest(1) [OF assms(1)])
qed

lemma push_list [ring_simps]:
  assumes "ring_inv mx r" "0 < mx"
  shows "ring_list (push z r c (int mx)) =
    (if rg_n r < mx then ring_list r @ [c] else tl (ring_list r) @ [c])"
  using assms
proof (rule push_cases [where z = z and c = c])
  fix r' :: "'a ring"
  assume r': "ring_inv mx r'" "ring_list r' = ring_list r" "rg_n r' = rg_n r"
    "rg_n r' < length (rg_buf r')"
    "push z r c (int mx) = r'\<lparr>rg_buf := (rg_buf r')[slot r' (rg_n r') := c], rg_n := rg_n r' + 1\<rparr>"
  have "rg_n r < mx" using r' ring_invD(2) [OF r'(1)] by simp
  with store_append(2) [OF r'(1,4), of c] r' show ?thesis by simp
next
  assume "rg_n r = length (rg_buf r)" "length (rg_buf r) = mx" "rg_buf r \<noteq> []"
    "push z r c (int mx) = r\<lparr>rg_buf := (rg_buf r)[rg_head r := c],
       rg_head := ring_next r (rg_head r), rg_evicted := True\<rparr>"
  with overwrite_oldest(2) [OF assms(1), of c] show ?thesis by simp
qed

lemma push_evicted [ring_simps]:
  assumes "ring_inv mx r" "0 < mx"
  shows "rg_evicted (push z r c (int mx)) \<longleftrightarrow> rg_evicted r \<or> rg_n r = mx"
  using assms
proof (rule push_cases [where z = z and c = c])
  fix r' :: "'a ring"
  assume r': "ring_inv mx r'" "rg_n r' = rg_n r" "rg_evicted r' = rg_evicted r"
    "rg_n r' < length (rg_buf r')"
    "push z r c (int mx) = r'\<lparr>rg_buf := (rg_buf r')[slot r' (rg_n r') := c], rg_n := rg_n r' + 1\<rparr>"
  then have "rg_n r < mx" using ring_invD(2) [OF r'(1)] by simp
  with r' show ?thesis by simp
qed simp_all

lemma push_dead:
  assumes "ring_inv mx r" "0 < mx" "dead_slots_zero z r"
  shows "dead_slots_zero z (push z r c (int mx))"
  using assms(1,2)
proof (rule push_cases [where z = z and c = c])
  fix r' :: "'a ring"
  assume r': "ring_inv mx r'" "rg_n r' < length (rg_buf r')" "r' = r \<or> dead_slots_zero z r'"
    "push z r c (int mx) = r'\<lparr>rg_buf := (rg_buf r')[slot r' (rg_n r') := c], rg_n := rg_n r' + 1\<rparr>"
  have d: "dead_slots_zero z r'" using r' assms(3) by auto
  have "rg_buf r' \<noteq> []" using r'(2) by auto
  then have sl: "slot r' i < length (rg_buf r')" for i by (rule slot_less)
  have "(rg_buf r')[slot r' (rg_n r') := c] ! slot r' i = z"
    if "rg_n r' + 1 \<le> i" "i < length (rg_buf r')" for i
    using that d sl slot_inj [OF r'(1) r'(2), of i]
    by (auto simp: dead_slots_zero_def nth_list_update)
  then show ?thesis
    unfolding r'(4) by (auto simp: dead_slots_zero_def slot_def)
qed (auto simp: dead_slots_zero_def)

section \<open>Eviction\<close>

lemma zero_loop_length [simp]: "length (foldl (\<lambda>b i. b[f i := z]) b xs) = length b"
  by (induction xs arbitrary: b) auto

lemma zero_loop_nth:
  "p < length b \<Longrightarrow>
   foldl (\<lambda>b i. b[f i := z]) b xs ! p = (if \<exists>i \<in> set xs. f i = p then z else b ! p)"
  by (induction xs arbitrary: b) (auto simp: nth_list_update)

lemma dropOldest_Some:
  assumes inv: "ring_inv mx r" and k: "0 < k" and ne: "rg_buf r \<noteq> []"
  defines "m \<equiv> min (nat k) (rg_n r)"
  obtains r' where "dropOldest z r k = Some r'" "ring_inv mx r'"
    "ring_list r' = drop m (ring_list r)" "rg_evicted r'" "rg_n r' = rg_n r - m"
    "dead_slots_zero z r \<Longrightarrow> dead_slots_zero z r'"
proof -
  let ?l = "length (rg_buf r)"
  let ?buf = "foldl (\<lambda>b i. b[slot r i := z]) (rg_buf r) [0..<m]"
  let ?r = "r\<lparr>rg_buf := ?buf, rg_head := (rg_head r + m) mod ?l, rg_n := rg_n r - m,
               rg_evicted := True\<rparr>"
  have l: "0 < ?l" and n: "rg_n r \<le> ?l" using ne ring_invD(1) [OF inv] by auto
  have m: "m \<le> rg_n r" by (simp add: m_def)
  have mk: "(if k > int (rg_n r) then rg_n r else nat k) = m"
    using k by (auto simp: m_def min_def nat_le_iff)
  have eq: "dropOldest z r k = Some ?r"
    using k ne unfolding dropOldest_def Let_def mk by simp
  have sl: "slot ?r i = slot r (m + i)" for i
    by (simp add: slot_def mod_simps add.assoc)
  have nz: "?buf ! slot r (m + i) = rg_buf r ! slot r (m + i)" if "m + i < ?l" for i
  proof -
    have "slot r j \<noteq> slot r (m + i)" if "j < m" for j
      using slot_inj [OF inv, of j "m + i"] that \<open>m + i < ?l\<close> by auto
    then show ?thesis using slot_less [OF ne] by (simp add: zero_loop_nth)
  qed
  have inv': "ring_inv mx ?r"
  proof -
    have "?buf \<noteq> []" using ne by (metis length_0_conv zero_loop_length)
    then show ?thesis using inv n m l by (auto simp: ring_inv_def)
  qed
  have list': "ring_list ?r = drop m (ring_list r)"
  proof (rule nth_equalityI)
    fix i
    assume "i < length (ring_list ?r)"
    then have i: "m + i < rg_n r" by simp
    have "ring_list ?r ! i = ?buf ! slot r (m + i)"
      using i sl [of i] by (simp add: nth_ring_list)
    also have "\<dots> = rg_buf r ! slot r (m + i)" using i n by (intro nz) simp
    finally show "ring_list ?r ! i = drop m (ring_list r) ! i"
      using i by (simp add: nth_ring_list)
  qed simp
  have dead': "dead_slots_zero z ?r" if d: "dead_slots_zero z r"
    unfolding dead_slots_zero_def
  proof (intro allI impI)
    fix i
    assume "rg_n ?r \<le> i \<and> i < length (rg_buf ?r)"
    then have i: "rg_n r \<le> m + i" "i < ?l" using m by (auto simp: le_diff_conv)
    show "rg_buf ?r ! slot ?r i = z"
    proof (cases "m + i < ?l")
      case True
      with i d nz show ?thesis using sl [of i] by (simp add: dead_slots_zero_def)
    next
      case False
      let ?j = "m + i - ?l"
      have j: "?j < m" and "slot r ?j = slot r (m + i)"
        using False i n m by (auto simp: slot_def le_mod_geq)
      then have "\<exists>j \<in> set [0..<m]. slot r j = slot r (m + i)"
        by (intro bexI [of _ ?j]) auto
      then show ?thesis using sl [of i] slot_less [OF ne] by (simp add: zero_loop_nth)
    qed
  qed
  show thesis using that [OF eq inv' list' _ _ dead'] by simp
qed

section \<open>The two contiguous runs\<close>

lemma parts_append [ring_simps]:
  assumes "ring_inv mx r"
  shows "fst (parts r) @ snd (parts r) = ring_list r"
proof (cases "rg_n r = 0")
  case True
  then show ?thesis by (simp add: parts_def ring_list_def)
next
  case False
  then have "rg_head r < length (rg_buf r)" "rg_n r \<le> length (rg_buf r)"
    using assms by (auto simp: ring_inv_def split: if_splits)
  then show ?thesis
    using False map_nth_mod_eq [of "rg_head r" "rg_buf r" "rg_n r"]
    by (auto simp: parts_def ring_list_def slot_def Let_def)
qed

lemma ring_at_list [ring_simps]:
  "ring_at r i = (if 0 \<le> i \<and> i < int (rg_n r) then Some (ring_list r ! nat i) else None)"
  by (auto simp: ring_at_def nth_ring_list)

section \<open>The contract the session relies on\<close>

text \<open>
  A bounded first-in first-out window of capacity \<open>cap\<close>: \<open>abs\<close> reads the retained
  elements oldest first, \<open>put\<close> appends (dropping the oldest at the cap), \<open>evict\<close> drops
  from the front, and \<open>lossy\<close> says whether anything was ever dropped.
\<close>

locale fifo_window =
  fixes abs :: "'q \<Rightarrow> 'a list"
    and ok :: "'q \<Rightarrow> bool"
    and fresh :: 'q
    and put :: "'q \<Rightarrow> 'a \<Rightarrow> 'q"
    and evict :: "'q \<Rightarrow> int \<Rightarrow> 'q option"
    and lossy :: "'q \<Rightarrow> bool"
    and cap :: nat
  assumes fresh_ok: "ok fresh"
    and fresh_abs: "abs fresh = []"
    and fresh_lossy: "\<not> lossy fresh"
    and bounded: "ok q \<Longrightarrow> length (abs q) \<le> cap"
    and put_ok: "0 < cap \<Longrightarrow> ok q \<Longrightarrow> ok (put q c)"
    and put_abs: "0 < cap \<Longrightarrow> ok q \<Longrightarrow>
      abs (put q c) = (if length (abs q) < cap then abs q @ [c] else tl (abs q) @ [c])"
    and put_lossy: "0 < cap \<Longrightarrow> ok q \<Longrightarrow>
      lossy (put q c) \<longleftrightarrow> lossy q \<or> length (abs q) = cap"
    and evict_law: "ok q \<Longrightarrow> k \<le> int (length (abs q)) \<Longrightarrow>
      \<exists>q'. evict q k = Some q' \<and> ok q' \<and> abs q' = drop (nat k) (abs q) \<and>
        (lossy q' \<longleftrightarrow> lossy q \<or> 0 < k)"
begin

text \<open>
  \<open>tracks h q\<close>: the window holds the most recent part of the history \<open>h\<close>, and all of it
  as long as nothing was dropped.
\<close>

definition tracks :: "'a list \<Rightarrow> 'q \<Rightarrow> bool" where
  "tracks h q \<longleftrightarrow> ok q \<and> suffix (abs q) h \<and> (\<not> lossy q \<longrightarrow> abs q = h)"

lemma tracks_fresh: "tracks [] fresh"
  by (simp add: tracks_def fresh_ok fresh_abs)

lemma tracks_put:
  assumes "0 < cap" "tracks h q"
  shows "tracks (h @ [c]) (put q c)"
proof -
  have q: "ok q" "suffix (abs q) h" "\<not> lossy q \<Longrightarrow> abs q = h"
    using assms(2) by (auto simp: tracks_def)
  have "suffix (abs (put q c)) (h @ [c])"
    using q(2)
    by (auto simp: put_abs [OF assms(1) q(1)] intro: suffix_order.trans [OF suffix_tl])
  moreover have "abs (put q c) = h @ [c]" if "\<not> lossy (put q c)"
  proof -
    have "\<not> lossy q" "length (abs q) \<noteq> cap"
      using that by (auto simp: put_lossy [OF assms(1) q(1)])
    then show ?thesis using q bounded [OF q(1)] by (simp add: put_abs [OF assms(1) q(1)])
  qed
  ultimately show ?thesis using put_ok [OF assms(1) q(1)] by (simp add: tracks_def)
qed

text \<open>Dropping the longest prefix whose elements satisfy \<open>P\<close> never fails.\<close>

lemma evict_while:
  assumes "ok q"
  obtains q' where "evict q (int (length (takeWhile P (abs q)))) = Some q'" "ok q'"
    "abs q' = dropWhile P (abs q)"
    "lossy q' \<longleftrightarrow> lossy q \<or> takeWhile P (abs q) \<noteq> []"
proof -
  have "int (length (takeWhile P (abs q))) \<le> int (length (abs q))"
    by (simp add: length_takeWhile_le)
  from evict_law [OF assms this] that show thesis
    by (force simp: dropWhile_eq_drop)
qed

lemma tracks_evict_while:
  assumes "tracks h q"
  obtains q' where "evict q (int (length (takeWhile P (abs q)))) = Some q'" "tracks h q'"
    "abs q' = dropWhile P (abs q)"
    "lossy q' \<longleftrightarrow> lossy q \<or> takeWhile P (abs q) \<noteq> []"
proof -
  have q: "ok q" "suffix (abs q) h" "\<not> lossy q \<Longrightarrow> abs q = h"
    using assms by (auto simp: tracks_def)
  obtain q' where q': "evict q (int (length (takeWhile P (abs q)))) = Some q'" "ok q'"
    "abs q' = dropWhile P (abs q)" "lossy q' \<longleftrightarrow> lossy q \<or> takeWhile P (abs q) \<noteq> []"
    using evict_while [OF q(1)] by blast
  have "suffix (abs q') h"
    using q(2) suffix_dropWhile suffix_order.trans unfolding q'(3) by blast
  moreover have "abs q' = h" if "\<not> lossy q'"
    using that q q'(3,4) by (metis append_Nil takeWhile_dropWhile_id)
  ultimately show thesis using that [OF q'(1) _ q'(3,4)] q'(2) by (simp add: tracks_def)
qed

end

interpretation ring_window: fifo_window ring_list "ring_inv cap" empty_ring
    "\<lambda>r c. push z r c (int cap)" "dropOldest z" rg_evicted cap
  for z :: 'a and cap :: nat
proof
  fix r :: "'a ring" and c :: 'a and k :: int
  show "ring_inv cap empty_ring" by (rule empty_ring_inv)
  show "ring_list empty_ring = []" by (rule empty_ring_list)
  show "\<not> rg_evicted empty_ring" by (simp add: empty_ring_def)
  show "ring_inv cap r \<Longrightarrow> length (ring_list r) \<le> cap" by (auto simp: ring_inv_def)
  show "0 < cap \<Longrightarrow> ring_inv cap r \<Longrightarrow> ring_inv cap (push z r c (int cap))"
    by (rule push_inv)
  show "0 < cap \<Longrightarrow> ring_inv cap r \<Longrightarrow> ring_list (push z r c (int cap)) =
      (if length (ring_list r) < cap then ring_list r @ [c] else tl (ring_list r) @ [c])"
    by (simp add: push_list)
  show "0 < cap \<Longrightarrow> ring_inv cap r \<Longrightarrow> rg_evicted (push z r c (int cap)) \<longleftrightarrow>
      rg_evicted r \<or> length (ring_list r) = cap"
    by (simp add: push_evicted)
  show "\<exists>r'. dropOldest z r k = Some r' \<and> ring_inv cap r' \<and>
      ring_list r' = drop (nat k) (ring_list r) \<and> (rg_evicted r' \<longleftrightarrow> rg_evicted r \<or> 0 < k)"
    if inv: "ring_inv cap r" and k: "k \<le> int (length (ring_list r))"
  proof (cases "k \<le> 0")
    case True
    then show ?thesis using inv by (simp add: dropOldest_def)
  next
    case False
    then have "rg_buf r \<noteq> []" using k ring_invD(1) [OF inv] by auto
    from dropOldest_Some [OF inv _ this, of k z] False k show ?thesis
      by (auto simp: min_absorb1)
  qed
qed

section \<open>Properties\<close>

text \<open>
  C12: \<open>ring.push\<close> implements appending to a bounded list: from any state satisfying the
  ring invariant, and any positive cap, it keeps the invariant, and the retained elements
  become the old ones (without the oldest when the buffer is at the cap) followed by the
  pushed call. \<open>evicted\<close> becomes true exactly when a call was overwritten.
\<close>

theorem push_refines:
  assumes "ring_inv mx r" "0 < mx"
  shows "ring_inv mx (push z r c (int mx)) \<and>
    ring_list (push z r c (int mx)) =
      (if rg_n r < mx then ring_list r @ [c] else tl (ring_list r) @ [c]) \<and>
    (rg_evicted (push z r c (int mx)) \<longleftrightarrow> rg_evicted r \<or> rg_n r = mx)"
  using assms by (simp add: push_inv push_list push_evicted)

definition wrapped_ring :: "nat ring" where
  "wrapped_ring = foldl (\<lambda>r c. push 0 r c 3) empty_ring [10, 11, 12, 13]"

lemma wrapped_ring_eq:
  "wrapped_ring = \<lparr>rg_buf = [13, 11, 12], rg_head = 1, rg_n = 3, rg_evicted = True\<rparr>"
  by code_simp

theorem push_refines_witness:
  "ring_inv 3 wrapped_ring \<and> ring_list (push 0 wrapped_ring 14 (int 3)) = [12, 13, 14]"
proof -
  have inv: "ring_inv 3 wrapped_ring" by (simp add: wrapped_ring_eq ring_inv_def)
  have "ring_list wrapped_ring = [11, 12, 13]" "rg_n wrapped_ring = 3"
    by (code_simp, simp add: wrapped_ring_eq)
  with push_refines [OF inv, of 0 14] inv show ?thesis by simp
qed

text \<open>
  C38: \<open>ring.dropOldest\<close> implements dropping from the front of the list. On a ring holding
  at least one slot of storage it never panics, it drops \<open>k\<close> elements (all of them when
  \<open>k\<close> is larger, none when \<open>k\<close> is not positive) and it zeroes every slot it vacates, so
  that no evicted call stays reachable from the buffer.
\<close>

theorem dropOldest_refines:
  assumes "ring_inv mx r" "rg_buf r \<noteq> []" "dead_slots_zero z r"
  shows "\<exists>r'. dropOldest z r k = Some r' \<and> ring_inv mx r' \<and>
    ring_list r' = drop (nat k) (ring_list r) \<and> dead_slots_zero z r'"
proof (cases "k \<le> 0")
  case True
  with assms show ?thesis by (simp add: dropOldest_def)
next
  case False
  have "drop (min (nat k) (rg_n r)) (ring_list r) = drop (nat k) (ring_list r)"
    by (cases "nat k \<le> rg_n r") (simp_all add: min_def)
  with dropOldest_Some [OF assms(1) _ assms(2), of k z] assms(3) False show ?thesis
    by (metis not_le)
qed

theorem dropOldest_refines_witness:
  "\<exists>r'. dropOldest 0 wrapped_ring 2 = Some r' \<and> ring_list r' = [13] \<and> dead_slots_zero 0 r'"
proof -
  have h: "ring_inv 3 wrapped_ring" "rg_buf wrapped_ring \<noteq> []" "dead_slots_zero 0 wrapped_ring"
    by (simp_all add: wrapped_ring_eq ring_inv_def dead_slots_zero_def)
  have "ring_list wrapped_ring = [11, 12, 13]" by code_simp
  with dropOldest_refines [OF h, of 2] show ?thesis by (auto simp: numeral_eq_Suc)
qed

text \<open>
  The two runs returned by \<open>parts\<close>, concatenated, are exactly the retained calls
  oldest first, and the iterator \<open>all\<close> pairs each of them with its position in the
  retained history across the wrap; \<open>at\<close> agrees with it and panics exactly out of range.
\<close>

theorem parts_are_the_history:
  assumes "ring_inv mx r"
  shows "fst (parts r) @ snd (parts r) = ring_list r \<and>
    ring_all r = enumerate 0 (ring_list r) \<and>
    ring_at r i = (if 0 \<le> i \<and> i < int (rg_n r) then Some (ring_list r ! nat i) else None)"
proof -
  have "ring_all r = enumerate 0 (fst (parts r) @ snd (parts r))"
    by (simp add: ring_all_def case_prod_beta enumerate_append_eq)
  then show ?thesis by (simp add: parts_append [OF assms] ring_at_list)
qed

theorem parts_are_the_history_witness:
  "parts wrapped_ring = ([11, 12], [13]) \<and> ring_all wrapped_ring = [(0, 11), (1, 12), (2, 13)]"
proof -
  have inv: "ring_inv 3 wrapped_ring" by (simp add: wrapped_ring_eq ring_inv_def)
  have "ring_list wrapped_ring = [11, 12, 13]" by code_simp
  moreover have "parts wrapped_ring = ([11, 12], [13])" by code_simp
  ultimately show ?thesis using parts_are_the_history [OF inv] by simp
qed

end
