(* ===== verification/Ubfs.thy ===== *)
theory Ubfs
  imports Prelude Complex_Main
begin

text \<open>
  The behavioural feature schema and its statistics, \<open>internal/detect/ubfs.go\<close>. A
  \<open>float64\<close> is a real number here: rounding is not modelled, and a division by zero, which
  yields NaN or an infinity in Go and is replaced by zero in \<open>Set\<close>, is zero in HOL.
  A \<open>map[string]int\<close> of counts is an association list with distinct keys.
\<close>

section \<open>Features\<close>

datatype feature =
    FeatActivityHourMean | FeatSessionDurationNorm | FeatAfterHoursRatio | FeatWeekendActivityFlag
  | FeatPrimaryEventCount | FeatSecondaryEventCount | FeatPeripheralEventCount | FeatEventRateZScore
  | FeatDataVolumeNorm | FeatOutputCountNorm | FeatVolumeVariability
  | FeatResourceBreadth | FeatTargetBreadth | FeatBreadthRatio
  | FeatActionEntropy | FeatTransitionNovelty | FeatRepetitionScore
  | FeatPeerDistance | FeatSelfDeviation | FeatPrivilegeDeviationIndex

datatype category =
    CategoryTemporal | CategoryFrequency | CategoryVolume | CategoryScope | CategorySequence
  | CategoryDeviation | CategoryPrivilege

definition FeatureOrder :: "feature list" where
  "FeatureOrder =
     [FeatActivityHourMean, FeatSessionDurationNorm, FeatAfterHoursRatio, FeatWeekendActivityFlag,
      FeatPrimaryEventCount, FeatSecondaryEventCount, FeatPeripheralEventCount, FeatEventRateZScore,
      FeatDataVolumeNorm, FeatOutputCountNorm, FeatVolumeVariability,
      FeatResourceBreadth, FeatTargetBreadth, FeatBreadthRatio,
      FeatActionEntropy, FeatTransitionNovelty, FeatRepetitionScore,
      FeatPeerDistance, FeatSelfDeviation, FeatPrivilegeDeviationIndex]"

fun CategoryOf :: "feature \<Rightarrow> category" where
  "CategoryOf FeatActivityHourMean = CategoryTemporal"
| "CategoryOf FeatSessionDurationNorm = CategoryTemporal"
| "CategoryOf FeatAfterHoursRatio = CategoryTemporal"
| "CategoryOf FeatWeekendActivityFlag = CategoryTemporal"
| "CategoryOf FeatPrimaryEventCount = CategoryFrequency"
| "CategoryOf FeatSecondaryEventCount = CategoryFrequency"
| "CategoryOf FeatPeripheralEventCount = CategoryFrequency"
| "CategoryOf FeatEventRateZScore = CategoryFrequency"
| "CategoryOf FeatDataVolumeNorm = CategoryVolume"
| "CategoryOf FeatOutputCountNorm = CategoryVolume"
| "CategoryOf FeatVolumeVariability = CategoryVolume"
| "CategoryOf FeatResourceBreadth = CategoryScope"
| "CategoryOf FeatTargetBreadth = CategoryScope"
| "CategoryOf FeatBreadthRatio = CategoryScope"
| "CategoryOf FeatActionEntropy = CategorySequence"
| "CategoryOf FeatTransitionNovelty = CategorySequence"
| "CategoryOf FeatRepetitionScore = CategorySequence"
| "CategoryOf FeatPeerDistance = CategoryDeviation"
| "CategoryOf FeatSelfDeviation = CategoryDeviation"
| "CategoryOf FeatPrivilegeDeviationIndex = CategoryPrivilege"

datatype observability = Observable | NeedsBaseline | NotObservable

fun coverage :: "feature \<Rightarrow> observability \<times> bytes" where
  "coverage FeatActivityHourMean = (Observable, ''hour of the first tool call'')"
| "coverage FeatSessionDurationNorm = (Observable, ''wall-clock span of the session'')"
| "coverage FeatAfterHoursRatio = (Observable, ''fraction of calls outside configured business hours'')"
| "coverage FeatWeekendActivityFlag = (Observable, ''session started on a weekend'')"
| "coverage FeatPrimaryEventCount = (Observable, ''tools/call count'')"
| "coverage FeatSecondaryEventCount = (Observable, ''non-tool MCP requests (resources, prompts)'')"
| "coverage FeatPeripheralEventCount = (Observable, ''retried and errored calls'')"
| "coverage FeatEventRateZScore = (NeedsBaseline, ''call rate needs a per-agent baseline to z-score against'')"
| "coverage FeatDataVolumeNorm = (Observable, ''total bytes of tool arguments and results'')"
| "coverage FeatOutputCountNorm = (Observable, ''count of tool results returned'')"
| "coverage FeatVolumeVariability = (Observable, ''standard deviation of per-call payload size'')"
| "coverage FeatResourceBreadth = (Observable, ''distinct tool names invoked'')"
| "coverage FeatTargetBreadth = (Observable, ''distinct targets (paths, hosts, resource URIs) touched'')"
| "coverage FeatBreadthRatio = (Observable, ''breadth normalised by call count'')"
| "coverage FeatActionEntropy = (Observable, ''Shannon entropy of the tool-name sequence'')"
| "coverage FeatTransitionNovelty = (Observable, ''fraction of tool-to-tool transitions seen once'')"
| "coverage FeatRepetitionScore = (Observable, ''degree of repeated calls'')"
| "coverage FeatPeerDistance = (NeedsBaseline, ''no peer population is available to a single proxy'')"
| "coverage FeatSelfDeviation = (NeedsBaseline, ''requires this agent's own historical baseline'')"
| "coverage FeatPrivilegeDeviationIndex = (NotObservable, ''MCP carries no permission level to compare against'')"

section \<open>Vectors\<close>

record vector =
  vec_values :: "feature \<Rightarrow> real option"

definition NewVector :: vector where
  "NewVector = \<lparr>vec_values = (\<lambda>_. None)\<rparr>"

definition vec_Set :: "feature \<Rightarrow> real \<Rightarrow> vector \<Rightarrow> vector" where
  "vec_Set f x v = v\<lparr>vec_values := (vec_values v)(f := Some x)\<rparr>"

definition vec_Get :: "vector \<Rightarrow> feature \<Rightarrow> real" where
  "vec_Get v f = (case vec_values v f of None \<Rightarrow> 0 | Some x \<Rightarrow> x)"

definition Slice :: "vector \<Rightarrow> real list" where
  "Slice v = map (vec_Get v) FeatureOrder"

definition Coverage :: "feature \<Rightarrow> bytes" where
  "Coverage f =
     (case coverage f of
       (Observable, reason) \<Rightarrow> ''observed: '' @ reason
     | (NeedsBaseline, reason) \<Rightarrow> ''neutral (0.0), needs baseline: '' @ reason
     | (NotObservable, reason) \<Rightarrow> ''neutral (0.0), not observable: '' @ reason)"

definition ObservableFeatures :: "feature list" where
  "ObservableFeatures = filter (\<lambda>f. fst (coverage f) = Observable) FeatureOrder"

section \<open>Counts\<close>

text \<open>\<open>m[k]++\<close> on a map from strings to counts.\<close>

fun bump :: "bytes \<Rightarrow> (bytes \<times> int) list \<Rightarrow> (bytes \<times> int) list" where
  "bump k [] = [(k, 1)]"
| "bump k ((k', c) # m) = (if k = k' then (k', c + 1) # m else (k', c) # bump k m)"

definition shannonEntropy :: "(bytes \<times> int) list \<Rightarrow> real" where
  "shannonEntropy counts =
     (let tot = sum_list (map snd counts) in
      if tot = 0 \<or> length counts \<le> 1 then 0
      else
        let h = foldl (\<lambda>h (_, c). if c = 0 then h
                    else let p = real_of_int c / real_of_int tot in h - p * log 2 p) 0 counts;
            maxH = log 2 (real (length counts))
        in if maxH = 0 then 0 else h / maxH)"

definition transitionNovelty :: "(bytes \<times> int) list \<Rightarrow> real" where
  "transitionNovelty transitions =
     (if length transitions = 0 then 0
      else real (length (filter (\<lambda>(_, c). c = 1) transitions)) / real (length transitions))"

definition repetitionScore :: "(bytes \<times> int) list \<Rightarrow> int \<Rightarrow> real" where
  "repetitionScore counts tot =
     (if tot \<le> 1 then 0
      else real_of_int (tot - int (length counts)) / real_of_int (tot - 1))"

definition stdDev :: "real list \<Rightarrow> real" where
  "stdDev xs =
     (if length xs < 2 then 0
      else
        let mean = foldl (+) 0 xs / real (length xs);
            ss = foldl (\<lambda>s x. let d = x - mean in s + d * d) 0 xs
        in sqrt (ss / real (length xs)))"

definition clamp01 :: "real \<Rightarrow> real" where
  "clamp01 x = (if x < 0 then 0 else if x > 1 then 1 else x)"

definition saturate :: "real \<Rightarrow> real \<Rightarrow> real" where
  "saturate v scale = (if scale \<le> 0 \<or> v \<le> 0 then 0 else clamp01 (v / scale))"

section \<open>Facts about counts\<close>

text \<open>The counts of a sequence: one entry per distinct element, adding up to its length.\<close>

definition tally :: "bytes list \<Rightarrow> (bytes \<times> int) list" where
  "tally xs = foldl (\<lambda>m x. bump x m) [] xs"

lemma bump_keys: "set (map fst (bump k m)) = insert k (set (map fst m))"
  by (induction k m rule: bump.induct) auto

lemma bump_distinct: "distinct (map fst m) \<Longrightarrow> distinct (map fst (bump k m))"
  by (induction k m rule: bump.induct) (auto simp: bump_keys simp del: set_map)

lemma bump_lookup: "distinct (map fst m) \<Longrightarrow>
  map_of (bump k m) = (map_of m)(k \<mapsto> (case map_of m k of None \<Rightarrow> 1 | Some c \<Rightarrow> c + 1))"
proof (induction k m rule: bump.induct)
  case (2 k k' c m)
  then show ?case by (cases "k = k'") (auto simp: fun_eq_iff)
qed simp

lemma bump_sum: "sum_list (map snd (bump k m)) = sum_list (map snd m) + 1"
  by (induction k m rule: bump.induct) auto

lemma bump_pos: "\<forall>(k, c) \<in> set m. 0 < c \<Longrightarrow> \<forall>(k, c) \<in> set (bump k' m). 0 < c"
  by (induction k' m rule: bump.induct) (auto split: if_splits)

lemma tally_snoc: "tally (xs @ [x]) = bump x (tally xs)"
  by (simp add: tally_def)

lemma tally_facts:
  "distinct (map fst (tally xs))" "set (map fst (tally xs)) = set xs"
  "sum_list (map snd (tally xs)) = int (length xs)" "\<forall>(k, c) \<in> set (tally xs). 0 < c"
proof (induction xs rule: rev_induct)
  case Nil
  { case 1 show ?case by (simp add: tally_def) }
  { case 2 show ?case by (simp add: tally_def) }
  { case 3 show ?case by (simp add: tally_def) }
  { case 4 show ?case by (simp add: tally_def) }
next
  case (snoc x xs)
  { case 1 show ?case using snoc(1) by (simp add: tally_snoc bump_distinct) }
  { case 2 show ?case using snoc(2) by (simp add: tally_snoc bump_keys del: set_map) }
  { case 3 show ?case using snoc(3) by (simp add: tally_snoc bump_sum) }
  { case 4 show ?case using snoc(4) by (simp add: tally_snoc bump_pos) }
qed

lemma tally_count: "map_of (tally xs) k = (if k \<in> set xs then Some (int (count_list xs k)) else None)"
proof (induction xs rule: rev_induct)
  case Nil
  then show ?case by (simp add: tally_def)
next
  case (snoc x xs)
  then show ?case
    by (auto simp: tally_snoc bump_lookup tally_facts(1) count_list_append)
qed

lemma length_tally: "length (tally xs) = card (set xs)"
proof -
  have "length (tally xs) = card (set (map fst (tally xs)))"
    using distinct_card [OF tally_facts(1)] by simp
  then show ?thesis by (simp add: tally_facts(2) del: set_map)
qed

section \<open>Ranges of the statistics\<close>

lemma clamp01_range: "0 \<le> clamp01 x \<and> clamp01 x \<le> 1"
  by (simp add: clamp01_def)

lemma clamp01_id: "0 \<le> x \<Longrightarrow> x \<le> 1 \<Longrightarrow> clamp01 x = x"
  by (simp add: clamp01_def)

lemma entropy_loop:
  "foldl (\<lambda>h (_, c). if c = 0 then h
      else let p = real_of_int c / real_of_int tot in h - p * log 2 p) h0 counts =
   h0 - (\<Sum>(_, c) \<leftarrow> counts. let p = real_of_int c / real_of_int tot in p * log 2 p)"
  by (induction counts arbitrary: h0) (auto simp: Let_def)

text \<open>Gibbs' inequality against the uniform distribution, in the form the bound needs.\<close>

lemma gibbs_term:
  assumes "0 < p" "0 < (n::real)"
  shows "- (p * log 2 p) \<le> p * log 2 n + (1 / n - p) / ln 2"
proof -
  have "ln (1 / (n * p)) \<le> 1 / (n * p) - 1"
    using assms by (intro ln_le_minus_one) simp
  then have "p * ln (1 / (n * p)) \<le> p * (1 / (n * p) - 1)"
    using assms by (intro mult_left_mono) auto
  also have "\<dots> = 1 / n - p" using assms by (simp add: field_simps)
  finally have "p * ln (1 / (n * p)) / ln 2 \<le> (1 / n - p) / ln 2"
    by (intro divide_right_mono) auto
  moreover have "ln (1 / (n * p)) = - ln n - ln p"
    using assms by (simp add: ln_div ln_mult)
  ultimately show ?thesis by (simp add: log_def algebra_simps diff_divide_distrib)
qed

lemma sum_list_split: "(\<Sum>x \<leftarrow> xs. f x - g x) = sum_list (map f xs) - (sum_list (map g xs) :: real)"
  by (induction xs) auto

lemma entropy_sum_bounds:
  assumes "\<forall>(k, c) \<in> set counts. 0 < c" "counts \<noteq> []"
  defines "tot \<equiv> sum_list (map snd counts)"
  defines "h \<equiv> - (\<Sum>(_, c) \<leftarrow> counts. let p = real_of_int c / real_of_int tot in p * log 2 p)"
  shows "0 \<le> h \<and> h \<le> log 2 (real (length counts))"
proof -
  let ?n = "real (length counts)"
  let ?p = "\<lambda>kc. real_of_int (snd kc) / real_of_int tot"
  have tot: "snd kc \<le> tot" if "kc \<in> set counts" for kc
    unfolding tot_def using that assms(1) by (intro member_le_sum_list) force+
  from assms(2) obtain k0 where "k0 \<in> set counts" by (cases counts) auto
  with tot [of k0] assms(1) have tpos: "0 < tot" by (cases k0) fastforce
  have p: "0 < ?p kc" "?p kc \<le> 1" if "kc \<in> set counts" for kc
    using assms(1) tot [OF that] tpos that by (cases kc, auto)+
  have h: "h = (\<Sum>kc \<leftarrow> counts. - (?p kc * log 2 (?p kc)))"
    by (simp add: h_def Let_def case_prod_beta uminus_sum_list_map comp_def)
  have "0 \<le> h" unfolding h
  proof (rule sum_list_nonneg)
    fix x
    assume "x \<in> set (map (\<lambda>kc. - (?p kc * log 2 (?p kc))) counts)"
    then obtain kc where "kc \<in> set counts" "x = - (?p kc * log 2 (?p kc))" by auto
    moreover have "?p kc * log 2 (?p kc) \<le> 0"
      using p [OF calculation(1)] by (intro mult_nonneg_nonpos) auto
    ultimately show "0 \<le> x" by linarith
  qed
  moreover have "h \<le> (\<Sum>kc \<leftarrow> counts. ?p kc * log 2 ?n + (1 / ?n - ?p kc) / ln 2)"
    unfolding h using assms(2) p by (intro sum_list_mono gibbs_term) auto
  moreover have s1: "(\<Sum>kc \<leftarrow> counts. ?p kc) = 1"
  proof -
    have "(\<Sum>kc \<leftarrow> xs. real_of_int (snd kc) / real_of_int tot) =
        real_of_int (sum_list (map snd xs)) / real_of_int tot" for xs :: "('a \<times> int) list"
      by (induction xs) (auto simp: add_divide_distrib)
    from this [of counts] tpos show ?thesis by (simp flip: tot_def)
  qed
  have "(\<Sum>kc \<leftarrow> counts. ?p kc * log 2 ?n + (1 / ?n - ?p kc) / ln 2) = log 2 ?n"
  proof -
    have "(\<Sum>kc \<leftarrow> xs. ?p kc * log 2 ?n + (1 / ?n - ?p kc) / ln 2) =
        (\<Sum>kc \<leftarrow> xs. ?p kc) * log 2 ?n + (real (length xs) / ?n - (\<Sum>kc \<leftarrow> xs. ?p kc)) / ln 2"
      for xs
      by (induction xs) (simp_all add: algebra_simps add_divide_distrib diff_divide_distrib)
    from this [of counts] show ?thesis using assms(2) by (simp add: s1)
  qed
  ultimately show ?thesis by simp
qed

text \<open>
  The normalised Shannon entropy of any sequence of tool names lies between 0 and 1, so
  that a threshold on it means the same for small and for large tool vocabularies.\<close>

theorem shannonEntropy_range: "0 \<le> shannonEntropy (tally xs) \<and> shannonEntropy (tally xs) \<le> 1"
proof (cases "length (tally xs) \<le> 1")
  case True
  then show ?thesis by (simp add: shannonEntropy_def Let_def)
next
  case False
  then have ne: "tally xs \<noteq> []" and "1 < real (length (tally xs))" by auto
  then have pos: "0 < log 2 (real (length (tally xs)))" by simp
  let ?tot = "sum_list (map snd (tally xs))"
  let ?h = "- (\<Sum>(_, c) \<leftarrow> tally xs. let p = real_of_int c / real_of_int ?tot in p * log 2 p)"
  have "shannonEntropy (tally xs) = (if ?tot = 0 then 0 else ?h / log 2 (real (length (tally xs))))"
    using False pos unfolding shannonEntropy_def entropy_loop Let_def [of ?tot] by (simp add: Let_def)
  moreover have "0 \<le> ?h / log 2 (real (length (tally xs)))"
    "?h / log 2 (real (length (tally xs))) \<le> 1"
    using entropy_sum_bounds [OF tally_facts(4) ne] pos by (simp_all only: divide_nonneg_pos divide_le_eq_1_pos)
  ultimately show ?thesis by simp
qed

lemma transitionNovelty_range: "0 \<le> transitionNovelty ts \<and> transitionNovelty ts \<le> 1"
proof -
  have "length (filter (\<lambda>(_, c). c = 1) ts) \<le> length ts" by (rule length_filter_le)
  then show ?thesis by (auto simp: transitionNovelty_def divide_le_eq)
qed

lemma repetitionScore_range:
  assumes "xs \<noteq> []"
  shows "0 \<le> repetitionScore (tally xs) (int (length xs)) \<and>
    repetitionScore (tally xs) (int (length xs)) \<le> 1"
proof -
  have "1 \<le> card (set xs)" "card (set xs) \<le> length xs"
    using assms by (auto simp: card_length Suc_le_eq card_gt_0_iff)
  then show ?thesis by (auto simp: repetitionScore_def length_tally divide_le_eq)
qed

end
