(* ===== verification/Session.thy ===== *)
theory Session
  imports Ring Scope Ubfs "HOL-Library.Product_Lexorder"
begin

text \<open>
  One agent's session: \<open>internal/detect/detector.go\<close>, the window counts of
  \<open>internal/detect/budget.go\<close>, and the reports of \<open>resource.go\<close> and \<open>scope.go\<close> over the
  retained calls. The clock is an argument (\<open>now\<close>), and so is the local zone: \<open>zone t\<close> is
  its offset from UTC in seconds at instant \<open>t\<close>. A panic of the ring is \<open>None\<close>. A
  \<open>map[string]struct{}\<close> is a set, a \<open>map[string]*Group\<close> an association list.
\<close>

section \<open>Definitions\<close>

record call =
  c_Tool :: bytes
  c_Target :: bytes
  c_PayloadBytes :: int
  c_IsToolCall :: bool
  c_Errored :: bool
  c_At :: instant
  c_Unscoped :: bool
  c_res :: resource

definition zero_call :: call where
  "zero_call = \<lparr>c_Tool = [], c_Target = [], c_PayloadBytes = 0, c_IsToolCall = False,
     c_Errored = False, c_At = zero_time, c_Unscoped = False, c_res = zero_resource\<rparr>"

record session_config =
  cfg_Window :: int
  cfg_MaxCalls :: int
  cfg_BusinessHoursStart :: int
  cfg_BusinessHoursEnd :: int

definition DefaultMaxCalls :: int where
  "DefaultMaxCalls = 10000"

definition withDefaults :: "session_config \<Rightarrow> session_config" where
  "withDefaults c =
     (let c = (if cfg_MaxCalls c \<le> 0 then c\<lparr>cfg_MaxCalls := DefaultMaxCalls\<rparr> else c)
      in if cfg_BusinessHoursStart c = 0 \<and> cfg_BusinessHoursEnd c = 0
         then c\<lparr>cfg_BusinessHoursStart := 9, cfg_BusinessHoursEnd := 17\<rparr> else c)"

record session =
  s_cfg :: session_config
  s_calls :: "call ring"
  s_startedAt :: instant

definition NewSession :: "session_config \<Rightarrow> session" where
  "NewSession cfg = \<lparr>s_cfg = withDefaults cfg, s_calls = empty_ring, s_startedAt = zero_time\<rparr>"

text \<open>The loop of \<open>evictLocked\<close>: how many of the oldest calls lie before the cutoff.\<close>

function count_before :: "call ring \<Rightarrow> instant \<Rightarrow> nat \<Rightarrow> nat" where
  "count_before r cutoff d =
     (if d < rg_n r \<and> (case ring_at r (int d) of Some c \<Rightarrow> c_At c < cutoff | None \<Rightarrow> False)
      then count_before r cutoff (Suc d) else d)"
  by pat_completeness auto
termination
  by (relation "measure (\<lambda>(r, cutoff, d). rg_n r - d)") auto

declare count_before.simps [simp del]

definition evictLocked :: "session \<Rightarrow> instant \<Rightarrow> session option" where
  "evictLocked s now =
     (if cfg_Window (s_cfg s) \<le> 0 then Some s
      else
        let cutoff = now - cfg_Window (s_cfg s);
            k = count_before (s_calls s) cutoff 0
        in map_option (\<lambda>r. s\<lparr>s_calls := r\<rparr>) (dropOldest zero_call (s_calls s) (int k)))"

definition Session_Observe :: "instant \<Rightarrow> session \<Rightarrow> call \<Rightarrow> session option" where
  "Session_Observe now s c =
     (let c = (if c_At c = zero_time then c\<lparr>c_At := now\<rparr> else c);
          c = c\<lparr>c_res := ParseResource (c_Target c)\<rparr>;
          s = (if s_startedAt s = zero_time then s\<lparr>s_startedAt := c_At c\<rparr> else s);
          s = s\<lparr>s_calls := push zero_call (s_calls s) c (cfg_MaxCalls (s_cfg s))\<rparr>
      in evictLocked s (c_At c))"

definition Len :: "session \<Rightarrow> nat" where
  "Len s = rg_n (s_calls s)"

text \<open>The calls in the order both loops of the source visit them.\<close>

definition walked :: "session \<Rightarrow> call list" where
  "walked s = (let (front, back) = parts (s_calls s) in front @ back)"

definition DistinctTargets :: "session \<Rightarrow> nat" where
  "DistinctTargets s =
     card (foldl (\<lambda>ts c. if c_Target c \<noteq> [] then insert (c_Target c) ts else ts) {} (walked s))"

subsection \<open>Window counts\<close>

definition DefaultRateWindow :: int where
  "DefaultRateWindow = 60 * 1000000000"

record window_counts =
  wc_Calls :: nat
  wc_Targets :: nat
  wc_Truncated :: bool

text \<open>The newest-first walk: calls and targets counted until the first call before the
  cutoff, and whether one was met.\<close>

fun count_recent :: "instant \<Rightarrow> call list \<Rightarrow> nat \<Rightarrow> bytes set \<Rightarrow> nat \<times> bytes set \<times> bool" where
  "count_recent cutoff [] n ts = (n, ts, False)"
| "count_recent cutoff (c # cs) n ts =
     (if c_At c < cutoff then (n, ts, True)
      else count_recent cutoff cs (n + 1) (if c_Target c \<noteq> [] then insert (c_Target c) ts else ts))"

definition CountsInWindow :: "session \<Rightarrow> int \<Rightarrow> instant \<Rightarrow> window_counts" where
  "CountsInWindow s d now =
     (if d \<le> 0 \<or> rg_n (s_calls s) = 0 then \<lparr>wc_Calls = 0, wc_Targets = 0, wc_Truncated = False\<rparr>
      else
        let cutoff = now - d;
            (front, back) = parts (s_calls s);
            (n, ts, edge) = count_recent cutoff (rev back) 0 {};
            (n, ts, edge) = (if edge then (n, ts, edge) else count_recent cutoff (rev front) n ts)
        in \<lparr>wc_Calls = n, wc_Targets = card ts,
            wc_Truncated = (\<not> edge \<and> rg_evicted (s_calls s))\<rparr>)"

section \<open>The retained history\<close>

definition retained :: "session \<Rightarrow> call list" where
  "retained s = ring_list (s_calls s)"

definition cap :: "session \<Rightarrow> nat" where
  "cap s = nat (cfg_MaxCalls (s_cfg s))"

text \<open>The invariant of a session that \<open>NewSession\<close> made: a positive cap, a well-formed ring,
  a start time once there are calls, and in every retained call the cache \<open>res\<close> that
  describes its target.\<close>

definition session_ok :: "session \<Rightarrow> bool" where
  "session_ok s \<longleftrightarrow>
     0 < cfg_MaxCalls (s_cfg s) \<and> ring_inv (cap s) (s_calls s) \<and>
     (\<forall>c \<in> set (retained s). c_res c = ParseResource (c_Target c))"

text \<open>The call as it is stored: stamped by the clock when it carries no time, its target
  normalised.\<close>

definition stamped :: "instant \<Rightarrow> call \<Rightarrow> call" where
  "stamped now c =
     (let c = (if c_At c = zero_time then c\<lparr>c_At := now\<rparr> else c)
      in c\<lparr>c_res := ParseResource (c_Target c)\<rparr>)"

lemma count_before_eq:
  "d \<le> rg_n r \<Longrightarrow>
   count_before r cutoff d = d + length (takeWhile (\<lambda>c. c_At c < cutoff) (drop d (ring_list r)))"
proof (induction r cutoff d rule: count_before.induct)
  case (1 r cutoff d)
  show ?case
  proof (cases "d < rg_n r")
    case True
    then have d: "drop d (ring_list r) = ring_list r ! d # drop (Suc d) (ring_list r)"
      by (simp add: Cons_nth_drop_Suc)
    have at: "ring_at r (int d) = Some (ring_list r ! d)"
      using True by (simp add: ring_at_list)
    show ?thesis
    proof (cases "c_At (ring_list r ! d) < cutoff")
      case True
      with \<open>d < rg_n r\<close> at have "count_before r cutoff d = count_before r cutoff (Suc d)"
        by (subst count_before.simps) simp
      with 1 True \<open>d < rg_n r\<close> at d show ?thesis by simp
    next
      case False
      with at have "count_before r cutoff d = d" by (subst count_before.simps) simp
      with False d show ?thesis by simp
    qed
  next
    case False
    then have "count_before r cutoff d = d" by (subst count_before.simps) simp
    with False "1.prems" show ?thesis by simp
  qed
qed

lemma count_before_0:
  "count_before r cutoff 0 = length (takeWhile (\<lambda>c. c_At c < cutoff) (ring_list r))"
  by (simp add: count_before_eq)

lemma walked_eq: "session_ok s \<Longrightarrow> walked s = retained s"
  by (auto simp: session_ok_def walked_def retained_def split: prod.splits
      dest: parts_append)

lemma NewSession_ok: "session_ok (NewSession cfg)" "retained (NewSession cfg) = []"
  by (auto simp: session_ok_def NewSession_def withDefaults_def DefaultMaxCalls_def retained_def
      empty_ring_inv ring_simps Let_def)

text \<open>What the window of a session does to a history that grew by one call.\<close>

definition expire :: "session_config \<Rightarrow> instant \<Rightarrow> call list \<Rightarrow> call list" where
  "expire cfg now cs =
     (if cfg_Window cfg \<le> 0 then cs else dropWhile (\<lambda>c. c_At c < now - cfg_Window cfg) cs)"

lemma Observe_step:
  fixes s :: session and now :: instant and c :: call
  assumes ok: "session_ok s"
  defines "c' \<equiv> stamped now c"
  obtains s' where "Session_Observe now s c = Some s'" "session_ok s'" "s_cfg s' = s_cfg s"
    "retained s' = expire (s_cfg s) (c_At c')
      ((if length (retained s) < cap s then retained s else tl (retained s)) @ [c'])"
    "\<forall>h. ring_window.tracks (cap s) h (s_calls s) \<longrightarrow>
      ring_window.tracks (cap s) (h @ [c']) (s_calls s')"
proof -
  let ?cap = "cap s"
  have cap: "0 < ?cap" "int ?cap = cfg_MaxCalls (s_cfg s)" and inv: "ring_inv ?cap (s_calls s)"
    using ok by (auto simp: session_ok_def cap_def)
  define s1 where "s1 = s\<lparr>s_startedAt := (if s_startedAt s = zero_time then c_At c' else s_startedAt s),
    s_calls := push zero_call (s_calls s) c' (int ?cap)\<rparr>"
  have obs: "Session_Observe now s c = evictLocked s1 (c_At c')"
    by (simp add: Session_Observe_def s1_def c'_def stamped_def cap Let_def)
  have inv1: "ring_inv ?cap (s_calls s1)"
    using push_inv [OF inv cap(1)] by (simp add: s1_def)
  have list1: "ring_list (s_calls s1) =
      (if length (retained s) < ?cap then retained s else tl (retained s)) @ [c']"
    using push_list [OF inv cap(1)] by (simp add: s1_def retained_def)
  have tr1: "ring_window.tracks ?cap (h @ [c']) (s_calls s1)"
    if "ring_window.tracks ?cap h (s_calls s)" for h
    using ring_window.tracks_put [OF cap(1) that] by (simp add: s1_def)
  have res: "\<forall>x \<in> set (ring_list (s_calls s1)). c_res x = ParseResource (c_Target x)"
    using ok unfolding list1
    by (auto simp: session_ok_def retained_def c'_def stamped_def Let_def dest: in_set_tlD)
  show thesis
  proof (cases "cfg_Window (s_cfg s) \<le> 0")
    case True
    then have "evictLocked s1 (c_At c') = Some s1" by (simp add: evictLocked_def s1_def)
    then show thesis
      using True obs inv1 list1 tr1 res ok
      by (intro that [of s1])
        (auto simp: session_ok_def expire_def retained_def s1_def cap_def)
  next
    case False
    let ?P = "\<lambda>x. c_At x < c_At c' - cfg_Window (s_cfg s)"
    obtain r' where r': "dropOldest zero_call (s_calls s1)
          (int (length (takeWhile ?P (ring_list (s_calls s1))))) = Some r'"
        "ring_inv ?cap r'" "ring_list r' = dropWhile ?P (ring_list (s_calls s1))"
      using ring_window.evict_while [OF inv1] by blast
    have tr: "ring_window.tracks ?cap h r'" if h: "ring_window.tracks ?cap h (s_calls s1)" for h
    proof (rule ring_window.tracks_evict_while [OF h, where z = zero_call and P = ?P])
      fix q
      assume "dropOldest zero_call (s_calls s1)
          (int (length (takeWhile ?P (ring_list (s_calls s1))))) = Some q" "ring_window.tracks ?cap h q"
      with r'(1) show ?thesis by simp
    qed
    have "evictLocked s1 (c_At c') = Some (s1\<lparr>s_calls := r'\<rparr>)"
      using False r'(1) by (simp add: evictLocked_def s1_def count_before_0 Let_def)
    moreover have "\<forall>x \<in> set (ring_list r'). c_res x = ParseResource (c_Target x)"
      unfolding r'(3) by (rule ballI, drule set_dropWhileD, rule bspec [OF res])
    ultimately have o: "Session_Observe now s c = Some (s1\<lparr>s_calls := r'\<rparr>)"
      and res': "\<forall>x \<in> set (retained (s1\<lparr>s_calls := r'\<rparr>)). c_res x = ParseResource (c_Target x)"
      using obs by (simp_all add: retained_def)
    have cfg: "s_cfg (s1\<lparr>s_calls := r'\<rparr>) = s_cfg s" by (simp add: s1_def)
    then have "session_ok (s1\<lparr>s_calls := r'\<rparr>)"
      using ok r'(2) res' by (simp add: session_ok_def cap_def)
    moreover have "retained (s1\<lparr>s_calls := r'\<rparr>) = expire (s_cfg s) (c_At c')
        ((if length (retained s) < ?cap then retained s else tl (retained s)) @ [c'])"
      using False r'(3) unfolding list1 by (simp add: retained_def expire_def)
    moreover have "ring_window.tracks ?cap (h @ [c']) (s_calls (s1\<lparr>s_calls := r'\<rparr>))"
      if "ring_window.tracks ?cap h (s_calls s)" for h
      using tr [OF tr1 [OF that]] by simp
    ultimately show thesis using o cfg by (intro that) auto
  qed
qed

section \<open>Runs of a session\<close>

fun observe_all :: "session \<Rightarrow> (instant \<times> call) list \<Rightarrow> session option" where
  "observe_all s [] = Some s"
| "observe_all s ((now, c) # obs) =
     Option.bind (Session_Observe now s c) (\<lambda>s'. observe_all s' obs)"

definition history :: "(instant \<times> call) list \<Rightarrow> call list" where
  "history obs = map (\<lambda>(now, c). stamped now c) obs"

lemma expire_last:
  "c_At c = now \<Longrightarrow> expire cfg now (cs @ [c]) \<noteq> []"
  by (auto simp: expire_def dropWhile_eq_Nil_conv)

lemma observe_all_total:
  assumes "session_ok s"
  shows "\<exists>s'. observe_all s obs = Some s' \<and> session_ok s' \<and> s_cfg s' = s_cfg s \<and>
    (retained s' = [] \<longrightarrow> obs = []) \<and>
    (\<forall>h. ring_window.tracks (cap s) h (s_calls s) \<longrightarrow>
      ring_window.tracks (cap s) (h @ history obs) (s_calls s'))"
  using assms
proof (induction obs arbitrary: s)
  case Nil
  then show ?case by (auto simp: history_def)
next
  case (Cons nc obs)
  obtain now c where nc: "nc = (now, c)" by (cases nc)
  from Cons.prems obtain s1 where s1: "Session_Observe now s c = Some s1" "session_ok s1"
    "s_cfg s1 = s_cfg s" and r1: "retained s1 = expire (s_cfg s) (c_At (stamped now c))
      ((if length (retained s) < cap s then retained s else tl (retained s)) @ [stamped now c])"
    and t1: "\<forall>h. ring_window.tracks (cap s) h (s_calls s) \<longrightarrow>
      ring_window.tracks (cap s) (h @ [stamped now c]) (s_calls s1)"
    by (rule Observe_step [where now = now and c = c])
  have cap1: "cap s1 = cap s" using s1(3) by (simp add: cap_def)
  from Cons.IH [OF s1(2)] obtain s' where s': "observe_all s1 obs = Some s'" "session_ok s'"
    "s_cfg s' = s_cfg s1" "retained s' = [] \<longrightarrow> obs = []"
    and t: "\<forall>h. ring_window.tracks (cap s1) h (s_calls s1) \<longrightarrow>
      ring_window.tracks (cap s1) (h @ history obs) (s_calls s')" by blast
  have "retained s' \<noteq> []"
  proof
    assume "retained s' = []"
    with s'(1,4) have "s' = s1" by simp
    with \<open>retained s' = []\<close> r1 expire_last [of "stamped now c" "c_At (stamped now c)"]
    show False by simp
  qed
  moreover have "ring_window.tracks (cap s) (h @ history (nc # obs)) (s_calls s')"
    if "ring_window.tracks (cap s) h (s_calls s)" for h
    using t [rule_format, of "h @ [stamped now c]"] t1 [rule_format, OF that] nc
    by (simp add: cap1 history_def)
  ultimately show ?case
    using s1 s' nc by (intro exI [of _ s']) simp
qed

lemma tracksD:
  assumes "ring_window.tracks (cap s) h (s_calls s)"
  shows "suffix (retained s) h" "length (retained s) \<le> cap s"
    "\<not> rg_evicted (s_calls s) \<Longrightarrow> retained s = h"
  using assms by (auto simp: ring_window.tracks_def retained_def ring_inv_def)

lemma run_from_new:
  assumes "observe_all (NewSession cfg) obs = Some s"
  shows "session_ok s" "s_cfg s = withDefaults cfg" "retained s = [] \<Longrightarrow> obs = []"
    "ring_window.tracks (cap s) (history obs) (s_calls s)"
proof -
  have fresh: "ring_window.tracks (cap (NewSession cfg)) [] (s_calls (NewSession cfg))"
    using ring_window.tracks_fresh by (simp add: NewSession_def)
  from observe_all_total [OF NewSession_ok(1), of cfg obs] assms fresh
  have *: "session_ok s" "s_cfg s = s_cfg (NewSession cfg)" "retained s = [] \<longrightarrow> obs = []"
    "ring_window.tracks (cap (NewSession cfg)) ([] @ history obs) (s_calls s)" by auto
  show "session_ok s" "s_cfg s = withDefaults cfg" "retained s = [] \<Longrightarrow> obs = []"
    using * by (auto simp: NewSession_def)
  show "ring_window.tracks (cap s) (history obs) (s_calls s)"
    using * by (simp add: cap_def)
qed

lemma observe_all_returns: "\<exists>s. observe_all (NewSession cfg) obs = Some s"
  using observe_all_total [OF NewSession_ok(1)] by blast

text \<open>
  C10: Whatever is observed, and in whatever order of clock readings, a session never panics,
  never retains more than its cap, and retains exactly a final part of what it observed, with
  every target's normalised resource cached beside it; and as long as it does not report an
  eviction it retains everything.\<close>

theorem session_retains_recent_history:
  "\<exists>s. observe_all (NewSession cfg) obs = Some s \<and>
    suffix (retained s) (history obs) \<and>
    int (Len s) \<le> cfg_MaxCalls (withDefaults cfg) \<and>
    list_all (\<lambda>c. c_res c = ParseResource (c_Target c)) (retained s) \<and>
    (rg_evicted (s_calls s) \<or> retained s = history obs)"
proof -
  obtain s where s: "observe_all (NewSession cfg) obs = Some s"
    using observe_all_total [OF NewSession_ok(1)] by blast
  note r = run_from_new [OF s]
  have "int (Len s) \<le> cfg_MaxCalls (withDefaults cfg)"
    using tracksD(2) [OF r(4)] r(1,2)
    by (simp add: Len_def retained_def cap_def session_ok_def nat_le_iff le_nat_iff)
  moreover have "list_all (\<lambda>c. c_res c = ParseResource (c_Target c)) (retained s)"
    using r(1) by (simp add: session_ok_def list_all_iff)
  ultimately show ?thesis using s tracksD(1,3) [OF r(4)] by blast
qed

section \<open>Window counts\<close>

definition recent :: "instant \<Rightarrow> call \<Rightarrow> bool" where
  "recent cutoff c \<longleftrightarrow> cutoff \<le> c_At c"

definition targets_of :: "call list \<Rightarrow> bytes set" where
  "targets_of cs = c_Target ` set cs - {[]}"

lemma targets_of_simps [simp]: "targets_of [] = {}"
  "targets_of (c # cs) = (if c_Target c = [] then targets_of cs else insert (c_Target c) (targets_of cs))"
  "targets_of (as @ bs) = targets_of as \<union> targets_of bs" "targets_of (rev cs) = targets_of cs"
  by (auto simp: targets_of_def)

lemma count_recent_eq:
  "count_recent cutoff cs n ts =
    (n + length (takeWhile (recent cutoff) cs), ts \<union> targets_of (takeWhile (recent cutoff) cs),
     \<not> list_all (recent cutoff) cs)"
  by (induction cutoff cs n ts rule: count_recent.induct) (auto simp: recent_def)

lemma CountsInWindow_eq:
  assumes "session_ok s" "0 < d"
  shows "CountsInWindow s d now =
    (let cs = takeWhile (recent (now - d)) (rev (retained s))
     in \<lparr>wc_Calls = length cs, wc_Targets = card (targets_of cs),
         wc_Truncated = (list_all (recent (now - d)) (retained s) \<and> rg_evicted (s_calls s) \<and>
           retained s \<noteq> [])\<rparr>)"
proof (cases "rg_n (s_calls s) = 0")
  case True
  then have "retained s = []" by (simp add: retained_def ring_list_Nil_iff)
  with True show ?thesis by (simp add: CountsInWindow_def)
next
  case False
  obtain f b where p: "parts (s_calls s) = (f, b)" by (cases "parts (s_calls s)")
  with assms(1) have r: "retained s = f @ b"
    using parts_append [of "cap s" "s_calls s"] by (simp add: session_ok_def retained_def)
  have "retained s \<noteq> []" using False by (simp add: retained_def ring_list_Nil_iff)
  let ?P = "recent (now - d)"
  have tw: "takeWhile ?P (rev b @ rev f) =
      (if list_all ?P b then rev b @ takeWhile ?P (rev f) else takeWhile ?P (rev b))"
    by (auto simp: takeWhile_append list_all_iff)
  have all: "list_all ?P b \<Longrightarrow> takeWhile ?P (rev b) = rev b"
    by (simp add: takeWhile_eq_all_conv list_all_iff)
  show ?thesis
  proof (cases "list_all ?P b")
    case True
    with False assms(2) p r \<open>retained s \<noteq> []\<close> show ?thesis
      by (simp add: CountsInWindow_def count_recent_eq Let_def tw all [OF True])
  next
    case no: False
    with False assms(2) p r \<open>retained s \<noteq> []\<close> show ?thesis
      by (simp add: CountsInWindow_def count_recent_eq Let_def tw)
  qed
qed

lemma recent_sorted:
  "sorted (map c_At cs) \<Longrightarrow> takeWhile (recent k) (rev cs) = rev (filter (recent k) cs)"
  by (intro takeWhile_rev_filter)
    (auto simp: sorted_map recent_def elim!: sorted_wrt_mono_rel [rotated])

text \<open>
  C9: The rate counters are exact whenever they say so: in a session whose clock did not run
  backwards, counts not marked truncated are the number of calls ever observed in the window
  and the number of distinct targets they named, evicted calls included; counts marked
  truncated are a lower bound.\<close>

theorem CountsInWindow_exact:
  assumes "observe_all (NewSession cfg) obs = Some s" and "sorted (map c_At (history obs))"
    and "0 < d"
  shows "let wc = CountsInWindow s d now;
      window = filter (recent (now - d)) (history obs)
    in (if wc_Truncated wc
        then wc_Calls wc \<le> length window \<and> wc_Targets wc \<le> card (targets_of window)
        else wc_Calls wc = length window \<and> wc_Targets wc = card (targets_of window))"
proof -
  let ?P = "recent (now - d)" and ?h = "history obs"
  note r = run_from_new [OF assms(1)]
  obtain pre where pre: "?h = pre @ retained s" using tracksD(1) [OF r(4)] by (auto simp: suffix_def)
  have sorted: "sorted (map c_At (retained s))" using assms(2) pre by (simp add: sorted_append)
  have c: "CountsInWindow s d now = \<lparr>wc_Calls = length (filter ?P (retained s)),
      wc_Targets = card (targets_of (filter ?P (retained s))),
      wc_Truncated = (list_all ?P (retained s) \<and> rg_evicted (s_calls s) \<and> retained s \<noteq> [])\<rparr>"
    unfolding CountsInWindow_eq [OF r(1) assms(3)] recent_sorted [OF sorted] by (simp add: Let_def)
  have le: "length (filter ?P (retained s)) \<le> length (filter ?P ?h)"
    "card (targets_of (filter ?P (retained s))) \<le> card (targets_of (filter ?P ?h))"
    by (simp add: pre, rule card_mono) (auto simp: pre targets_of_def)
  have "filter ?P pre = []" if "\<not> (list_all ?P (retained s) \<and> rg_evicted (s_calls s) \<and> retained s \<noteq> [])"
  proof (cases "list_all ?P (retained s)")
    case True
    with that have "\<not> rg_evicted (s_calls s) \<or> retained s = []" by blast
    then show ?thesis
    proof
      assume "\<not> rg_evicted (s_calls s)"
      with tracksD(3) [OF r(4)] pre show ?thesis by simp
    next
      assume "retained s = []"
      with r(3) pre show ?thesis by (simp add: history_def)
    qed
  next
    case False
    then obtain x where "x \<in> set (retained s)" "c_At x < now - d" by (auto simp: list_all_iff recent_def)
    with assms(2) pre show ?thesis
      by (fastforce simp: sorted_append filter_empty_conv recent_def)
  qed
  with c le show ?thesis by (simp add: Let_def pre)
qed

definition example_call :: "bytes \<Rightarrow> bytes \<Rightarrow> int \<Rightarrow> call" where
  "example_call tool target t = zero_call\<lparr>c_Tool := tool, c_Target := target, c_IsToolCall := True, c_At := t\<rparr>"

definition example_obs :: "(instant \<times> call) list" where
  "example_obs = map (\<lambda>(f, t). (0, example_call ''read'' f t))
     [(''/a'', 10), (''/b'', 20), (''/b'', 30), (''/c'', 40)]"

definition example_config :: session_config where
  "example_config = \<lparr>cfg_Window = 0, cfg_MaxCalls = 3, cfg_BusinessHoursStart = 0,
     cfg_BusinessHoursEnd = 0\<rparr>"

definition example_session :: session where
  "example_session =
     (case observe_all (NewSession example_config) example_obs of Some s \<Rightarrow> s | None \<Rightarrow> NewSession example_config)"

lemma example_run: "observe_all (NewSession example_config) example_obs = Some example_session"
proof -
  obtain s where "observe_all (NewSession example_config) example_obs = Some s"
    using observe_all_returns by blast
  then show ?thesis by (simp add: example_session_def)
qed

lemma CountsInWindow_exact_witness:
  "CountsInWindow example_session 15 40 = \<lparr>wc_Calls = 2, wc_Targets = 2, wc_Truncated = False\<rparr> \<and>
   CountsInWindow example_session 30 40 = \<lparr>wc_Calls = 3, wc_Targets = 2, wc_Truncated = True\<rparr> \<and>
   length (filter (recent (40 - 15)) (history example_obs)) = 2"
proof -
  note run = example_run
  have sorted: "sorted (map c_At (history example_obs))"
    by (simp add: history_def example_obs_def example_call_def stamped_def zero_time_def)
  have w1: "CountsInWindow example_session 15 40 = \<lparr>wc_Calls = 2, wc_Targets = 2, wc_Truncated = False\<rparr>"
    by code_simp
  have "CountsInWindow example_session 30 40 = \<lparr>wc_Calls = 3, wc_Targets = 2, wc_Truncated = True\<rparr>"
    by code_simp
  with CountsInWindow_exact [OF run sorted, of 15 40] w1 show ?thesis by (simp add: Let_def)
qed

end
