(* ===== verification/Scoring.thy ===== *)
theory Scoring
  imports Session
begin

text \<open>
  The behavioural vector of a session and the decomposition score,
  \<open>Session.Vector\<close> and \<open>Session.Assess\<close> of \<open>internal/detect/detector.go\<close>. The score adds
  four products in the order of a Go map, which is not fixed; over the reals the order does
  not matter.
\<close>

section \<open>Definitions\<close>

text \<open>\<open>Time.Hour\<close>, \<open>Time.Weekday\<close> (Sunday is 0) and \<open>Time.Sub\<close>, which saturates.\<close>

definition Hour :: "(instant \<Rightarrow> int) \<Rightarrow> instant \<Rightarrow> int" where
  "Hour zone t = (t div 1000000000 + zone t) mod 86400 div 3600"

definition Weekday :: "(instant \<Rightarrow> int) \<Rightarrow> instant \<Rightarrow> int" where
  "Weekday zone t = ((t div 1000000000 + zone t) div 86400 + 4) mod 7"

definition Sub :: "instant \<Rightarrow> instant \<Rightarrow> int" where
  "Sub t u = max (- (2 ^ 63)) (min (2 ^ 63 - 1) (t - u))"

record vector_loop =
  vl_toolCounts :: "(bytes \<times> int) list"
  vl_targets :: "bytes set"
  vl_transitions :: "(bytes \<times> int) list"
  vl_payloads :: "real list"
  vl_toolCalls :: int
  vl_secondary :: int
  vl_peripheral :: int
  vl_afterHours :: int
  vl_totalBytes :: int
  vl_prevTool :: bytes

definition vector_start :: vector_loop where
  "vector_start = \<lparr>vl_toolCounts = [], vl_targets = {}, vl_transitions = [], vl_payloads = [],
     vl_toolCalls = 0, vl_secondary = 0, vl_peripheral = 0, vl_afterHours = 0, vl_totalBytes = 0,
     vl_prevTool = []\<rparr>"

definition vector_step :: "session_config \<Rightarrow> (instant \<Rightarrow> int) \<Rightarrow> vector_loop \<Rightarrow> call \<Rightarrow> vector_loop" where
  "vector_step cfg zone v c =
     (let hour = Hour zone (c_At c) in
      \<lparr>vl_toolCounts = bump (c_Tool c) (vl_toolCounts v),
       vl_targets = (if c_Target c \<noteq> [] then insert (c_Target c) (vl_targets v) else vl_targets v),
       vl_transitions = (if vl_prevTool v \<noteq> []
          then bump (vl_prevTool v @ [CHR 0x00] @ c_Tool c) (vl_transitions v) else vl_transitions v),
       vl_payloads = vl_payloads v @ [real_of_int (c_PayloadBytes c)],
       vl_toolCalls = (if c_IsToolCall c then vl_toolCalls v + 1 else vl_toolCalls v),
       vl_secondary = (if c_IsToolCall c then vl_secondary v else vl_secondary v + 1),
       vl_peripheral = (if c_Errored c then vl_peripheral v + 1 else vl_peripheral v),
       vl_afterHours = (if hour < cfg_BusinessHoursStart cfg \<or> hour \<ge> cfg_BusinessHoursEnd cfg
          then vl_afterHours v + 1 else vl_afterHours v),
       vl_totalBytes = vl_totalBytes v + c_PayloadBytes c,
       vl_prevTool = c_Tool c\<rparr>)"

definition Vector :: "(instant \<Rightarrow> int) \<Rightarrow> session \<Rightarrow> vector" where
  "Vector zone s =
     (let started = s_startedAt s; v = NewVector in
      if rg_n (s_calls s) = 0 then v
      else
        let a = foldl (vector_step (s_cfg s) zone) vector_start (walked s);
            n = rg_n (s_calls s);
            last = (case ring_at (s_calls s) (int n - 1) of Some c \<Rightarrow> c_At c | None \<Rightarrow> zero_time);
            v = vec_Set FeatActivityHourMean (real_of_int (Hour zone started)) v;
            v = vec_Set FeatSessionDurationNorm (real_of_int (Sub last started) / 1000000000) v;
            v = vec_Set FeatAfterHoursRatio (real_of_int (vl_afterHours a) / real n) v;
            wd = Weekday zone started;
            v = (if wd = 6 \<or> wd = 0 then vec_Set FeatWeekendActivityFlag 1 v else v);
            v = vec_Set FeatPrimaryEventCount (real_of_int (vl_toolCalls a)) v;
            v = vec_Set FeatSecondaryEventCount (real_of_int (vl_secondary a)) v;
            v = vec_Set FeatPeripheralEventCount (real_of_int (vl_peripheral a)) v;
            v = vec_Set FeatDataVolumeNorm (real_of_int (vl_totalBytes a)) v;
            v = vec_Set FeatOutputCountNorm (real n) v;
            v = vec_Set FeatVolumeVariability (stdDev (vl_payloads a)) v;
            v = vec_Set FeatResourceBreadth (real (length (vl_toolCounts a))) v;
            v = vec_Set FeatTargetBreadth (real (card (vl_targets a))) v;
            v = vec_Set FeatBreadthRatio (real (length (vl_toolCounts a)) / real n) v;
            v = vec_Set FeatActionEntropy (shannonEntropy (vl_toolCounts a)) v;
            v = vec_Set FeatTransitionNovelty (transitionNovelty (vl_transitions a)) v;
            v = vec_Set FeatRepetitionScore (repetitionScore (vl_toolCounts a) (int n)) v
        in v)"

record assessment =
  as_Score :: real
  as_Contributions :: "(bytes \<times> real) list"
  as_Calls :: nat
  as_BelowMinimum :: bool

record weights =
  w_TargetBreadth :: real
  w_TransitionNovelty :: real
  w_ActionEntropy :: real
  w_LowRepetition :: real

definition DefaultWeights :: weights where
  "DefaultWeights = \<lparr>w_TargetBreadth = 40 / 100, w_TransitionNovelty = 25 / 100,
     w_ActionEntropy = 20 / 100, w_LowRepetition = 15 / 100\<rparr>"

definition MinCallsForScore :: nat where
  "MinCallsForScore = 8"

definition Assess :: "(instant \<Rightarrow> int) \<Rightarrow> session \<Rightarrow> weights \<Rightarrow> assessment" where
  "Assess zone s w =
     (let v = Vector zone s; n = Len s in
      if n < MinCallsForScore
      then \<lparr>as_Score = 0, as_Contributions = [], as_Calls = n, as_BelowMinimum = True\<rparr>
      else
        let breadth = saturate (vec_Get v FeatTargetBreadth) (real n);
            novelty = clamp01 (vec_Get v FeatTransitionNovelty);
            entropy = clamp01 (vec_Get v FeatActionEntropy);
            lowRep = 1 - clamp01 (vec_Get v FeatRepetitionScore);
            contrib = [(''target_breadth'', w_TargetBreadth w * breadth),
                       (''transition_novelty'', w_TransitionNovelty w * novelty),
                       (''action_entropy'', w_ActionEntropy w * entropy),
                       (''low_repetition'', w_LowRepetition w * lowRep)];
            score = foldl (\<lambda>s (_, c). s + c) 0 contrib
        in \<lparr>as_Score = clamp01 score, as_Contributions = contrib, as_Calls = n,
            as_BelowMinimum = False\<rparr>)"

section \<open>What the loop computes\<close>

text \<open>The pairs of consecutive tools with a non-empty first component, as the loop joins them.\<close>

fun transitions_of :: "bytes \<Rightarrow> bytes list \<Rightarrow> bytes list" where
  "transitions_of prev [] = []"
| "transitions_of prev (t # ts) =
     (if prev \<noteq> [] then [prev @ [CHR 0x00] @ t] else []) @ transitions_of t ts"

lemma vector_loop_eq:
  "foldl (vector_step cfg zone) v cs =
    \<lparr>vl_toolCounts = foldl (\<lambda>m c. bump (c_Tool c) m) (vl_toolCounts v) cs,
     vl_targets = vl_targets v \<union> targets_of cs,
     vl_transitions = foldl (\<lambda>m t. bump t m) (vl_transitions v)
        (transitions_of (vl_prevTool v) (map c_Tool cs)),
     vl_payloads = vl_payloads v @ map (\<lambda>c. real_of_int (c_PayloadBytes c)) cs,
     vl_toolCalls = vl_toolCalls v + int (length (filter c_IsToolCall cs)),
     vl_secondary = vl_secondary v + int (length (filter (\<lambda>c. \<not> c_IsToolCall c) cs)),
     vl_peripheral = vl_peripheral v + int (length (filter c_Errored cs)),
     vl_afterHours = vl_afterHours v + int (length (filter (\<lambda>c. Hour zone (c_At c) < cfg_BusinessHoursStart cfg
        \<or> Hour zone (c_At c) \<ge> cfg_BusinessHoursEnd cfg) cs)),
     vl_totalBytes = vl_totalBytes v + sum_list (map c_PayloadBytes cs),
     vl_prevTool = (if cs = [] then vl_prevTool v else c_Tool (last cs))\<rparr>"
  by (induction cs arbitrary: v) (simp_all add: vector_step_def Let_def)

lemma tool_tally: "foldl (\<lambda>m c. bump (c_Tool c) m) [] cs = tally (map c_Tool cs)"
  by (simp add: tally_def foldl_map)

lemma DistinctTargets_eq: "session_ok s \<Longrightarrow> DistinctTargets s = card (targets_of (retained s))"
proof -
  have "foldl (\<lambda>ts c. if c_Target c \<noteq> [] then insert (c_Target c) ts else ts) T cs = T \<union> targets_of cs"
    for T cs by (induction cs arbitrary: T) auto
  then show "session_ok s \<Longrightarrow> ?thesis" by (simp add: DistinctTargets_def walked_eq)
qed

definition features_eq :: "(instant \<Rightarrow> int) \<Rightarrow> session \<Rightarrow> bool" where
  "features_eq zone s \<longleftrightarrow>
     vec_Get (Vector zone s) FeatTargetBreadth = real (card (targets_of (retained s))) \<and>
     vec_Get (Vector zone s) FeatTransitionNovelty =
       transitionNovelty (tally (transitions_of [] (map c_Tool (retained s)))) \<and>
     vec_Get (Vector zone s) FeatActionEntropy = shannonEntropy (tally (map c_Tool (retained s))) \<and>
     vec_Get (Vector zone s) FeatRepetitionScore =
       repetitionScore (tally (map c_Tool (retained s))) (int (length (retained s))) \<and>
     vec_Get (Vector zone s) FeatPrimaryEventCount = real (length (filter c_IsToolCall (retained s))) \<and>
     vec_Get (Vector zone s) FeatSecondaryEventCount =
       real (length (filter (\<lambda>c. \<not> c_IsToolCall c) (retained s)))"

lemma retained_length: "length (retained s) = rg_n (s_calls s)"
  by (simp add: retained_def)

lemma Vector_features: "session_ok s \<Longrightarrow> features_eq zone s"
proof (cases "rg_n (s_calls s) = 0")
  case True
  then have "retained s = []" using retained_length [of s] by simp
  with True show ?thesis
    by (simp add: features_eq_def Vector_def vec_Get_def NewVector_def tally_def transitionNovelty_def
        shannonEntropy_def repetitionScore_def)
next
  case False
  assume ok: "session_ok s"
  from False show ?thesis
    by (simp add: features_eq_def Vector_def vec_Get_def vec_Set_def Let_def walked_eq [OF ok]
        vector_loop_eq vector_start_def tool_tally retained_length flip: tally_def)
qed

text \<open>
  \<open>DistinctTargets\<close>, the cheap count the gateway takes on every gated call, is the
  \<open>target_breadth\<close> feature of the full vector, and both are the number of distinct non-empty
  targets among the retained calls.\<close>

theorem DistinctTargets_is_target_breadth:
  assumes "observe_all (NewSession cfg) obs = Some s"
  shows "vec_Get (Vector zone s) FeatTargetBreadth = real (DistinctTargets s) \<and>
    DistinctTargets s = card (targets_of (retained s))"
  using Vector_features [OF run_from_new(1) [OF assms], of zone]
    DistinctTargets_eq [OF run_from_new(1) [OF assms]]
  by (simp add: features_eq_def)

lemma DistinctTargets_is_target_breadth_witness:
  "vec_Get (Vector (\<lambda>_. 0) example_session) FeatTargetBreadth = 2 \<and> DistinctTargets example_session = 2"
proof -
  have "DistinctTargets example_session = 2" by code_simp
  with DistinctTargets_is_target_breadth [OF example_run, of "\<lambda>_. 0"] show ?thesis by simp
qed

text \<open>
  A vector reports a value only for features the schema documents as observable: the
  baseline-relative and the permission features stay at their neutral zero whatever the
  session did.\<close>

theorem Vector_sets_only_observable:
  "\<forall>f. vec_values (Vector zone s) f \<noteq> None \<longrightarrow> f \<in> set ObservableFeatures"
proof (intro allI impI)
  fix f
  assume "vec_values (Vector zone s) f \<noteq> None"
  then show "f \<in> set ObservableFeatures"
    by (cases f)
      (auto simp: Vector_def Let_def vec_Set_def NewVector_def ObservableFeatures_def FeatureOrder_def
        split: if_splits)
qed

lemma Vector_sets_only_observable_witness:
  "FeatTargetBreadth \<in> set ObservableFeatures \<and> FeatPeerDistance \<notin> set ObservableFeatures"
proof -
  have "rg_n (s_calls example_session) \<noteq> 0" by code_simp
  then have "vec_values (Vector (\<lambda>_. 0) example_session) FeatTargetBreadth \<noteq> None"
    by (simp add: Vector_def Let_def vec_Set_def)
  with Vector_sets_only_observable [of "\<lambda>_. 0" example_session]
  show ?thesis by (simp add: ObservableFeatures_def FeatureOrder_def)
qed

section \<open>The score\<close>

lemma saturate_range: "0 \<le> saturate x y \<and> saturate x y \<le> 1"
  using clamp01_range by (simp add: saturate_def)

lemma weighted_range:
  assumes "0 \<le> b" "b \<le> 1" "0 \<le> n" "n \<le> 1" "0 \<le> e" "e \<le> 1" "0 \<le> r" "r \<le> (1::real)"
  shows "0 \<le> 40 / 100 * b + 25 / 100 * n + 20 / 100 * e + 15 / 100 * r \<and>
    40 / 100 * b + 25 / 100 * n + 20 / 100 * e + 15 / 100 * r \<le> 1"
  using assms by (simp add: field_simps)

text \<open>
  C28: With the default weights the score is never clipped: it is exactly the sum of the four
  contributions it is reported with, each between zero and its weight, so that the breakdown
  explains all of it. Below the minimum history there is no score and the assessment says so.\<close>

theorem Assess_explains_score:
  "let a = Assess zone s DefaultWeights in
   0 \<le> as_Score a \<and> as_Score a \<le> 1 \<and> as_Calls a = Len s \<and>
   (if Len s < MinCallsForScore then as_BelowMinimum a \<and> as_Score a = 0
    else \<not> as_BelowMinimum a \<and>
      as_Score a = sum_list (map snd (as_Contributions a)) \<and>
      map fst (as_Contributions a) =
        [''target_breadth'', ''transition_novelty'', ''action_entropy'', ''low_repetition''] \<and>
      list_all2 (\<lambda>(_, c) w. 0 \<le> c \<and> c \<le> w) (as_Contributions a)
        [40 / 100, 25 / 100, 20 / 100, 15 / 100])"
proof (cases "Len s < MinCallsForScore")
  case True
  then show ?thesis by (simp add: Assess_def Let_def)
next
  case False
  let ?v = "Vector zone s"
  let ?b = "saturate (vec_Get ?v FeatTargetBreadth) (real (Len s))"
  let ?n = "clamp01 (vec_Get ?v FeatTransitionNovelty)"
  let ?e = "clamp01 (vec_Get ?v FeatActionEntropy)"
  let ?r = "1 - clamp01 (vec_Get ?v FeatRepetitionScore)"
  have r: "0 \<le> ?b" "?b \<le> 1" "0 \<le> ?n" "?n \<le> 1" "0 \<le> ?e" "?e \<le> 1" "0 \<le> ?r" "?r \<le> 1"
    using saturate_range clamp01_range by (simp_all add: diff_le_eq)
  let ?sum = "40 / 100 * ?b + 25 / 100 * ?n + 20 / 100 * ?e + 15 / 100 * ?r"
  from weighted_range [OF r] have "0 \<le> ?sum" "?sum \<le> 1" by blast+
  then have "clamp01 ?sum = ?sum" by (rule clamp01_id)
  moreover have "Assess zone s DefaultWeights = \<lparr>as_Score = clamp01 ?sum,
      as_Contributions = [(''target_breadth'', 40 / 100 * ?b), (''transition_novelty'', 25 / 100 * ?n),
        (''action_entropy'', 20 / 100 * ?e), (''low_repetition'', 15 / 100 * ?r)],
      as_Calls = Len s, as_BelowMinimum = False\<rparr>"
    using False by (simp add: Assess_def Let_def DefaultWeights_def)
  ultimately show ?thesis
    using False r \<open>0 \<le> ?sum\<close> \<open>?sum \<le> 1\<close> by (simp add: Let_def)
qed

section \<open>What the score cannot see\<close>

lemma tally_replicate: "0 < n \<Longrightarrow> tally (replicate n x) = [(x, int n)]"
proof (induction n)
  case (Suc n)
  then show ?case
    by (cases "n = 0")
      (simp_all add: tally_def flip: replicate_append_same)
qed simp

lemma transitions_replicate:
  "transitions_of p (replicate n t) = (if p = [] then [] else if n = 0 then [] else [p @ [CHR 0x00] @ t]) @
    (if t = [] then [] else replicate (n - 1) (t @ [CHR 0x00] @ t))"
proof (induction n arbitrary: p)
  case (Suc n)
  then show ?case by (cases n) auto
qed simp

text \<open>
  A crawl with one tool over distinct targets scores exactly 0.4 under the default weights,
  however many targets it touches: breadth contributes its whole weight and the sequence terms
  nothing. The same holds for a repository scan, so the score alone does not separate them.\<close>

theorem one_tool_crawl_scores_400:
  assumes "observe_all (NewSession cfg) obs = Some s"
    and "8 \<le> Len s" "list_all (\<lambda>c. c_Tool c = tool) (retained s)" "tool \<noteq> []"
    and "distinct (map c_Target (retained s))" "[] \<notin> c_Target ` set (retained s)"
  shows "as_Score (Assess zone s DefaultWeights) = 2 / 5"
proof -
  let ?n = "length (retained s)"
  have n: "Len s = ?n" by (simp add: Len_def retained_length)
  have ne: "retained s \<noteq> []" using assms(2) n by auto
  have tools: "map c_Tool (retained s) = replicate ?n tool"
    using assms(3) by (intro nth_equalityI) (simp_all add: list_all_length)
  have t: "tally (map c_Tool (retained s)) = [(tool, int ?n)]"
    using assms(2) unfolding tools n by (intro tally_replicate) linarith
  have "transitions_of [] (map c_Tool (retained s)) = replicate (?n - 1) (tool @ [CHR 0x00] @ tool)"
    unfolding tools transitions_replicate using assms(4) by simp
  then have tr: "tally (transitions_of [] (map c_Tool (retained s))) = [(tool @ [CHR 0x00] @ tool, int (?n - 1))]"
    using assms(2) n tally_replicate [of "?n - 1"] by simp
  have "card (targets_of (retained s)) = ?n"
    using assms(5,6) distinct_card [of "map c_Target (retained s)"] by (simp add: targets_of_def)
  with Vector_features [OF run_from_new(1) [OF assms(1)], of zone] t tr
  have "vec_Get (Vector zone s) FeatTargetBreadth = real ?n"
    "vec_Get (Vector zone s) FeatTransitionNovelty = 0"
    "vec_Get (Vector zone s) FeatActionEntropy = 0"
    "vec_Get (Vector zone s) FeatRepetitionScore = 1"
    using assms(2) n
    by (auto simp: features_eq_def transitionNovelty_def shannonEntropy_def repetitionScore_def)
  then show ?thesis
    using assms(2) ne
    by (simp add: n Assess_def Let_def MinCallsForScore_def DefaultWeights_def saturate_def clamp01_def)
qed

definition crawl_obs :: "(instant \<times> call) list" where
  "crawl_obs = map (\<lambda>f. (0, example_call ''read'' f 10))
     [''a'', ''b'', ''c'', ''d'', ''e'', ''f'', ''g'', ''h'']"

definition crawl_session :: session where
  "crawl_session = (let cfg = example_config\<lparr>cfg_MaxCalls := 0\<rparr> in
     case observe_all (NewSession cfg) crawl_obs of Some s \<Rightarrow> s | None \<Rightarrow> NewSession cfg)"

lemma one_tool_crawl_scores_400_witness:
  "as_Score (Assess (\<lambda>_. 0) crawl_session DefaultWeights) = 2 / 5"
proof -
  let ?cfg = "example_config\<lparr>cfg_MaxCalls := 0\<rparr>"
  obtain s where "observe_all (NewSession ?cfg) crawl_obs = Some s"
    using observe_all_returns by blast
  then have run: "observe_all (NewSession ?cfg) crawl_obs = Some crawl_session"
    by (simp add: crawl_session_def Let_def)
  have "map (\<lambda>c. (c_Tool c, c_Target c)) (retained crawl_session) =
      map (Pair ''read'') [''a'', ''b'', ''c'', ''d'', ''e'', ''f'', ''g'', ''h'']" by code_simp
  then have "map c_Tool (retained crawl_session) = replicate 8 ''read''"
      "map c_Target (retained crawl_session) = [''a'', ''b'', ''c'', ''d'', ''e'', ''f'', ''g'', ''h'']"
    by (auto dest: arg_cong [of _ _ "map fst"] arg_cong [of _ _ "map snd"] simp: comp_def numeral_eq_Suc)
  moreover have "Len crawl_session = length (map c_Tool (retained crawl_session))"
    by (simp add: Len_def retained_length)
  moreover have "\<forall>c \<in> set (retained crawl_session). c_Tool c \<in> set (map c_Tool (retained crawl_session))
      \<and> c_Target c \<in> set (map c_Target (retained crawl_session))" by simp
  ultimately have "8 \<le> Len crawl_session" "list_all (\<lambda>c. c_Tool c = ''read'') (retained crawl_session)"
    "distinct (map c_Target (retained crawl_session))" "[] \<notin> c_Target ` set (retained crawl_session)"
    by (auto simp: list_all_iff)
  then show ?thesis
    by (intro one_tool_crawl_scores_400 [OF run, where tool = "''read''"])
      simp_all
qed

end
