(* ===== verification/Reports.thy ===== *)
theory Reports
  imports Session "HOL-Library.AList" "HOL-Library.Multiset"
begin

text \<open>
  What a session reports of where it went: \<open>ResourceSummary\<close>, \<open>track\<close> and \<open>sortGroups\<close> of
  \<open>internal/detect/resource.go\<close>, and \<open>ScopeReport\<close> of \<open>scope.go\<close>. The map of groups is an
  association list in order of first contact; \<open>sortGroups\<close> makes the result independent of
  that order.
\<close>

section \<open>Definitions\<close>

record group =
  grp_Name :: bytes
  grp_Calls :: nat
  grp_Distinct :: nat
  grp_FirstCall :: nat

type_synonym tracker = "(bytes \<times> group) list \<times> (bytes \<Rightarrow> bytes set option)"

definition track :: "tracker \<Rightarrow> bytes \<Rightarrow> bytes \<Rightarrow> nat \<Rightarrow> tracker" where
  "track gs name key idx =
     (if name = [] then gs
      else
        let (groups, seen) = gs;
            (g, seen) = (case map_of groups name of
                Some g \<Rightarrow> (g, seen)
              | None \<Rightarrow> (\<lparr>grp_Name = name, grp_Calls = 0, grp_Distinct = 0, grp_FirstCall = idx\<rparr>,
                  seen(name \<mapsto> {})));
            g = g\<lparr>grp_Calls := grp_Calls g + 1\<rparr>;
            keys = (case seen name of Some ks \<Rightarrow> ks | None \<Rightarrow> {});
            (g, seen) = (if key \<in> keys then (g, seen)
              else (g\<lparr>grp_Distinct := grp_Distinct g + 1\<rparr>, seen(name \<mapsto> insert key keys)))
        in (AList.update name g groups, seen))"

definition sortGroups :: "(bytes \<times> group) list \<Rightarrow> group list" where
  "sortGroups m = sort_key (\<lambda>g. (- int (grp_Calls g), grp_Name g)) (map snd m)"

record resource_summary =
  rs_Calls :: nat
  rs_Distinct :: nat
  rs_Dirs :: "group list"
  rs_Roots :: "group list"

definition summary_key :: "resource \<Rightarrow> bytes" where
  "summary_key r = res_Scheme r @ ''://'' @ res_Host r @ res_Path r"

type_synonym summary_state = "nat \<times> bytes set \<times> tracker \<times> tracker"

definition summary_step :: "summary_state \<Rightarrow> nat \<times> call \<Rightarrow> summary_state" where
  "summary_step st ic =
     (let (calls, seen, dirs, roots) = st; (i, c) = ic; r = c_res c in
      if Empty r then st
      else
        let key = summary_key r
        in (calls + 1, insert key seen, track dirs (res_Dir r) key i, track roots (res_Root r) key i))"

definition no_groups :: tracker where
  "no_groups = ([], \<lambda>_. None)"

definition Session_ResourceSummary :: "session \<Rightarrow> resource_summary" where
  "Session_ResourceSummary s =
     (let (calls, seen, dirs, roots) =
        foldl summary_step (0, {}, no_groups, no_groups) (enumerate 0 (walked s))
      in \<lparr>rs_Calls = calls, rs_Distinct = card seen, rs_Dirs = sortGroups (fst dirs),
          rs_Roots = sortGroups (fst roots)\<rparr>)"

record scope_report =
  sr_Declared :: bool
  sr_Calls :: nat
  sr_InScope :: nat
  sr_OutOfScope :: nat
  sr_Distinct :: nat
  sr_Escaped :: nat
  sr_Outside :: "group list"
  sr_FirstOutOfScope :: int

type_synonym scope_state = "scope_report \<times> bytes set \<times> tracker"

definition scope_step :: "scope \<Rightarrow> scope_state \<Rightarrow> nat \<times> call \<Rightarrow> scope_state" where
  "scope_step sc st ic =
     (let (out, seen, roots) = st; (i, c) = ic; r = c_res c in
      if Empty r \<or> c_Unscoped c then st
      else
        let out = out\<lparr>sr_Calls := sr_Calls out + 1\<rparr> in
        if Contains sc r then (out\<lparr>sr_InScope := sr_InScope out + 1\<rparr>, seen, roots)
        else
          let out = out\<lparr>sr_OutOfScope := sr_OutOfScope out + 1\<rparr>;
              out = (if Escaped sc r then out\<lparr>sr_Escaped := sr_Escaped out + 1\<rparr> else out);
              out = (if sr_FirstOutOfScope out < 0 then out\<lparr>sr_FirstOutOfScope := int i\<rparr> else out);
              key = scopeKey r;
              out = (if key \<in> seen then out else out\<lparr>sr_Distinct := sr_Distinct out + 1\<rparr>)
          in (out, insert key seen, track roots (res_Root r) key i))"

definition empty_report :: scope_report where
  "empty_report = \<lparr>sr_Declared = True, sr_Calls = 0, sr_InScope = 0, sr_OutOfScope = 0,
     sr_Distinct = 0, sr_Escaped = 0, sr_Outside = [], sr_FirstOutOfScope = - 1\<rparr>"

definition Session_ScopeReport :: "session \<Rightarrow> scope \<Rightarrow> scope_report" where
  "Session_ScopeReport s sc =
     (if \<not> Declared sc then empty_report\<lparr>sr_Declared := False\<rparr>
      else
        let (out, seen, roots) =
          foldl (scope_step sc) (empty_report, {}, no_groups) (enumerate 0 (walked s))
        in out\<lparr>sr_Outside := sortGroups (fst roots)\<rparr>)"

section \<open>What the groups hold\<close>

text \<open>A visit is a group name, a resource key and an index; the group of a name counts its
  visits, its distinct keys and remembers its first index.\<close>

type_synonym visit = "bytes \<times> bytes \<times> nat"

definition visits_to :: "bytes \<Rightarrow> visit list \<Rightarrow> visit list" where
  "visits_to name vs = filter (\<lambda>(n, _, _). n = name) vs"

definition keys_to :: "bytes \<Rightarrow> visit list \<Rightarrow> bytes set" where
  "keys_to name vs = (\<lambda>(_, k, _). k) ` set (visits_to name vs)"

definition group_of :: "bytes \<Rightarrow> visit list \<Rightarrow> group option" where
  "group_of name vs =
     (if name = [] \<or> visits_to name vs = [] then None
      else Some \<lparr>grp_Name = name, grp_Calls = length (visits_to name vs),
        grp_Distinct = card (keys_to name vs),
        grp_FirstCall = (case hd (visits_to name vs) of (_, _, i) \<Rightarrow> i)\<rparr>)"

definition track_all :: "visit list \<Rightarrow> tracker" where
  "track_all vs = foldl (\<lambda>t (n, k, i). track t n k i) no_groups vs"

lemma visits_to_snoc: "visits_to name (vs @ [v]) = visits_to name vs @ (if fst v = name then [v] else [])"
  by (cases v) (simp add: visits_to_def)

lemma keys_to_snoc: "keys_to name (vs @ [(n, k, i)]) =
    (if n = name then insert k (keys_to name vs) else keys_to name vs)"
  by (auto simp: keys_to_def visits_to_snoc)

lemma keys_to_finite [simp]: "finite (keys_to name vs)"
  by (simp add: keys_to_def)

lemma keys_to_Nil: "visits_to name vs = [] \<Longrightarrow> keys_to name vs = {}"
  by (simp add: keys_to_def)

lemma track_all_snoc: "track_all (vs @ [(n, k, i)]) = track (track_all vs) n k i"
  by (simp add: track_all_def)

lemma track_all_facts:
  "map_of (fst (track_all vs)) name = group_of name vs \<and>
   distinct (map fst (fst (track_all vs))) \<and>
   (name \<noteq> [] \<longrightarrow> snd (track_all vs) name =
     (if visits_to name vs = [] then None else Some (keys_to name vs)))"
proof (induction vs arbitrary: name rule: rev_induct)
  case Nil
  then show ?case by (simp add: track_all_def no_groups_def group_of_def visits_to_def)
next
  case (snoc v vs)
  obtain n k i where v: "v = (n, k, i)" by (cases v)
  obtain gs seen where t: "track_all vs = (gs, seen)" by (cases "track_all vs")
  show ?case
  proof (cases "n = []")
    case True
    have "track_all (vs @ [v]) = (gs, seen)" by (simp add: v track_all_snoc t track_def True)
    then show ?thesis
      using snoc [of name] True by (simp add: t v visits_to_snoc keys_to_snoc group_of_def)
  next
    case False
    have IH: "map_of gs m = group_of m vs" "distinct (map fst gs)"
      "m \<noteq> [] \<Longrightarrow> seen m =
        (if visits_to m vs = [] then None else Some (keys_to m vs))" for m
      using snoc [of m] by (simp_all add: t)
    show ?thesis
    proof (cases "visits_to n vs = []")
      case True
      with False IH(1) [of n] show ?thesis
        using IH(1) [of name] IH(2) IH(3) [of name]
        by (auto simp: v track_all_snoc t track_def Let_def visits_to_snoc group_of_def
            update_conv' distinct_update keys_to_snoc keys_to_Nil
            simp del: map_of_eq_Some_iff Some_eq_map_of_iff)
    next
      case vs: False
      then have h: "hd (visits_to n vs @ [v]) = hd (visits_to n vs)" by simp
      show ?thesis
        using False IH(1) [of n] IH(3) [of n] IH(1) [of name] IH(2) IH(3) [of name] vs h
        by (auto simp: v track_all_snoc t track_def Let_def visits_to_snoc group_of_def
            update_conv' distinct_update keys_to_snoc card_insert_if insert_absorb
            simp del: map_of_eq_Some_iff Some_eq_map_of_iff)
    qed
  qed
qed

section \<open>Sorted groups\<close>

definition group_before :: "group \<Rightarrow> group \<Rightarrow> bool" where
  "group_before a b \<longleftrightarrow>
     grp_Calls b < grp_Calls a \<or> (grp_Calls a = grp_Calls b \<and> grp_Name a < grp_Name b)"

text \<open>A list of groups is the report of some visits: strictly ordered by calls descending and
  name ascending, and made of exactly the groups of the visited names. There is only one such
  list, so the report does not depend on map iteration order.\<close>

definition reports_groups :: "group list \<Rightarrow> visit list \<Rightarrow> bool" where
  "reports_groups gs vs \<longleftrightarrow>
     sorted_wrt group_before gs \<and> set gs = {g. \<exists>name. group_of name vs = Some g}"

lemma group_of_name: "group_of n vs = Some g \<Longrightarrow> grp_Name g = n"
  by (auto simp: group_of_def split: if_splits)

lemma sorted_key_strict:
  assumes "sorted (map f xs)" "distinct (map f xs)"
  shows "sorted_wrt (\<lambda>a b. f a < (f b :: 'b::linorder)) xs"
proof -
  have "sorted_wrt (<) (map f xs)" using assms by (simp only: strict_sorted_iff simp_thms)
  then show ?thesis by (simp only: sorted_wrt_map)
qed

lemma sortGroups_reports: "reports_groups (sortGroups (fst (track_all vs))) vs"
proof -
  let ?gs = "fst (track_all vs)"
  let ?key = "\<lambda>g. (- int (grp_Calls g), grp_Name g)"
  have m: "(n, g) \<in> set ?gs \<longleftrightarrow> group_of n vs = Some g" for n g
    using track_all_facts [of vs n] map_of_eq_Some_iff [of ?gs n g] by auto
  have "grp_Name (snd p) = fst p" if "p \<in> set ?gs" for p
    using that m [of "fst p" "snd p"] group_of_name by simp
  then have "map grp_Name (map snd ?gs) = map fst ?gs" by simp
  moreover have "distinct (map fst ?gs)" using track_all_facts [of vs "[]"] by simp
  ultimately have "distinct (map grp_Name (map snd ?gs))" by (simp only:)
  moreover have "map grp_Name (map snd ?gs) = map snd (map ?key (map snd ?gs))" by simp
  ultimately have "distinct (map ?key (map snd ?gs))" by (simp only: distinct_map)
  moreover have "mset (map ?key (sortGroups ?gs)) = mset (map ?key (map snd ?gs))"
    by (simp only: sortGroups_def mset_map mset_sort)
  ultimately have "distinct (map ?key (sortGroups ?gs))"
    using mset_eq_imp_distinct_iff by blast
  moreover have "sorted (map ?key (sortGroups ?gs))" by (simp add: sortGroups_def)
  ultimately have "sorted_wrt (\<lambda>a b. ?key a < ?key b) (sortGroups ?gs)"
    by (intro sorted_key_strict)
  then have "sorted_wrt group_before (sortGroups ?gs)"
    by (rule sorted_wrt_mono_rel [rotated]) (auto simp: group_before_def)
  moreover have "set (sortGroups ?gs) = {g. \<exists>name. group_of name vs = Some g}"
    using m by (force simp: sortGroups_def)
  ultimately show ?thesis by (simp add: reports_groups_def)
qed

text \<open>The order of a report is determined by what was visited: two reports of the same visits
  are the same list.\<close>

lemma reports_groups_unique:
  assumes "reports_groups gs vs" "reports_groups gs' vs"
  shows "gs = gs'"
proof -
  let ?key = "\<lambda>g. (- int (grp_Calls g), grp_Name g)"
  have key: "sorted (map ?key xs) \<and> distinct (map ?key xs)" if "reports_groups xs vs" for xs
  proof -
    have "sorted_wrt (\<lambda>a b. ?key a < ?key b) xs"
      using that unfolding reports_groups_def
      by (auto elim!: sorted_wrt_mono_rel [rotated] simp: group_before_def)
    then have "sorted_wrt (<) (map ?key xs)" by (simp only: sorted_wrt_map)
    then show ?thesis by (simp only: strict_sorted_iff)
  qed
  have "group_of (grp_Name g) vs = Some g" if "g \<in> set gs \<union> set gs'" for g
    using that assms group_of_name unfolding reports_groups_def by fastforce
  then have "inj_on ?key (set gs \<union> set gs')"
    by (intro inj_onI) (metis option.inject prod.inject)
  then show ?thesis
    using assms key by (intro map_sorted_distinct_set_unique [of ?key]) (auto simp: reports_groups_def)
qed

section \<open>The resource summary\<close>

definition located :: "(nat \<times> call) list \<Rightarrow> (nat \<times> call) list" where
  "located ics = filter (\<lambda>(i, c). \<not> Empty (c_res c)) ics"

definition visits_by :: "(resource \<Rightarrow> bytes) \<Rightarrow> (resource \<Rightarrow> bytes) \<Rightarrow> (nat \<times> call) list \<Rightarrow> visit list" where
  "visits_by name key ics = map (\<lambda>(i, c). (name (c_res c), key (c_res c), i)) ics"

lemma summary_loop:
  "foldl summary_step (0, {}, no_groups, no_groups) ics =
    (length (located ics), (\<lambda>(i, c). summary_key (c_res c)) ` set (located ics),
     track_all (visits_by res_Dir summary_key (located ics)),
     track_all (visits_by res_Root summary_key (located ics)))"
proof (induction ics rule: rev_induct)
  case Nil
  then show ?case by (simp add: located_def visits_by_def track_all_def)
next
  case (snoc ic ics)
  obtain i c where "ic = (i, c)" by (cases ic)
  with snoc show ?case
    by (simp add: summary_step_def located_def visits_by_def Let_def track_all_snoc)
qed

text \<open>The place a resource names: its scheme, host, drive and path. The key of the summary leaves
  the drive out, so it never tells more apart than the places do, and on anchored targets without
  a drive it tells apart exactly the places.\<close>

definition place_of :: "resource \<Rightarrow> bytes \<times> bytes \<times> bytes \<times> bytes" where
  "place_of r = (res_Scheme r, res_Host r, volumeOf r, res_Path r)"

lemma summary_key_place: "summary_key r = (\<lambda>(sch, host, vol, path). sch @ ''://'' @ host @ path) (place_of r)"
  by (simp add: summary_key_def place_of_def)

lemma summary_key_inj:
  assumes "resource_ok a" "resource_ok b" "anchored a" "anchored b" "volumeOf a = []" "volumeOf b = []"
  shows "summary_key a = summary_key b \<longleftrightarrow> place_of a = place_of b"
proof -
  have "summary_key a = scopeKey a" "summary_key b = scopeKey b"
    using assms(5,6) by (simp_all add: summary_key_def scopeKey_def)
  with key_eq_iff [OF assms(2,1,4,3)] assms(5,6) show ?thesis
    by (auto simp: place_of_def authority_def)
qed

definition named_places :: "(nat \<times> call) list \<Rightarrow> (bytes \<times> bytes \<times> bytes \<times> bytes) set" where
  "named_places ics = (\<lambda>(i, c). place_of (c_res c)) ` set ics"

definition summary_keys :: "(nat \<times> call) list \<Rightarrow> bytes set" where
  "summary_keys ics = (\<lambda>(i, c). summary_key (c_res c)) ` set ics"

lemma summary_keys_at_most: "card (summary_keys ics) \<le> card (named_places ics)"
proof -
  have "summary_keys ics = (\<lambda>(sch, host, vol, path). sch @ ''://'' @ host @ path) ` named_places ics"
    by (auto simp: summary_keys_def named_places_def summary_key_place image_image case_prod_unfold)
  then show ?thesis by (simp add: card_image_le named_places_def)
qed

lemma summary_keys_exact:
  assumes "\<forall>(i, c) \<in> set ics. resource_ok (c_res c) \<and> anchored (c_res c) \<and> volumeOf (c_res c) = []"
  shows "card (summary_keys ics) = card (named_places ics)"
proof -
  let ?key = "\<lambda>(sch, host, vol, path). sch @ ''://'' @ host @ (path :: bytes)"
  have "inj_on ?key (named_places ics)"
  proof (rule inj_onI)
    fix p q
    assume pq: "p \<in> named_places ics" "q \<in> named_places ics" and eq: "?key p = ?key q"
    obtain i c j d where c: "(i, c) \<in> set ics" "p = place_of (c_res c)"
      and d: "(j, d) \<in> set ics" "q = place_of (c_res d)"
      using pq by (auto simp: named_places_def)
    have "summary_key (c_res c) = summary_key (c_res d)"
      using eq unfolding summary_key_place c(2) d(2) .
    moreover have "resource_ok (c_res c) \<and> anchored (c_res c) \<and> volumeOf (c_res c) = []"
      "resource_ok (c_res d) \<and> anchored (c_res d) \<and> volumeOf (c_res d) = []"
      using assms c(1) d(1) by auto
    ultimately show "p = q" using summary_key_inj [of "c_res c" "c_res d"] c(2) d(2) by simp
  qed
  moreover have "summary_keys ics = ?key ` named_places ics"
    by (auto simp: summary_keys_def named_places_def summary_key_place image_image case_prod_unfold)
  ultimately show ?thesis by (simp add: card_image)
qed

text \<open>The drive is lost on the way: two files on two drives are one entry of the summary, although
  the same two are kept apart by a working set.\<close>

lemma drives_share_a_key:
  "let c = ParseResource (''C:'' @ CHR 0x5C # ''a''); d = ParseResource (''D:'' @ CHR 0x5C # ''a'')
   in summary_key c = summary_key d \<and> place_of c \<noteq> place_of d \<and> scopeKey c \<noteq> scopeKey d"
  by code_simp


section \<open>The scope report\<close>

definition scoped :: "(nat \<times> call) list \<Rightarrow> (nat \<times> call) list" where
  "scoped ics = filter (\<lambda>(i, c). \<not> Empty (c_res c) \<and> \<not> c_Unscoped c) ics"

definition outside :: "scope \<Rightarrow> (nat \<times> call) list \<Rightarrow> (nat \<times> call) list" where
  "outside sc ics = filter (\<lambda>(i, c). \<not> Contains sc (c_res c)) (scoped ics)"

lemma scope_step_outside:
  assumes "\<not> (Empty (c_res c) \<or> c_Unscoped c \<or> Contains sc (c_res c))"
  shows "scope_step sc (out, seen, roots) (i, c) =
    (out\<lparr>sr_Calls := sr_Calls out + 1, sr_OutOfScope := sr_OutOfScope out + 1,
       sr_Escaped := sr_Escaped out + (if Escaped sc (c_res c) then 1 else 0),
       sr_FirstOutOfScope := (if sr_FirstOutOfScope out < 0 then int i else sr_FirstOutOfScope out),
       sr_Distinct := sr_Distinct out + (if scopeKey (c_res c) \<in> seen then 0 else 1)\<rparr>,
     insert (scopeKey (c_res c)) seen, track roots (res_Root (c_res c)) (scopeKey (c_res c)) i)"
  using assms by (simp add: scope_step_def Let_def)

lemma scope_step_other:
  "Empty (c_res c) \<or> c_Unscoped c \<Longrightarrow> scope_step sc (out, seen, roots) (i, c) = (out, seen, roots)"
  "\<not> (Empty (c_res c) \<or> c_Unscoped c) \<Longrightarrow> Contains sc (c_res c) \<Longrightarrow>
    scope_step sc (out, seen, roots) (i, c) =
      (out\<lparr>sr_Calls := sr_Calls out + 1, sr_InScope := sr_InScope out + 1\<rparr>, seen, roots)"
  by (simp_all add: scope_step_def Let_def)

lemma scope_loop:
  "foldl (scope_step sc) (empty_report, {}, no_groups) ics =
    (\<lparr>sr_Declared = True, sr_Calls = length (scoped ics),
      sr_InScope = length (filter (\<lambda>(i, c). Contains sc (c_res c)) (scoped ics)),
      sr_OutOfScope = length (outside sc ics),
      sr_Distinct = card ((\<lambda>(i, c). scopeKey (c_res c)) ` set (outside sc ics)),
      sr_Escaped = length (filter (\<lambda>(i, c). Escaped sc (c_res c)) (outside sc ics)),
      sr_Outside = [],
      sr_FirstOutOfScope = (case outside sc ics of [] \<Rightarrow> - 1 | (i, _) # _ \<Rightarrow> int i)\<rparr>,
     (\<lambda>(i, c). scopeKey (c_res c)) ` set (outside sc ics),
     track_all (visits_by res_Root scopeKey (outside sc ics)))"
proof (induction ics rule: rev_induct)
  case Nil
  then show ?case by (simp add: scoped_def outside_def visits_by_def track_all_def empty_report_def)
next
  case (snoc ic ics)
  obtain i c where ic: "ic = (i, c)" by (cases ic)
  consider (skip) "Empty (c_res c) \<or> c_Unscoped c"
    | (inner) "\<not> (Empty (c_res c) \<or> c_Unscoped c)" "Contains sc (c_res c)"
    | (outer) "\<not> (Empty (c_res c) \<or> c_Unscoped c \<or> Contains sc (c_res c))" by blast
  then show ?case
  proof cases
    case skip
    then have "outside sc (ics @ [ic]) = outside sc ics" "scoped (ics @ [ic]) = scoped ics"
      using ic by (auto simp: outside_def scoped_def)
    then show ?thesis
      unfolding foldl_append foldl.simps snoc unfolding ic scope_step_other(1) [OF skip] by simp
  next
    case inner
    then have "outside sc (ics @ [ic]) = outside sc ics" "scoped (ics @ [ic]) = scoped ics @ [ic]"
      using ic by (auto simp: outside_def scoped_def)
    with inner(2) show ?thesis
      unfolding foldl_append foldl.simps snoc unfolding ic scope_step_other(2) [OF inner] by simp
  next
    case outer
    then have o: "outside sc (ics @ [ic]) = outside sc ics @ [ic]" "scoped (ics @ [ic]) = scoped ics @ [ic]"
      using ic by (auto simp: outside_def scoped_def)
    have v: "visits_by res_Root scopeKey (xs @ [ic]) =
        visits_by res_Root scopeKey xs @ [(res_Root (c_res c), scopeKey (c_res c), i)]" for xs
      by (simp add: visits_by_def ic)
    have n: "\<not> Contains sc (c_res c)" using outer by blast
    show ?thesis
      unfolding foldl_append foldl.simps snoc o v track_all_snoc unfolding ic
        scope_step_outside [OF outer]
      using n by (cases "outside sc ics") (auto simp: card_insert_if)
  qed
qed

text \<open>
  C26: Against a declared working set, the scope report counts the retained calls that name a
  place, splits them by containment, counts the distinct places outside and the traversals
  among them, gives the index of the first call that left and groups the outside calls by root;
  calls whose target is not a place are left out. With no working set declared it reports
  nothing.\<close>

theorem ScopeReport_correct:
  assumes "observe_all (NewSession cfg) obs = Some s"
  shows "let rep = Session_ScopeReport s sc; ics = enumerate 0 (retained s); out = outside sc ics in
    (sr_Declared rep \<longleftrightarrow> Declared sc) \<and>
    (if Declared sc then
      sr_Calls rep = length (scoped ics) \<and>
      sr_InScope rep + sr_OutOfScope rep = sr_Calls rep \<and>
      sr_OutOfScope rep = length out \<and>
      sr_Distinct rep = card ((\<lambda>(i, c). scopeKey (c_res c)) ` set out) \<and>
      sr_Escaped rep = length (filter (\<lambda>(i, c). Escaped sc (c_res c)) out) \<and>
      sr_FirstOutOfScope rep = (case out of [] \<Rightarrow> - 1 | (i, _) # _ \<Rightarrow> int i) \<and>
      reports_groups (sr_Outside rep) (visits_by res_Root scopeKey out)
     else rep = \<lparr>sr_Declared = False, sr_Calls = 0, sr_InScope = 0, sr_OutOfScope = 0,
       sr_Distinct = 0, sr_Escaped = 0, sr_Outside = [], sr_FirstOutOfScope = - 1\<rparr>)"
proof -
  have "length (filter P xs) + length (filter (\<lambda>x. \<not> P x) xs) = length xs" for P :: "nat \<times> call \<Rightarrow> bool" and xs
    by (rule sum_length_filter_compl)
  from this [of "\<lambda>(i, c). Contains sc (c_res c)" "scoped (enumerate 0 (retained s))"]
  have "length (filter (\<lambda>(i, c). Contains sc (c_res c)) (scoped (enumerate 0 (retained s)))) +
      length (outside sc (enumerate 0 (retained s))) = length (scoped (enumerate 0 (retained s)))"
    by (simp add: outside_def case_prod_unfold)
  then show ?thesis
    using run_from_new(1) [OF assms]
    by (simp add: Session_ScopeReport_def scope_loop walked_eq Let_def sortGroups_reports)
      (simp add: empty_report_def)
qed


lemma ScopeReport_correct_witness:
  "let sc = \<lparr>sc_entries = [ParseResource ''/b'']\<rparr>; rep = Session_ScopeReport example_session sc in
   sr_Calls rep = 3 \<and> sr_OutOfScope rep = 1 \<and> sr_FirstOutOfScope rep = 2"
proof -
  let ?sc = "\<lparr>sc_entries = [ParseResource ''/b'']\<rparr>"
  have "Declared ?sc" by (simp add: Declared_def)
  moreover have "length (scoped (enumerate 0 (retained example_session))) = 3 \<and>
      map fst (outside ?sc (enumerate 0 (retained example_session))) = [2]" by code_simp
  ultimately show ?thesis
    using ScopeReport_correct [OF example_run, of ?sc]
    by (auto simp: Let_def split: list.splits)
qed

end
