(* ===== verification/Gateway.thy ===== *)
theory Gateway
  imports Proxy Policy Inventory Scoring Reports
begin

text \<open>
  The gateway, \<open>internal/gateway/gateway.go\<close>: it decodes MCP messages, feeds the session
  detector, asks the policy, tells the observer, and gives the proxy its verdict. The state is
  threaded explicitly; a run-time panic is \<open>None\<close>. The clock is a sequence of readings of
  which each \<open>time.Now()\<close> takes the next. The observer is the list of events it was told; log
  lines are not modelled. The libraries behind the gateway (CEL, jsonschema, SHA-256, the
  printability tables, the local time zone, the texts of decoding errors) are parameters.
\<close>

section \<open>Definitions\<close>

definition methodToolsCall :: bytes where "methodToolsCall = ''tools/call''"
definition methodToolsList :: bytes where "methodToolsList = ''tools/list''"
definition methodResourcesRead :: bytes where "methodResourcesRead = ''resources/read''"
definition methodPromptsGet :: bytes where "methodPromptsGet = ''prompts/get''"

definition RuleAmbiguousRequest :: bytes where "RuleAmbiguousRequest = ''ambiguous-request''"
definition RuleMalformedRequest :: bytes where "RuleMalformedRequest = ''malformed-request''"

record decision_event =
  ev_ID :: bytes
  ev_Tool :: bytes
  ev_Method :: bytes
  ev_Targets :: "bytes list"
  ev_Effect :: effect
  ev_Rule :: bytes
  ev_Audited :: "bytes list"
  ev_Unenforced :: bool
  ev_Score :: real
  ev_ScoreUnavailable :: bool
  ev_SessionCalls :: nat
  ev_SessionTargets :: nat
  ev_CallsInWindow :: nat
  ev_TargetsInWindow :: nat
  ev_RateWindow :: int
  ev_ScopeDeclared :: bool
  ev_OutOfScope :: nat
  ev_SessionOutOfScope :: nat
  ev_ToolDefinitionChanged :: bool
  ev_SessionToolsChanged :: nat
  ev_SchemaKnown :: bool
  ev_ArgsValid :: bool
  ev_SchemaViolations :: "bytes list"

record completion_event =
  cp_ID :: bytes
  cp_Tool :: bytes
  cp_Errored :: bool
  cp_Latency :: int

datatype event = ToolCallDecided decision_event | ToolCallCompleted completion_event

text \<open>The zero value of \<open>DecisionEvent\<close>, whose fields a composite literal leaves out.\<close>

definition zero_decision :: decision_event where
  "zero_decision = \<lparr>ev_ID = [], ev_Tool = [], ev_Method = [], ev_Targets = [], ev_Effect = [], ev_Rule = [],
     ev_Audited = [], ev_Unenforced = False, ev_Score = 0, ev_ScoreUnavailable = False, ev_SessionCalls = 0,
     ev_SessionTargets = 0, ev_CallsInWindow = 0, ev_TargetsInWindow = 0, ev_RateWindow = 0,
     ev_ScopeDeclared = False, ev_OutOfScope = 0, ev_SessionOutOfScope = 0, ev_ToolDefinitionChanged = False,
     ev_SessionToolsChanged = 0, ev_SchemaKnown = False, ev_ArgsValid = False, ev_SchemaViolations = []\<rparr>"

record ('p, 'd, 'c, 's) gateway_env =
  ge_eval :: "'p \<Rightarrow> vars \<Rightarrow> bytes + cel_val"
  ge_lib :: "('d, 'c, 's) schema_lib"
  ge_sha :: "bytes \<Rightarrow> bytes"
  ge_pr :: "bytes \<Rightarrow> bool"
  ge_zone :: "instant \<Rightarrow> int"
  ge_unmarshalError :: "bytes \<Rightarrow> bytes"
  ge_marshalError :: bytes

record ('p, 'd, 'c, 's) gateway_options = "('p, 'd, 'c, 's) gateway_env" +
  go_Policy :: "'p policy option"
  go_Weights :: weights
  go_Scope :: scope
  go_Observer :: bool
  go_Monitor :: bool

record pending_call =
  pc_tool :: bytes
  pc_startAt :: instant

record 's gateway =
  gw_detector :: "session option"
  gw_inventory :: "'s registry"
  gw_pending :: "(bytes \<times> pending_call) list"
  gw_listings :: "bytes list"
  gw_denials :: "(bytes \<times> nat) list"
  gw_violations :: "(bytes \<times> nat) list"
  gw_events :: "event list"
  gw_clock :: "nat \<Rightarrow> instant"
  gw_ticks :: nat

definition zero_weights :: weights where
  "zero_weights = \<lparr>w_TargetBreadth = 0, w_TransitionNovelty = 0, w_ActionEntropy = 0, w_LowRepetition = 0\<rparr>"

definition New_options :: "('p, 'd, 'c, 's) gateway_options \<Rightarrow> ('p, 'd, 'c, 's) gateway_options" where
  "New_options opts = (if go_Weights opts = zero_weights then opts\<lparr>go_Weights := DefaultWeights\<rparr> else opts)"

definition New :: "session option \<Rightarrow> 's registry option \<Rightarrow> (nat \<Rightarrow> instant) \<Rightarrow> 's gateway" where
  "New detector inventory clock =
     \<lparr>gw_detector = detector, gw_inventory = (case inventory of None \<Rightarrow> NewRegistry | Some r \<Rightarrow> r),
      gw_pending = [], gw_listings = [], gw_denials = [], gw_violations = [], gw_events = [],
      gw_clock = clock, gw_ticks = 0\<rparr>"

definition Now :: "'s gateway \<Rightarrow> instant \<times> 's gateway" where
  "Now g = (gw_clock g (gw_ticks g), g\<lparr>gw_ticks := gw_ticks g + 1\<rparr>)"

definition tell :: "('p, 'd, 'c, 's) gateway_options \<Rightarrow> event \<Rightarrow> 's gateway \<Rightarrow> 's gateway" where
  "tell opts e g = (if go_Observer opts then g\<lparr>gw_events := gw_events g @ [e]\<rparr> else g)"

subsection \<open>Decoding parameters\<close>

text \<open>\<open>json.Unmarshal\<close> into \<open>toolCallParams\<close>: members in order, the name a string, the arguments
  merged into one map. An object among them is decoded to a Go map at every depth.\<close>

definition decode_arguments :: "args \<Rightarrow> json \<Rightarrow> args option" where
  "decode_arguments args v =
     (case v of
       JNull \<Rightarrow> Some None
     | JObj ms \<Rightarrow>
         if numbers_ok v
         then Some (Some (foldl (\<lambda>m (k, v). AList.update k (to_any v) m) (case args of None \<Rightarrow> [] | Some m \<Rightarrow> m) ms))
         else None
     | _ \<Rightarrow> None)"

fun decode_call_members :: "bytes \<times> args \<Rightarrow> (bytes \<times> json) list \<Rightarrow> (bytes \<times> args) option" where
  "decode_call_members p [] = Some p"
| "decode_call_members (name, args) ((k, v) # ms) =
     (if field_matches ''name'' k then Option.bind (string_field name v) (\<lambda>n. decode_call_members (n, args) ms)
      else if field_matches ''arguments'' k then Option.bind (decode_arguments args v) (\<lambda>a. decode_call_members (name, a) ms)
      else decode_call_members (name, args) ms)"

definition toolCallParams :: "bytes \<Rightarrow> (bytes \<times> args) option" where
  "toolCallParams raw =
     (case parse_json raw of
       Some JNull \<Rightarrow> Some ([], None)
     | Some (JObj ms) \<Rightarrow> decode_call_members ([], None) ms
     | _ \<Rightarrow> None)"

text \<open>\<open>json.Unmarshal\<close> into a \<open>map[string]any\<close>.\<close>

definition decode_map :: "bytes \<Rightarrow> args option" where
  "decode_map raw =
     (case parse_json raw of
       Some JNull \<Rightarrow> Some None
     | Some (JObj ms) \<Rightarrow> decode_arguments None (JObj ms)
     | _ \<Rightarrow> None)"

text \<open>\<open>json.Unmarshal\<close> into \<open>toolListResult\<close>: the tools stay raw.\<close>

definition toolListResult :: "bytes \<Rightarrow> bytes list option" where
  "toolListResult raw =
     (case parse_json raw of
       Some JNull \<Rightarrow> Some []
     | Some (JObj _) \<Rightarrow>
         Option.bind (object_members raw)
           (foldl (\<lambda>acc (k, r, v). Option.bind acc (\<lambda>tools.
              if field_matches ''tools'' k
              then (case v of JNull \<Rightarrow> Some [] | JArr _ \<Rightarrow> map_option (map fst) (array_elems r) | _ \<Rightarrow> None)
              else Some tools)) (Some []))
     | _ \<Rightarrow> None)"

definition firstOf :: "bytes list \<Rightarrow> bytes" where
  "firstOf s = (if length s = 0 then [] else hd s)"

definition firstTarget :: "bytes \<Rightarrow> bytes" where
  "firstTarget params =
     (if length params = 0 then []
      else case decode_map params of None \<Rightarrow> [] | Some decoded \<Rightarrow> firstOf (ExtractTargets decoded))"

definition contains :: "bytes list \<Rightarrow> bytes \<Rightarrow> bool" where
  "contains s v \<longleftrightarrow> list_ex (\<lambda>x. x = v) s"
subsection \<open>The detector and the policy behind the gateway\<close>

definition observe :: "call \<Rightarrow> 's gateway \<Rightarrow> 's gateway option" where
  "observe c g =
     (case gw_detector g of
       None \<Rightarrow> Some g
     | Some s \<Rightarrow> map_option (\<lambda>s. g\<lparr>gw_detector := Some s\<rparr>) (Session_Observe (gw_clock g (gw_ticks g)) s c))"

definition gw_assess :: "('p, 'd, 'c, 's) gateway_options \<Rightarrow> 's gateway \<Rightarrow> assessment" where
  "gw_assess opts g =
     (case gw_detector g of
       None \<Rightarrow> \<lparr>as_Score = 0, as_Contributions = [], as_Calls = 0, as_BelowMinimum = False\<rparr>
     | Some s \<Rightarrow> Assess (ge_zone opts) s (go_Weights opts))"

definition gw_scopeReport :: "('p, 'd, 'c, 's) gateway_options \<Rightarrow> 's gateway \<Rightarrow> scope_report" where
  "gw_scopeReport opts g =
     (case gw_detector g of
       None \<Rightarrow> empty_report\<lparr>sr_Declared := False\<rparr>
     | Some s \<Rightarrow> if \<not> Declared (go_Scope opts) then empty_report\<lparr>sr_Declared := False\<rparr>
         else Session_ScopeReport s (go_Scope opts))"

definition gw_outOfScope :: "('p, 'd, 'c, 's) gateway_options \<Rightarrow> bytes list \<Rightarrow> bytes list" where
  "gw_outOfScope opts targets =
     (if \<not> Declared (go_Scope opts) then []
      else filter (\<lambda>t. let r = ParseResource t in \<not> Empty r \<and> \<not> Contains (go_Scope opts) r) targets)"

definition gw_rateWindow :: "('p, 'd, 'c, 's) gateway_options \<Rightarrow> int" where
  "gw_rateWindow opts = (let d = RateWindowDuration (go_Policy opts) in if d > 0 then d else DefaultRateWindow)"

definition gw_countsInWindow :: "int \<Rightarrow> instant \<Rightarrow> 's gateway \<Rightarrow> window_counts" where
  "gw_countsInWindow d now g =
     (case gw_detector g of
       None \<Rightarrow> \<lparr>wc_Calls = 0, wc_Targets = 0, wc_Truncated = False\<rparr>
     | Some s \<Rightarrow> CountsInWindow s d now)"

definition gw_distinctTargets :: "'s gateway \<Rightarrow> nat" where
  "gw_distinctTargets g = (case gw_detector g of None \<Rightarrow> 0 | Some s \<Rightarrow> DistinctTargets s)"

definition gw_evaluate :: "('p, 'd, 'c, 's) gateway_options \<Rightarrow> request \<Rightarrow> decision" where
  "gw_evaluate opts req =
     (case go_Policy opts of
       None \<Rightarrow> \<lparr>dc_Effect = EffectAllow, dc_Rule = [], dc_Message = [], dc_Audited = [], dc_AlwaysEnforce = False\<rparr>
     | Some p \<Rightarrow> Evaluate (ge_eval opts) p req)"

subsection \<open>Counters and correlation\<close>

definition count_up :: "bytes \<Rightarrow> (bytes \<times> nat) list \<Rightarrow> (bytes \<times> nat) list" where
  "count_up rule m =
     (let rule = (if rule = [] then ''default_effect'' else rule)
      in AList.update rule ((case map_of m rule of None \<Rightarrow> 0 | Some n \<Rightarrow> n) + 1) m)"

definition recordDenial :: "bytes \<Rightarrow> 's gateway \<Rightarrow> 's gateway" where
  "recordDenial rule g = g\<lparr>gw_denials := count_up rule (gw_denials g)\<rparr>"

definition recordViolation :: "bytes \<Rightarrow> 's gateway \<Rightarrow> 's gateway" where
  "recordViolation rule g = g\<lparr>gw_violations := count_up rule (gw_violations g)\<rparr>"

definition trackListing :: "message \<Rightarrow> 's gateway \<Rightarrow> 's gateway" where
  "trackListing msg g =
     (let key = IDKey msg in if key = [] then g else g\<lparr>gw_listings := List.insert key (gw_listings g)\<rparr>)"

definition trackPending :: "message \<Rightarrow> bytes \<Rightarrow> 's gateway \<Rightarrow> 's gateway" where
  "trackPending msg tool g =
     (let key = IDKey msg in
      if key = [] then g
      else let (t, g) = Now g
        in g\<lparr>gw_pending := AList.update key \<lparr>pc_tool = tool, pc_startAt = t\<rparr> (gw_pending g)\<rparr>)"

definition inspectToolListing :: "('p, 'd, 'c, 's) gateway_options \<Rightarrow> message \<Rightarrow> 's gateway \<Rightarrow> 's gateway" where
  "inspectToolListing opts msg g =
     (let key = IDKey msg in
      if key = [] \<or> length (m_Result msg) = 0 then g
      else
        let isListing = (key \<in> set (gw_listings g));
            g = g\<lparr>gw_listings := removeAll key (gw_listings g)\<rparr>
        in if \<not> isListing then g
          else case toolListResult (m_Result msg) of
            None \<Rightarrow> g
          | Some tools \<Rightarrow>
              g\<lparr>gw_inventory := fst (Registry_Observe (ge_sha opts) (ge_pr opts) (ge_lib opts) (gw_inventory g) tools)\<rparr>)"

definition completeResponse :: "('p, 'd, 'c, 's) gateway_options \<Rightarrow> message \<Rightarrow> 's gateway \<Rightarrow> 's gateway option" where
  "completeResponse opts msg g =
     (let key = IDKey msg in
      if key = [] then Some g
      else case map_of (gw_pending g) key of
        None \<Rightarrow> Some (g\<lparr>gw_pending := AList.delete key (gw_pending g)\<rparr>)
      | Some pc \<Rightarrow>
          let g = g\<lparr>gw_pending := AList.delete key (gw_pending g)\<rparr>;
              errored = (m_Error msg \<noteq> [])
          in map_option (\<lambda>g.
              if go_Observer opts then
                let (t, g) = Now g
                in tell opts (ToolCallCompleted \<lparr>cp_ID = key, cp_Tool = pc_tool pc, cp_Errored = errored,
                     cp_Latency = Sub t (pc_startAt pc)\<rparr>) g
              else g)
            (if errored
             then let (t, g) = Now g
               in observe (zero_call\<lparr>c_Tool := pc_tool pc, c_IsToolCall := True, c_Errored := True, c_At := t\<rparr>) g
             else Some g))"

subsection \<open>Refusals\<close>

text \<open>\<open>round3\<close> yields a number of thousandths, which \<open>encoding/json\<close> prints in its shortest form.\<close>

definition round3 :: "real \<Rightarrow> int" where
  "round3 f = (let x = f * 1000 + 1 / 2 in if x < 0 then \<lceil>x\<rceil> else \<lfloor>x\<rfloor>)"

definition thousandths :: "int \<Rightarrow> bytes" where
  "thousandths k =
     (let n = nat \<bar>k\<bar>; f = n mod 1000;
          digits = [digit_char (f div 100), digit_char (f div 10 mod 10), digit_char (f mod 10)];
          digits = rev (dropWhile (\<lambda>c. c = CHR ''0'') (rev digits))
      in (if k < 0 then ''-'' else []) @ nat_digits (n div 1000) @ (if digits = [] then [] else CHR ''.'' # digits))"

definition roundAll :: "(bytes \<times> real) list \<Rightarrow> (bytes \<times> json) list" where
  "roundAll m = map (\<lambda>(k, v). (k, JNum (thousandths (round3 v)))) m"

definition denialFor :: "('p, 'd, 'c, 's) gateway_options \<Rightarrow> message \<Rightarrow> decision \<Rightarrow> assessment \<Rightarrow> bytes list \<Rightarrow> bytes option" where
  "denialFor opts msg d a outOfScope =
     (let text = (if dc_Message d \<noteq> [] then ''blocked by chokepoint: '' @ dc_Message d else ''blocked by chokepoint policy'');
          dat = [(''rule'', JStr (dc_Rule d))] @
            (if \<not> as_BelowMinimum a
             then [(''decomposition_score'', JNum (thousandths (round3 (as_Score a)))),
                   (''contributions'', JMap (roundAll (as_Contributions a)))] else []) @
            (if length outOfScope > 0 then [(''out_of_scope'', JArr (map JStr outOfScope))] else [])
      in ErrorResponse (m_ID msg) CodePolicyDenied text (Some (JMap dat)))"

type_synonym 's outcome = "('s gateway \<times> (bytes + interception)) option"

definition forward :: interception where
  "forward = \<lparr>in_Decision = Forward, in_Message = None\<rparr>"

definition reject :: "('p, 'd, 'c, 's) gateway_options \<Rightarrow> bytes option \<Rightarrow> bytes + interception" where
  "reject opts reply =
     (case reply of
       None \<Rightarrow> Inl (ge_marshalError opts)
     | Some r \<Rightarrow> Inr \<lparr>in_Decision = Reject, in_Message = Some r\<rparr>)"

definition refuseUnreadable :: "('p, 'd, 'c, 's) gateway_options \<Rightarrow> message \<Rightarrow> bytes \<Rightarrow> bytes \<Rightarrow> 's gateway \<Rightarrow> 's outcome" where
  "refuseUnreadable opts msg rule detail g =
     (let unenforced = (go_Monitor opts \<and> \<not> HasAlwaysEnforce (go_Policy opts));
          g = tell opts (ToolCallDecided (zero_decision\<lparr>ev_ID := IDKey msg, ev_Tool := m_Method msg,
                ev_Method := m_Method msg, ev_Effect := EffectDeny, ev_Rule := rule, ev_Unenforced := unenforced,
                ev_ScoreUnavailable := True, ev_SessionCalls := as_Calls (gw_assess opts g)\<rparr>)) g
      in if unenforced then Some (recordViolation rule g, Inr forward)
         else
           let g = recordDenial rule g
           in if \<not> IsRequest msg then Some (g, Inr \<lparr>in_Decision = Drop, in_Message = None\<rparr>)
              else Some (g, reject opts (ErrorResponse (m_ID msg) CodePolicyDenied (''blocked by chokepoint: '' @ detail)
                     (Some (JMap [(''rule'', JStr rule)])))))"

definition RecordUnparseable :: "('p, 'd, 'c, 's) gateway_options \<Rightarrow> 's gateway \<Rightarrow> bool \<Rightarrow> parse_error \<Rightarrow> 's gateway" where
  "RecordUnparseable opts g refused e =
     (let g = tell opts (ToolCallDecided (zero_decision\<lparr>ev_Tool := ''(unparseable)'', ev_Effect := EffectDeny,
                ev_Rule := RuleMalformedRequest, ev_Unenforced := \<not> refused, ev_ScoreUnavailable := True,
                ev_SessionCalls := as_Calls (gw_assess opts g)\<rparr>)) g
      in if refused then recordDenial RuleMalformedRequest g else recordViolation RuleMalformedRequest g)"

subsection \<open>Inspecting requests\<close>

text \<open>What the policy is asked about a call, after the detector has observed it.\<close>

definition call_request :: "('p, 'd, 'c, 's) gateway_options \<Rightarrow> 's gateway \<Rightarrow> bytes \<Rightarrow> bytes \<Rightarrow> args \<Rightarrow> instant \<Rightarrow> request" where
  "call_request opts g name meth args now =
     (let assessment = gw_assess opts g; scope = gw_scopeReport opts g;
          rate = gw_countsInWindow (gw_rateWindow opts) now g;
          (schemaKnown, violations) = Registry_Validate (ge_lib opts) (gw_inventory g) name args
      in \<lparr>rq_Tool = name, rq_Method = meth, rq_Args = args, rq_Targets = ExtractTargets args,
          rq_SessionCalls = as_Calls assessment, rq_SessionTargets = gw_distinctTargets g,
          rq_CallsInWindow = wc_Calls rate, rq_TargetsInWindow = wc_Targets rate,
          rq_DecompositionScore = as_Score assessment, rq_ScopeDeclared = sr_Declared scope,
          rq_OutOfScope = gw_outOfScope opts (ExtractLocations args), rq_SessionOutOfScope = sr_Distinct scope,
          rq_ToolDefinitionChanged = Registry_Changed (gw_inventory g) name,
          rq_SessionToolsChanged = ChangedCount (gw_inventory g), rq_SchemaKnown = schemaKnown,
          rq_ArgsValid = (violations = []), rq_SchemaViolations = violations\<rparr>)"

definition call_event :: "('p, 'd, 'c, 's) gateway_options \<Rightarrow> message \<Rightarrow> request \<Rightarrow> assessment \<Rightarrow> decision \<Rightarrow> bool \<Rightarrow> decision_event" where
  "call_event opts msg req a d unenforced =
     \<lparr>ev_ID = IDKey msg, ev_Tool = rq_Tool req, ev_Method = m_Method msg, ev_Targets = rq_Targets req,
      ev_Effect = dc_Effect d, ev_Rule = dc_Rule d, ev_Audited = dc_Audited d, ev_Unenforced = unenforced,
      ev_Score = as_Score a, ev_ScoreUnavailable = as_BelowMinimum a, ev_SessionCalls = as_Calls a,
      ev_SessionTargets = rq_SessionTargets req, ev_CallsInWindow = rq_CallsInWindow req,
      ev_TargetsInWindow = rq_TargetsInWindow req, ev_RateWindow = gw_rateWindow opts,
      ev_ScopeDeclared = rq_ScopeDeclared req, ev_OutOfScope = length (rq_OutOfScope req),
      ev_SessionOutOfScope = rq_SessionOutOfScope req, ev_ToolDefinitionChanged = rq_ToolDefinitionChanged req,
      ev_SessionToolsChanged = rq_SessionToolsChanged req, ev_SchemaKnown = rq_SchemaKnown req,
      ev_ArgsValid = rq_ArgsValid req, ev_SchemaViolations = rq_SchemaViolations req\<rparr>"

definition observed_call :: "message \<Rightarrow> bytes \<Rightarrow> args \<Rightarrow> bool \<Rightarrow> instant \<Rightarrow> call" where
  "observed_call msg name args isToolCall now =
     (let targets = ExtractTargets args; locations = ExtractLocations args
      in zero_call\<lparr>c_Tool := name, c_Target := firstOf targets, c_PayloadBytes := int (length (m_Params msg)),
           c_IsToolCall := isToolCall, c_At := now, c_Unscoped := \<not> contains locations (firstOf targets)\<rparr>)"

definition conclude :: "('p, 'd, 'c, 's) gateway_options \<Rightarrow> message \<Rightarrow> request \<Rightarrow> assessment \<Rightarrow> decision \<Rightarrow> 's gateway \<Rightarrow> 's gateway \<times> (bytes + interception)" where
  "conclude opts msg req a d g =
     (let unenforced = (dc_Effect d = EffectDeny \<and> go_Monitor opts \<and> \<not> dc_AlwaysEnforce d);
          g = tell opts (ToolCallDecided (call_event opts msg req a d unenforced)) g
      in if unenforced then (trackPending msg (rq_Tool req) (recordViolation (dc_Rule d) g), Inr forward)
         else if dc_Effect d = EffectDeny
         then (recordDenial (dc_Rule d) g, reject opts (denialFor opts msg d a (rq_OutOfScope req)))
         else (trackPending msg (rq_Tool req) g, Inr forward))"

definition inspectCall :: "('p, 'd, 'c, 's) gateway_options \<Rightarrow> message \<Rightarrow> bytes \<Rightarrow> args \<Rightarrow> bool \<Rightarrow> 's gateway \<Rightarrow> 's outcome" where
  "inspectCall opts msg name args isToolCall g =
     (let (now, g) = Now g in
      map_option (\<lambda>g.
          let req = call_request opts g name (m_Method msg) args now
          in conclude opts msg req (gw_assess opts g) (gw_evaluate opts req) g)
        (observe (observed_call msg name args isToolCall now) g))"

definition inspect_method :: "('p, 'd, 'c, 's) gateway_options \<Rightarrow> message \<Rightarrow> 's gateway \<Rightarrow> 's outcome" where
  "inspect_method opts msg g =
     (if m_Method msg = methodToolsCall then
        (case (if length (m_Params msg) > 0 then toolCallParams (m_Params msg) else Some ([], None)) of
          None \<Rightarrow> refuseUnreadable opts msg RuleMalformedRequest (ge_unmarshalError opts (m_Params msg)) g
        | Some (name, args) \<Rightarrow> inspectCall opts msg name args True g)
      else if m_Method msg = methodResourcesRead then
        (case (if length (m_Params msg) > 0 then decode_map (m_Params msg) else Some None) of
          None \<Rightarrow> refuseUnreadable opts msg RuleMalformedRequest (ge_unmarshalError opts (m_Params msg)) g
        | Some params \<Rightarrow> inspectCall opts msg (m_Method msg) params False g)
      else if m_Method msg = methodPromptsGet then
        (let (now, g) = Now g in
         map_option (\<lambda>g. (g, Inr forward))
           (observe (zero_call\<lparr>c_Tool := m_Method msg, c_Target := firstTarget (m_Params msg),
              c_PayloadBytes := int (length (m_Params msg)), c_IsToolCall := False, c_At := now\<rparr>) g))
      else if m_Method msg = methodToolsList then Some (trackListing msg g, Inr forward)
      else Some (g, Inr forward))"

definition inspectRequest :: "('p, 'd, 'c, 's) gateway_options \<Rightarrow> message \<Rightarrow> 's gateway \<Rightarrow> 's outcome" where
  "inspectRequest opts msg g =
     (if go_Policy opts \<noteq> None \<and> Ambiguity (ge_pr opts) msg \<noteq> []
      then refuseUnreadable opts msg RuleAmbiguousRequest (Ambiguity (ge_pr opts) msg) g
      else inspect_method opts msg g)"

definition Intercept :: "('p, 'd, 'c, 's) gateway_options \<Rightarrow> 's gateway \<Rightarrow> direction \<Rightarrow> message \<Rightarrow> 's outcome" where
  "Intercept opts g dir msg =
     (if dir = ServerToClient
      then map_option (\<lambda>g. (g, Inr forward)) (completeResponse opts msg (inspectToolListing opts msg g))
      else inspectRequest opts msg g)"

definition ToolNameFromMethod :: "bytes \<Rightarrow> bytes" where
  "ToolNameFromMethod m = (case cut_last_byte CHR ''/'' m of None \<Rightarrow> m | Some (_, r) \<Rightarrow> r)"
section \<open>Frame facts\<close>

lemma Now_simps [gate_simps]:
  "gw_detector (snd (Now g)) = gw_detector g" "gw_inventory (snd (Now g)) = gw_inventory g"
  "gw_pending (snd (Now g)) = gw_pending g" "gw_listings (snd (Now g)) = gw_listings g"
  "gw_denials (snd (Now g)) = gw_denials g" "gw_violations (snd (Now g)) = gw_violations g"
  "gw_events (snd (Now g)) = gw_events g" "gw_clock (snd (Now g)) = gw_clock g"
  by (simp_all add: Now_def)

lemma tell_simps [gate_simps]:
  "gw_detector (tell opts e g) = gw_detector g" "gw_inventory (tell opts e g) = gw_inventory g"
  "gw_pending (tell opts e g) = gw_pending g" "gw_listings (tell opts e g) = gw_listings g"
  "gw_denials (tell opts e g) = gw_denials g" "gw_violations (tell opts e g) = gw_violations g"
  "gw_events (tell opts e g) = gw_events g @ (if go_Observer opts then [e] else [])"
  "gw_clock (tell opts e g) = gw_clock g" "gw_ticks (tell opts e g) = gw_ticks g"
  by (simp_all add: tell_def)

lemma record_simps [gate_simps]:
  "gw_detector (recordDenial r g) = gw_detector g" "gw_pending (recordDenial r g) = gw_pending g"
  "gw_events (recordDenial r g) = gw_events g" "gw_violations (recordDenial r g) = gw_violations g"
  "gw_denials (recordDenial r g) = count_up r (gw_denials g)" "gw_inventory (recordDenial r g) = gw_inventory g"
  "gw_detector (recordViolation r g) = gw_detector g" "gw_pending (recordViolation r g) = gw_pending g"
  "gw_events (recordViolation r g) = gw_events g" "gw_denials (recordViolation r g) = gw_denials g"
  "gw_violations (recordViolation r g) = count_up r (gw_violations g)" "gw_inventory (recordViolation r g) = gw_inventory g"
  "gw_clock (recordViolation r g) = gw_clock g" "gw_ticks (recordViolation r g) = gw_ticks g"
  by (simp_all add: recordDenial_def recordViolation_def)

lemma trackListing_simps [gate_simps]:
  "gw_detector (trackListing msg g) = gw_detector g" "gw_pending (trackListing msg g) = gw_pending g"
  "gw_events (trackListing msg g) = gw_events g" "gw_denials (trackListing msg g) = gw_denials g"
  "gw_violations (trackListing msg g) = gw_violations g" "gw_inventory (trackListing msg g) = gw_inventory g"
  by (simp_all add: trackListing_def Let_def)

lemma trackPending_simps [gate_simps]:
  "gw_detector (trackPending msg t g) = gw_detector g" "gw_events (trackPending msg t g) = gw_events g"
  "gw_denials (trackPending msg t g) = gw_denials g" "gw_violations (trackPending msg t g) = gw_violations g"
  "gw_inventory (trackPending msg t g) = gw_inventory g"
  "map_of (gw_pending (trackPending msg t g)) =
    (if IDKey msg = [] then map_of (gw_pending g)
     else (map_of (gw_pending g))(IDKey msg \<mapsto> \<lparr>pc_tool = t, pc_startAt = gw_clock g (gw_ticks g)\<rparr>))"
  by (simp_all add: trackPending_def Now_def Let_def update_conv')

lemma inspectToolListing_simps [gate_simps]:
  "gw_detector (inspectToolListing opts msg g) = gw_detector g" "gw_events (inspectToolListing opts msg g) = gw_events g"
  "gw_denials (inspectToolListing opts msg g) = gw_denials g" "gw_violations (inspectToolListing opts msg g) = gw_violations g"
  "gw_pending (inspectToolListing opts msg g) = gw_pending g"
  by (simp_all add: inspectToolListing_def Let_def split: option.splits)

lemma observe_frame:
  assumes "observe c g = Some g'"
  shows "gw_pending g' = gw_pending g" "gw_events g' = gw_events g" "gw_denials g' = gw_denials g"
    "gw_violations g' = gw_violations g" "gw_inventory g' = gw_inventory g" "gw_listings g' = gw_listings g"
    "gw_clock g' = gw_clock g" "gw_ticks g' = gw_ticks g"
  using assms by (auto simp: observe_def split: option.splits)

section \<open>The gateway never panics\<close>

definition gateway_ok :: "'s gateway \<Rightarrow> bool" where
  "gateway_ok g \<longleftrightarrow> (case gw_detector g of None \<Rightarrow> True | Some s \<Rightarrow> session_ok s)"

lemma gateway_ok_frame: "gw_detector g' = gw_detector g \<Longrightarrow> gateway_ok g' = gateway_ok g"
  by (simp add: gateway_ok_def)

lemma observe_total: "gateway_ok g \<Longrightarrow> \<exists>g'. observe c g = Some g' \<and> gateway_ok g'"
proof (cases "gw_detector g")
  case (Some s)
  assume "gateway_ok g"
  with Some have "session_ok s" by (simp add: gateway_ok_def)
  then obtain s' where "Session_Observe (gw_clock g (gw_ticks g)) s c = Some s'" "session_ok s'" by (rule Observe_step)
  with Some show ?thesis by (simp add: observe_def gateway_ok_def)
qed (simp add: observe_def)

lemma completeResponse_unknown:
  assumes "IDKey msg = [] \<or> map_of (gw_pending g) (IDKey msg) = None"
  shows "\<exists>g'. completeResponse opts msg g = Some g' \<and> gw_events g' = gw_events g \<and> gw_detector g' = gw_detector g \<and>
    map_of (gw_pending g') = map_of (gw_pending g) \<and> gw_denials g' = gw_denials g \<and> gw_violations g' = gw_violations g"
  using assms by (auto simp: completeResponse_def Let_def delete_conv' fun_eq_iff)

lemma completeResponse_known:
  assumes "IDKey msg \<noteq> []" "map_of (gw_pending g) (IDKey msg) = Some pc" "gateway_ok g"
  shows "\<exists>g' t. completeResponse opts msg g = Some g' \<and> gateway_ok g' \<and>
    gw_events g' = gw_events g @ (if go_Observer opts then [ToolCallCompleted \<lparr>cp_ID = IDKey msg, cp_Tool = pc_tool pc,
      cp_Errored = (m_Error msg \<noteq> []), cp_Latency = Sub t (pc_startAt pc)\<rparr>] else []) \<and>
    map_of (gw_pending g') = (map_of (gw_pending g))(IDKey msg := None) \<and>
    gw_denials g' = gw_denials g \<and> gw_violations g' = gw_violations g"
proof -
  let ?g = "g\<lparr>gw_pending := AList.delete (IDKey msg) (gw_pending g)\<rparr>"
  let ?c = "zero_call\<lparr>c_Tool := pc_tool pc, c_IsToolCall := True, c_Errored := True, c_At := fst (Now ?g)\<rparr>"
  have "gateway_ok (snd (Now ?g))" "gateway_ok ?g" using assms(3) by (simp_all add: gateway_ok_def gate_simps)
  with observe_total obtain g1 where g1: "(if m_Error msg \<noteq> [] then observe ?c (snd (Now ?g)) else Some ?g) = Some g1"
    "gateway_ok g1" by (metis (no_types))
  have frame: "gw_events g1 = gw_events g" "gw_pending g1 = gw_pending ?g" "gw_denials g1 = gw_denials g"
    "gw_violations g1 = gw_violations g"
    using g1(1) observe_frame [of ?c "snd (Now ?g)" g1] by (auto simp: gate_simps split: if_splits)
  have e: "completeResponse opts msg g = Some (if go_Observer opts then tell opts (ToolCallCompleted \<lparr>cp_ID = IDKey msg,
      cp_Tool = pc_tool pc, cp_Errored = (m_Error msg \<noteq> []), cp_Latency = Sub (fst (Now g1)) (pc_startAt pc)\<rparr>) (snd (Now g1)) else g1)"
    using assms(1,2) g1(1) by (simp add: completeResponse_def Let_def case_prod_beta split: if_splits)
  show ?thesis
    using g1(2) by (auto simp: e frame gate_simps gateway_ok_frame [OF trans [OF tell_simps(1) Now_simps(1)]] delete_conv')
qed

lemma ErrorResponse_exists:
  assumes "Parse raw = Inr msg"
  shows "\<exists>reply. ErrorResponse (m_ID msg) code body dat = Some reply"
proof (cases "m_ID msg = []")
  case True
  then show ?thesis by (simp add: ErrorResponse_def compact_null)
next
  case False
  then obtain v where "parse_json (m_ID msg) = Some v" by (rule message_id_raw [OF assms])
  with False show ?thesis by (simp add: ErrorResponse_def compact_def)
qed

lemma reject_ok: "Parse raw = Inr msg \<Longrightarrow>
    \<exists>reply. reject opts (ErrorResponse (m_ID msg) code body dat) = Inr \<lparr>in_Decision = Reject, in_Message = Some reply\<rparr>"
  using ErrorResponse_exists [of raw msg code body dat] by (auto simp: reject_def)

text \<open>What a gated message leads to: its event, the counters, and the verdict.\<close>

definition refusal :: "('p, 'd, 'c, 's) gateway_options \<Rightarrow> message \<Rightarrow> decision_event \<Rightarrow> bool" where
  "refusal opts msg ev \<longleftrightarrow> ev_ID ev = IDKey msg \<and> ev_Effect ev = EffectDeny \<and>
     ev_Unenforced ev = (go_Monitor opts \<and> \<not> HasAlwaysEnforce (go_Policy opts))"

definition book :: "('p, 'd, 'c, 's) gateway_options \<Rightarrow> decision_event \<Rightarrow> 's gateway \<Rightarrow> 's gateway \<Rightarrow> bool" where
  "book opts ev g g' \<longleftrightarrow>
     gw_events g' = gw_events g @ (if go_Observer opts then [ToolCallDecided ev] else []) \<and>
     gw_denials g' = (if ev_Effect ev = EffectDeny \<and> \<not> ev_Unenforced ev then count_up (ev_Rule ev) (gw_denials g) else gw_denials g) \<and>
     gw_violations g' = (if ev_Unenforced ev then count_up (ev_Rule ev) (gw_violations g) else gw_violations g)"

lemma refuse_effect:
  assumes "refuseUnreadable opts msg rule detail g = Some (g', r)"
  obtains ev where "refusal opts msg ev" "ev_Rule ev = rule" "book opts ev g g'" "gw_detector g' = gw_detector g"
    "gw_pending g' = gw_pending g" "if ev_Unenforced ev then r = Inr forward
      else if IsRequest msg then (\<exists>body dat. r = reject opts (ErrorResponse (m_ID msg) CodePolicyDenied body dat))
      else r = Inr \<lparr>in_Decision = Drop, in_Message = None\<rparr>"
  using assms
  by (intro that [of "zero_decision\<lparr>ev_ID := IDKey msg, ev_Tool := m_Method msg, ev_Method := m_Method msg,
      ev_Effect := EffectDeny, ev_Rule := rule, ev_Unenforced := (go_Monitor opts \<and> \<not> HasAlwaysEnforce (go_Policy opts)),
      ev_ScoreUnavailable := True, ev_SessionCalls := as_Calls (gw_assess opts g)\<rparr>"])
    (auto simp: refuseUnreadable_def refusal_def book_def gate_simps Let_def split: if_splits)

lemma refuse_total: "\<exists>g' r. refuseUnreadable opts msg rule detail g = Some (g', r)"
  by (simp add: refuseUnreadable_def Let_def)

lemma conclude_effect:
  assumes "conclude opts msg req a d g = (g', r)"
  obtains ev where "ev = call_event opts msg req a d (dc_Effect d = EffectDeny \<and> go_Monitor opts \<and> \<not> dc_AlwaysEnforce d)"
    "book opts ev g g'" "gw_detector g' = gw_detector g"
    "map_of (gw_pending g') = (if ev_Effect ev = EffectDeny \<and> \<not> ev_Unenforced ev then map_of (gw_pending g)
       else map_of (gw_pending (trackPending msg (rq_Tool req) g)))"
    "r = (if ev_Effect ev = EffectDeny \<and> \<not> ev_Unenforced ev then reject opts (denialFor opts msg d a (rq_OutOfScope req)) else Inr forward)"
proof -
  have pend: "map_of (gw_pending (trackPending msg t (tell opts e g))) = map_of (gw_pending (trackPending msg t g))"
    "map_of (gw_pending (trackPending msg t (recordViolation x (tell opts e g)))) = map_of (gw_pending (trackPending msg t g))"
    for t e x by (simp_all add: gate_simps)
  from assms show thesis
    by (intro that [OF refl]) (auto simp: conclude_def book_def call_event_def pend gate_simps Let_def split: if_splits)
qed
section \<open>One message of the client\<close>

text \<open>A message the gateway cannot read as the server will, and a message it decides about.\<close>

definition unreadable :: "('p, 'd, 'c, 's) gateway_options \<Rightarrow> message \<Rightarrow> bool" where
  "unreadable opts msg \<longleftrightarrow>
     (go_Policy opts \<noteq> None \<and> Ambiguity (ge_pr opts) msg \<noteq> []) \<or>
     (m_Method msg = methodToolsCall \<and> m_Params msg \<noteq> [] \<and> toolCallParams (m_Params msg) = None) \<or>
     (m_Method msg = methodResourcesRead \<and> m_Params msg \<noteq> [] \<and> decode_map (m_Params msg) = None)"

definition gated :: "('p, 'd, 'c, 's) gateway_options \<Rightarrow> message \<Rightarrow> bool" where
  "gated opts msg \<longleftrightarrow> unreadable opts msg \<or> m_Method msg = methodToolsCall \<or> m_Method msg = methodResourcesRead"

definition stopped :: "decision_event \<Rightarrow> bool" where
  "stopped ev \<longleftrightarrow> ev_Effect ev = EffectDeny \<and> \<not> ev_Unenforced ev"

text \<open>The decision \<open>ev\<close> was taken, recorded and carried out.\<close>

definition carried_out :: "('p, 'd, 'c, 's) gateway_options \<Rightarrow> message \<Rightarrow> decision_event \<Rightarrow> 's gateway \<Rightarrow> 's gateway \<Rightarrow> interception \<Rightarrow> bool" where
  "carried_out opts msg ev g g' v \<longleftrightarrow>
     book opts ev g g' \<and> ev_ID ev = IDKey msg \<and> ev_Method ev = m_Method msg \<and>
     (ev_Unenforced ev \<longrightarrow> go_Monitor opts \<and> ev_Effect ev = EffectDeny) \<and>
     (if stopped ev
      then map_of (gw_pending g') = map_of (gw_pending g) \<and>
        (if IsRequest msg then in_Decision v = Reject \<and> in_Message v \<noteq> None
         else in_Decision v = Drop \<or> (in_Decision v = Reject \<and> in_Message v \<noteq> None))
      else v = forward \<and>
        (map_of (gw_pending g') = map_of (gw_pending g) \<or>
         (\<exists>t. map_of (gw_pending g') = (map_of (gw_pending g))(IDKey msg \<mapsto> \<lparr>pc_tool = ev_Tool ev, pc_startAt = t\<rparr>))))"

lemma refuse_carried_out:
  assumes "Parse raw = Inr msg"
  shows "\<exists>g' v ev. refuseUnreadable opts msg rule detail g = Some (g', Inr v) \<and> gw_detector g' = gw_detector g \<and>
    carried_out opts msg ev g g' v \<and> refusal opts msg ev"
proof -
  let ?u = "go_Monitor opts \<and> \<not> HasAlwaysEnforce (go_Policy opts)"
  let ?ev = "zero_decision\<lparr>ev_ID := IDKey msg, ev_Tool := m_Method msg, ev_Method := m_Method msg,
      ev_Effect := EffectDeny, ev_Rule := rule, ev_Unenforced := ?u,
      ev_ScoreUnavailable := True, ev_SessionCalls := as_Calls (gw_assess opts g)\<rparr>"
  obtain reply where "reject opts (ErrorResponse (m_ID msg) CodePolicyDenied (''blocked by chokepoint: '' @ detail)
      (Some (JMap [(''rule'', JStr rule)]))) = Inr \<lparr>in_Decision = Reject, in_Message = Some reply\<rparr>"
    using reject_ok [OF assms] by blast
  then show ?thesis
    by (intro exI [of _ "fst (the (refuseUnreadable opts msg rule detail g))"]
        exI [of _ "projr (snd (the (refuseUnreadable opts msg rule detail g)))"] exI [of _ ?ev])
      (simp add: refuseUnreadable_def carried_out_def refusal_def book_def stopped_def gate_simps Let_def)
qed

lemma inspectCall_runs:
  assumes "gateway_ok g"
  obtains g1 where "observe (observed_call msg name args tc (fst (Now g))) (snd (Now g)) = Some g1" "gateway_ok g1"
    "inspectCall opts msg name args tc g =
      (let req = call_request opts g1 name (m_Method msg) args (fst (Now g))
       in Some (conclude opts msg req (gw_assess opts g1) (gw_evaluate opts req) g1))"
    "gw_events g1 = gw_events g" "gw_pending g1 = gw_pending g" "gw_denials g1 = gw_denials g" "gw_violations g1 = gw_violations g"
proof -
  have "gateway_ok (snd (Now g))" using assms by (simp add: gateway_ok_def gate_simps)
  then obtain g1 where g1: "observe (observed_call msg name args tc (fst (Now g))) (snd (Now g)) = Some g1" "gateway_ok g1"
    using observe_total by blast
  from observe_frame [OF g1(1)] g1 that [of g1] show thesis
    by (simp add: inspectCall_def Let_def case_prod_beta gate_simps)
qed

lemma call_carried_out:
  assumes "gateway_ok g" "Parse raw = Inr msg"
  shows "\<exists>g' v ev. inspectCall opts msg name args tc g = Some (g', Inr v) \<and> gateway_ok g' \<and> carried_out opts msg ev g g' v"
proof -
  from assms(1) obtain g1 where g1: "gateway_ok g1"
    "inspectCall opts msg name args tc g =
      (let req = call_request opts g1 name (m_Method msg) args (fst (Now g))
       in Some (conclude opts msg req (gw_assess opts g1) (gw_evaluate opts req) g1))"
    "gw_events g1 = gw_events g" "gw_pending g1 = gw_pending g" "gw_denials g1 = gw_denials g" "gw_violations g1 = gw_violations g"
    by (rule inspectCall_runs)
  let ?req = "call_request opts g1 name (m_Method msg) args (fst (Now g))"
  obtain g' r where c: "conclude opts msg ?req (gw_assess opts g1) (gw_evaluate opts ?req) g1 = (g', r)" by fastforce
  from c obtain ev where ev: "ev = call_event opts msg ?req (gw_assess opts g1) (gw_evaluate opts ?req)
      (dc_Effect (gw_evaluate opts ?req) = EffectDeny \<and> go_Monitor opts \<and> \<not> dc_AlwaysEnforce (gw_evaluate opts ?req))"
    "book opts ev g1 g'" "gw_detector g' = gw_detector g1"
    "map_of (gw_pending g') = (if ev_Effect ev = EffectDeny \<and> \<not> ev_Unenforced ev then map_of (gw_pending g1)
       else map_of (gw_pending (trackPending msg (rq_Tool ?req) g1)))"
    "r = (if ev_Effect ev = EffectDeny \<and> \<not> ev_Unenforced ev
       then reject opts (denialFor opts msg (gw_evaluate opts ?req) (gw_assess opts g1) (rq_OutOfScope ?req)) else Inr forward)"
    by (rule conclude_effect)
  have "\<exists>reply. reject opts (denialFor opts msg (gw_evaluate opts ?req) (gw_assess opts g1) (rq_OutOfScope ?req)) =
      Inr \<lparr>in_Decision = Reject, in_Message = Some reply\<rparr>"
    unfolding denialFor_def Let_def by (rule reject_ok [OF assms(2)])
  then obtain v where v: "r = Inr v" "if stopped ev then in_Decision v = Reject \<and> in_Message v \<noteq> None else v = forward"
    using ev(5) by (auto simp: stopped_def split: if_splits)
  have "carried_out opts msg ev g g' v"
    unfolding carried_out_def using ev(2,4) v(2) g1(3-6)
    by (simp add: ev(1) [symmetric] book_def stopped_def gate_simps split: if_splits) (auto simp: ev(1) call_event_def)
  moreover have "gateway_ok g'" using gateway_ok_frame [OF ev(3)] g1(1) by simp
  ultimately show ?thesis using g1(2) c v(1) by auto
qed

lemma prompts_observed:
  assumes "gateway_ok g"
  shows "\<exists>g'. observe c (snd (Now g)) = Some g' \<and> gateway_ok g' \<and> gw_events g' = gw_events g \<and> gw_denials g' = gw_denials g \<and>
    gw_violations g' = gw_violations g \<and> gw_pending g' = gw_pending g"
proof -
  have "gateway_ok (snd (Now g))" using assms by (simp add: gateway_ok_def gate_simps)
  then obtain g' where "observe c (snd (Now g)) = Some g'" "gateway_ok g'" using observe_total by blast
  with observe_frame [of c "snd (Now g)" g'] show ?thesis by (simp add: gate_simps)
qed

definition unchanged :: "'s gateway \<Rightarrow> 's gateway \<Rightarrow> bool" where
  "unchanged g g' \<longleftrightarrow> gw_events g' = gw_events g \<and> gw_denials g' = gw_denials g \<and>
     gw_violations g' = gw_violations g \<and> map_of (gw_pending g') = map_of (gw_pending g)"

lemma methods_differ [simp]:
  "methodResourcesRead \<noteq> methodToolsCall" "methodPromptsGet \<noteq> methodToolsCall" "methodPromptsGet \<noteq> methodResourcesRead"
  "methodToolsList \<noteq> methodToolsCall" "methodToolsList \<noteq> methodResourcesRead" "methodToolsList \<noteq> methodPromptsGet"
  by (simp_all add: methodToolsCall_def methodResourcesRead_def methodPromptsGet_def methodToolsList_def)

lemma unreadable_refused:
  assumes "unreadable opts msg"
  shows "\<exists>rule detail. Intercept opts g ClientToServer msg = refuseUnreadable opts msg rule detail g"
proof (cases "go_Policy opts \<noteq> None \<and> Ambiguity (ge_pr opts) msg \<noteq> []")
  case True
  then have "Intercept opts g ClientToServer msg =
      refuseUnreadable opts msg RuleAmbiguousRequest (Ambiguity (ge_pr opts) msg) g"
    by (simp add: Intercept_def inspectRequest_def)
  then show ?thesis by blast
next
  case False
  with assms have "Intercept opts g ClientToServer msg =
      refuseUnreadable opts msg RuleMalformedRequest (ge_unmarshalError opts (m_Params msg)) g"
    by (auto simp: unreadable_def Intercept_def inspectRequest_def inspect_method_def)
  then show ?thesis by blast
qed

lemma readable_inspected:
  assumes "\<not> unreadable opts msg" "gated opts msg"
  shows "\<exists>name args tc. Intercept opts g ClientToServer msg = inspectCall opts msg name args tc g"
proof -
  have i: "Intercept opts g ClientToServer msg = inspect_method opts msg g"
    using assms(1) by (auto simp: unreadable_def Intercept_def inspectRequest_def)
  show ?thesis
  proof (cases "m_Method msg = methodToolsCall")
    case True
    with assms(1) have "(if length (m_Params msg) > 0 then toolCallParams (m_Params msg) else Some ([], None)) \<noteq> None"
      by (auto simp: unreadable_def)
    then obtain name args where
      "(if length (m_Params msg) > 0 then toolCallParams (m_Params msg) else Some ([], None)) = Some (name, args)" by fast
    with True i show ?thesis by (auto simp: inspect_method_def)
  next
    case False
    with assms have m: "m_Method msg = methodResourcesRead" by (simp add: gated_def)
    with assms(1) have "(if length (m_Params msg) > 0 then decode_map (m_Params msg) else Some None) \<noteq> None"
      by (auto simp: unreadable_def)
    then obtain params where
      "(if length (m_Params msg) > 0 then decode_map (m_Params msg) else Some None) = Some params" by fast
    with m i show ?thesis by (auto simp: inspect_method_def)
  qed
qed

lemma Intercept_client:
  assumes "gateway_ok g" "Parse raw = Inr msg"
  shows "\<exists>g' v. Intercept opts g ClientToServer msg = Some (g', Inr v) \<and> gateway_ok g' \<and>
    (if gated opts msg
     then \<exists>ev. carried_out opts msg ev g g' v \<and> (unreadable opts msg \<longrightarrow> refusal opts msg ev)
     else unchanged g g' \<and> v = forward)"
proof (cases "unreadable opts msg")
  case True
  then obtain rule detail where "Intercept opts g ClientToServer msg = refuseUnreadable opts msg rule detail g"
    using unreadable_refused by blast
  moreover obtain g' v ev where "refuseUnreadable opts msg rule detail g = Some (g', Inr v)" "gw_detector g' = gw_detector g"
    "carried_out opts msg ev g g' v" "refusal opts msg ev"
    using refuse_carried_out [OF assms(2), of opts rule detail g] by blast
  ultimately show ?thesis using True gateway_ok_frame [of g' g] assms(1) by (auto simp: gated_def)
next
  case readable: False
  show ?thesis
  proof (cases "gated opts msg")
    case True
    with readable obtain name args tc where "Intercept opts g ClientToServer msg = inspectCall opts msg name args tc g"
      using readable_inspected by blast
    with readable True call_carried_out [OF assms, of opts name args tc] show ?thesis by auto
  next
    case False
    with readable have i: "Intercept opts g ClientToServer msg = inspect_method opts msg g" "m_Method msg \<noteq> methodToolsCall"
      "m_Method msg \<noteq> methodResourcesRead"
      by (auto simp: gated_def unreadable_def Intercept_def inspectRequest_def)
    show ?thesis
    proof (cases "m_Method msg = methodPromptsGet")
      case True
      let ?c = "zero_call\<lparr>c_Tool := m_Method msg, c_Target := firstTarget (m_Params msg),
          c_PayloadBytes := int (length (m_Params msg)), c_IsToolCall := False, c_At := fst (Now g)\<rparr>"
      from prompts_observed [OF assms(1), of ?c] True i False show ?thesis
        by (auto simp: inspect_method_def unchanged_def case_prod_beta Let_def)
    next
      case other: False
      with i have "Intercept opts g ClientToServer msg = Some (if m_Method msg = methodToolsList then trackListing msg g else g, Inr forward)"
        by (simp add: inspect_method_def)
      moreover have "gateway_ok (trackListing msg g)" using assms(1) by (simp add: gateway_ok_def gate_simps)
      ultimately show ?thesis using False assms(1) by (simp add: unchanged_def gate_simps)
    qed
  qed
qed
section \<open>Answers of the server\<close>

lemma Intercept_server:
  assumes "gateway_ok g"
  shows "\<exists>g'. Intercept opts g ServerToClient msg = Some (g', Inr forward) \<and> gateway_ok g' \<and>
    gw_denials g' = gw_denials g \<and> gw_violations g' = gw_violations g \<and>
    (case (if IDKey msg = [] then None else map_of (gw_pending g) (IDKey msg)) of
      None \<Rightarrow> gw_events g' = gw_events g \<and> map_of (gw_pending g') = map_of (gw_pending g)
    | Some pc \<Rightarrow> map_of (gw_pending g') = (map_of (gw_pending g))(IDKey msg := None) \<and>
        (\<exists>t. gw_events g' = gw_events g @ (if go_Observer opts then [ToolCallCompleted \<lparr>cp_ID = IDKey msg,
           cp_Tool = pc_tool pc, cp_Errored = (m_Error msg \<noteq> []), cp_Latency = Sub t (pc_startAt pc)\<rparr>] else [])))"
proof -
  let ?g = "inspectToolListing opts msg g"
  have ok: "gateway_ok ?g" using assms by (simp add: gateway_ok_frame [OF inspectToolListing_simps(1)])
  show ?thesis
  proof (cases "if IDKey msg = [] then None else map_of (gw_pending g) (IDKey msg)")
    case None
    then have "IDKey msg = [] \<or> map_of (gw_pending ?g) (IDKey msg) = None" by (simp add: gate_simps split: if_splits)
    from completeResponse_unknown [OF this, of opts] obtain g' where g': "completeResponse opts msg ?g = Some g'"
      "gw_events g' = gw_events g" "gw_detector g' = gw_detector ?g" "map_of (gw_pending g') = map_of (gw_pending g)"
      "gw_denials g' = gw_denials g" "gw_violations g' = gw_violations g" by (auto simp: gate_simps)
    with None ok gateway_ok_frame [OF g'(3)] show ?thesis by (simp add: Intercept_def)
  next
    case (Some pc)
    then have "IDKey msg \<noteq> []" "map_of (gw_pending ?g) (IDKey msg) = Some pc" by (simp_all add: gate_simps split: if_splits)
    from completeResponse_known [OF this ok, of opts] show ?thesis using Some by (auto simp: Intercept_def gate_simps)
  qed
qed

section \<open>The gateway as the proxy's interceptor\<close>

text \<open>The messages the gateway is bound to refuse.\<close>

definition blocked :: "('p, 'd, 'c, 's) gateway_options \<Rightarrow> message \<Rightarrow> bool" where
  "blocked opts msg \<longleftrightarrow> unreadable opts msg \<and> (\<not> go_Monitor opts \<or> HasAlwaysEnforce (go_Policy opts))"

interpretation gate: guard "Intercept opts" gateway_ok "blocked opts"
  for opts :: "('p, 'd, 'c, 's) gateway_options"
proof
  fix g :: "'s gateway" and raw msg dir
  assume "gateway_ok g" "Parse raw = Inr msg"
  then show "\<exists>g' v. Intercept opts g dir msg = Some (g', Inr v) \<and> gateway_ok g'"
    using Intercept_client Intercept_server by (cases dir) blast+
next
  fix g g' :: "'s gateway" and msg v
  assume "gateway_ok g" "Intercept opts g ServerToClient msg = Some (g', Inr v)"
  with Intercept_server [of g opts msg] show "in_Decision v = Forward" by (auto simp: forward_def)
next
  fix g g' :: "'s gateway" and raw msg v
  assume ok: "gateway_ok g" "Parse raw = Inr msg" and i: "Intercept opts g ClientToServer msg = Some (g', Inr v)"
  show "case in_Decision v of Forward \<Rightarrow> \<not> blocked opts msg | Replace \<Rightarrow> False | Reject \<Rightarrow> in_Message v \<noteq> None | Drop \<Rightarrow> \<not> IsRequest msg"
  proof (cases "gated opts msg")
    case True
    with Intercept_client [OF ok, of opts] i obtain ev where
      "carried_out opts msg ev g g' v" "unreadable opts msg \<longrightarrow> refusal opts msg ev" by auto
    then show ?thesis
      by (auto simp: carried_out_def stopped_def refusal_def blocked_def forward_def split: if_splits)
  next
    case False
    with Intercept_client [OF ok, of opts] i have "v = forward" by auto
    with False show ?thesis by (simp add: forward_def blocked_def gated_def)
  qed
qed

section \<open>Runs of the gateway\<close>

text \<open>What reaches the gateway: messages \<open>Parse\<close> yielded, and reports of lines it did not.\<close>

datatype input = Line_in direction bytes | Unparseable bool parse_error

definition gateway_step :: "('p, 'd, 'c, 's) gateway_options \<Rightarrow> 's gateway \<Rightarrow> input \<Rightarrow> 's gateway option" where
  "gateway_step opts g i =
     (case i of
       Line_in dir raw \<Rightarrow> (case Parse raw of Inl _ \<Rightarrow> Some g | Inr msg \<Rightarrow> map_option fst (Intercept opts g dir msg))
     | Unparseable refused e \<Rightarrow> Some (RecordUnparseable opts g refused e))"

fun gateway_run :: "('p, 'd, 'c, 's) gateway_options \<Rightarrow> 's gateway \<Rightarrow> input list \<Rightarrow> 's gateway option" where
  "gateway_run opts g [] = Some g"
| "gateway_run opts g (i # is) = Option.bind (gateway_step opts g i) (\<lambda>g. gateway_run opts g is)"

text \<open>How often the events say that a rule denied and was enforced, and that it was not.\<close>

definition rule_name :: "bytes \<Rightarrow> bytes" where
  "rule_name r = (if r = [] then ''default_effect'' else r)"

definition denied_events :: "bytes \<Rightarrow> event list \<Rightarrow> nat" where
  "denied_events r es = length (filter (\<lambda>e. case e of
     ToolCallDecided ev \<Rightarrow> stopped ev \<and> rule_name (ev_Rule ev) = r | ToolCallCompleted _ \<Rightarrow> False) es)"

definition unenforced_events :: "bytes \<Rightarrow> event list \<Rightarrow> nat" where
  "unenforced_events r es = length (filter (\<lambda>e. case e of
     ToolCallDecided ev \<Rightarrow> ev_Unenforced ev \<and> rule_name (ev_Rule ev) = r | ToolCallCompleted _ \<Rightarrow> False) es)"

definition counts :: "(bytes \<times> nat) list \<Rightarrow> bytes \<Rightarrow> nat" where
  "counts m r = (case map_of m r of None \<Rightarrow> 0 | Some n \<Rightarrow> n)"

lemma counts_up: "counts (count_up rule m) r = counts m r + (if rule_name rule = r then 1 else 0)"
  by (simp add: counts_def count_up_def rule_name_def update_conv' Let_def)

text \<open>The books of the gateway: every counter agrees with the events, every pending call was
  let through by a recorded decision, and every completion belongs to such a decision before it.\<close>

definition let_through :: "event list \<Rightarrow> bytes \<Rightarrow> bytes \<Rightarrow> bool" where
  "let_through es ident tool \<longleftrightarrow>
     (\<exists>ev. ToolCallDecided ev \<in> set es \<and> ev_ID ev = ident \<and> ev_Tool ev = tool \<and> \<not> stopped ev)"

fun completions_follow :: "event list \<Rightarrow> event list \<Rightarrow> bool" where
  "completions_follow before [] = True"
| "completions_follow before (e # es) =
     ((case e of ToolCallCompleted c \<Rightarrow> let_through before (cp_ID c) (cp_Tool c) | _ \<Rightarrow> True) \<and>
      completions_follow (before @ [e]) es)"

definition ledger :: "'s gateway \<Rightarrow> bool" where
  "ledger g \<longleftrightarrow>
     (\<forall>r. counts (gw_denials g) r = denied_events r (gw_events g) \<and>
          counts (gw_violations g) r = unenforced_events r (gw_events g)) \<and>
     (\<forall>k pc. map_of (gw_pending g) k = Some pc \<longrightarrow> let_through (gw_events g) k (pc_tool pc)) \<and>
     completions_follow [] (gw_events g)"

lemma completions_follow_snoc: "completions_follow b (es @ [e]) \<longleftrightarrow> completions_follow b es \<and>
    (case e of ToolCallCompleted c \<Rightarrow> let_through (b @ es) (cp_ID c) (cp_Tool c) | _ \<Rightarrow> True)"
  by (cases e; induction es arbitrary: b; simp)

lemma let_through_mono: "let_through es k t \<Longrightarrow> let_through (es @ es') k t"
  by (auto simp: let_through_def)

lemma event_counts_snoc:
  "denied_events r (es @ [ToolCallDecided ev]) = denied_events r es + (if stopped ev \<and> rule_name (ev_Rule ev) = r then 1 else 0)"
  "unenforced_events r (es @ [ToolCallDecided ev]) = unenforced_events r es + (if ev_Unenforced ev \<and> rule_name (ev_Rule ev) = r then 1 else 0)"
  "denied_events r (es @ [ToolCallCompleted c]) = denied_events r es"
  "unenforced_events r (es @ [ToolCallCompleted c]) = unenforced_events r es"
  by (simp_all add: denied_events_def unenforced_events_def)

lemma gateway_ok_unparseable: "gateway_ok (RecordUnparseable opts g refused e) = gateway_ok g"
  by (rule gateway_ok_frame) (simp add: RecordUnparseable_def gate_simps Let_def)

text \<open>A decision was announced and booked; a completion of a pending call was announced.\<close>

definition announces :: "decision_event \<Rightarrow> 's gateway \<Rightarrow> 's gateway \<Rightarrow> bool" where
  "announces ev g g' \<longleftrightarrow>
     gw_events g' = gw_events g @ [ToolCallDecided ev] \<and> (ev_Unenforced ev \<longrightarrow> ev_Effect ev = EffectDeny) \<and>
     gw_denials g' = (if stopped ev then count_up (ev_Rule ev) (gw_denials g) else gw_denials g) \<and>
     gw_violations g' = (if ev_Unenforced ev then count_up (ev_Rule ev) (gw_violations g) else gw_violations g) \<and>
     (map_of (gw_pending g') = map_of (gw_pending g) \<or>
      \<not> stopped ev \<and> (\<exists>t. map_of (gw_pending g') = (map_of (gw_pending g))(ev_ID ev \<mapsto> \<lparr>pc_tool = ev_Tool ev, pc_startAt = t\<rparr>)))"

definition completes :: "completion_event \<Rightarrow> 's gateway \<Rightarrow> 's gateway \<Rightarrow> bool" where
  "completes c g g' \<longleftrightarrow>
     gw_events g' = gw_events g @ [ToolCallCompleted c] \<and> gw_denials g' = gw_denials g \<and> gw_violations g' = gw_violations g \<and>
     (\<exists>pc. map_of (gw_pending g) (cp_ID c) = Some pc \<and> cp_Tool c = pc_tool pc) \<and>
     map_of (gw_pending g') = (map_of (gw_pending g))(cp_ID c := None)"

lemma carried_out_announces: "carried_out opts msg ev g g' v \<Longrightarrow> go_Observer opts \<Longrightarrow> announces ev g g'"
  by (auto simp: carried_out_def book_def announces_def stopped_def split: if_splits)

lemma unparseable_announces:
  assumes "go_Observer opts"
  shows "\<exists>ev. announces ev g (RecordUnparseable opts g refused e)"
proof -
  let ?ev = "zero_decision\<lparr>ev_Tool := ''(unparseable)'', ev_Effect := EffectDeny, ev_Rule := RuleMalformedRequest,
    ev_Unenforced := \<not> refused, ev_ScoreUnavailable := True, ev_SessionCalls := as_Calls (gw_assess opts g)\<rparr>"
  have "announces ?ev g (RecordUnparseable opts g refused e)"
    using assms by (simp add: announces_def RecordUnparseable_def gate_simps stopped_def Let_def)
  then show ?thesis by blast
qed

lemma step_effect:
  assumes "gateway_ok g" "go_Observer opts"
  shows "\<exists>g'. gateway_step opts g i = Some g' \<and> gateway_ok g' \<and>
    ((\<exists>ev. announces ev g g') \<or> (\<exists>c. completes c g g') \<or> unchanged g g')"
proof (cases i)
  case (Unparseable refused e)
  with unparseable_announces [OF assms(2), of g refused e] assms(1) show ?thesis
    by (simp add: gateway_step_def gateway_ok_unparseable)
next
  case (Line_in dir raw)
  show ?thesis
  proof (cases "Parse raw")
    case (Inl e)
    with Line_in assms show ?thesis by (simp add: gateway_step_def unchanged_def)
  next
    case (Inr msg)
    show ?thesis
    proof (cases dir)
      case ClientToServer
      from Intercept_client [OF assms(1) Inr, of opts] obtain g' v where
        "Intercept opts g ClientToServer msg = Some (g', Inr v)" "gateway_ok g'"
        "(\<exists>ev. carried_out opts msg ev g g' v) \<or> unchanged g g'" by (auto split: if_splits)
      with assms(2) Line_in Inr ClientToServer show ?thesis
        by (auto simp: gateway_step_def dest: carried_out_announces)
    next
      case ServerToClient
      from Intercept_server [OF assms(1), of opts msg] assms(2) Line_in Inr ServerToClient show ?thesis
        by (fastforce simp: gateway_step_def completes_def unchanged_def split: option.splits if_splits)
    qed
  qed
qed

text \<open>
  An invariant of every run: kept when a decision is announced, when a completion is announced, and when
  neither happens.
\<close>

locale gateway_invariant =
  fixes I :: "'s gateway \<Rightarrow> bool"
  assumes decision: "I g \<Longrightarrow> announces ev g g' \<Longrightarrow> I g'"
    and completion: "I g \<Longrightarrow> completes c g g' \<Longrightarrow> I g'"
    and silence: "I g \<Longrightarrow> unchanged g g' \<Longrightarrow> I g'"
begin

lemma step_keeps:
  assumes "gateway_ok g" "I g" "go_Observer opts"
  shows "\<exists>g'. gateway_step opts g i = Some g' \<and> gateway_ok g' \<and> I g'"
  using step_effect [OF assms(1,3), of i] decision [OF assms(2)] completion [OF assms(2)] silence [OF assms(2)] by blast

lemma run_keeps:
  assumes "gateway_ok g" "I g" "go_Observer opts"
  shows "\<exists>g'. gateway_run opts g is = Some g' \<and> gateway_ok g' \<and> I g'"
  using assms(1,2)
proof (induction "is" arbitrary: g)
  case (Cons i "is")
  from step_keeps [OF Cons.prems assms(3), of i] Cons.IH show ?case by auto
qed auto

lemma run_result: "gateway_run opts g is = Some g' \<Longrightarrow> gateway_ok g \<Longrightarrow> I g \<Longrightarrow> go_Observer opts \<Longrightarrow> I g'"
  using run_keeps [of g opts "is"] by auto

end

interpretation books: gateway_invariant ledger
proof
  fix g g' :: "'s gateway" and ev
  assume l: "ledger g" and a: "announces ev g g'"
  have es: "gw_events g' = gw_events g @ [ToolCallDecided ev]" using a by (simp add: announces_def)
  have "counts (gw_denials g') r = denied_events r (gw_events g') \<and> counts (gw_violations g') r = unenforced_events r (gw_events g')" for r
    using l a by (auto simp: ledger_def announces_def event_counts_snoc counts_up)
  moreover have "let_through (gw_events g') k (pc_tool pc)" if "map_of (gw_pending g') k = Some pc" for k pc
  proof (cases "map_of (gw_pending g) k = Some pc")
    case True
    with l show ?thesis by (simp add: ledger_def es let_through_mono)
  next
    case False
    with that a have "\<not> stopped ev" "k = ev_ID ev" "pc_tool pc = ev_Tool ev" by (auto simp: announces_def split: if_splits)
    then show ?thesis by (auto simp: let_through_def es)
  qed
  ultimately show "ledger g'" using l by (simp add: ledger_def es completions_follow_snoc)
next
  fix g g' :: "'s gateway" and c
  assume "ledger g" "completes c g g'"
  then show "ledger g'"
    by (auto simp: ledger_def completes_def event_counts_snoc completions_follow_snoc let_through_mono split: if_splits)
next
  fix g g' :: "'s gateway"
  show "ledger g \<Longrightarrow> unchanged g g' \<Longrightarrow> ledger g'" by (simp add: ledger_def unchanged_def)
qed

section \<open>Properties\<close>

text \<open>
  C3: The books never lie: whatever messages a gateway sees, in any order and interleaving,
  it does not panic; for every rule the refusals it reports are the decisions it announced as
  denied and enforced, and the violations those announced as denied and let through; and
  every completion it announces has, before it, a decision for the same request id and tool
  that let the call through.\<close>

theorem books_agree_with_events:
  "\<exists>g. gateway_run (opts\<lparr>go_Observer := True\<rparr>) (New (map_option NewSession cfg) reg clock) inputs = Some g \<and>
    (\<forall>r. counts (gw_denials g) r = denied_events r (gw_events g)) \<and>
    (\<forall>r. counts (gw_violations g) r = unenforced_events r (gw_events g)) \<and> completions_follow [] (gw_events g)"
proof -
  let ?g = "New (map_option NewSession cfg) reg clock"
  have "gateway_ok ?g" by (cases cfg) (simp_all add: gateway_ok_def New_def NewSession_ok)
  moreover have "ledger ?g" by (simp add: ledger_def New_def counts_def denied_events_def unenforced_events_def)
  ultimately show ?thesis using books.run_keeps [of ?g "opts\<lparr>go_Observer := True\<rparr>" inputs] by (auto simp: ledger_def)
qed

text \<open>
  C23: Every call, and every message that cannot be read as the server will, is decided exactly
  once and the announcement is true: one event with the request's id, a refused request gets a
  reply, a refused message is not forwarded, and everything else is forwarded as it came.\<close>

theorem gated_message_is_decided_once:
  assumes "gateway_ok g" "Parse raw = Inr msg" "gated opts msg" "go_Observer opts"
  shows "\<exists>g' v ev. Intercept opts g ClientToServer msg = Some (g', Inr v) \<and>
    gw_events g' = gw_events g @ [ToolCallDecided ev] \<and> ev_ID ev = IDKey msg \<and> ev_Method ev = m_Method msg \<and>
    (if ev_Effect ev = EffectDeny \<and> \<not> ev_Unenforced ev
     then in_Decision v = Reject \<and> in_Message v \<noteq> None \<or> in_Decision v = Drop \<and> \<not> IsRequest msg
     else v = forward \<and> (\<not> go_Monitor opts \<longrightarrow> ev_Effect ev \<noteq> EffectDeny))"
proof -
  from Intercept_client [OF assms(1,2), of opts] assms(3) obtain g' v ev where
    i: "Intercept opts g ClientToServer msg = Some (g', Inr v)" "carried_out opts msg ev g g' v" by auto
  with assms(4) show ?thesis
    by (intro exI [of _ g'] exI [of _ v] exI [of _ ev])
      (auto simp: carried_out_def book_def stopped_def split: if_splits)
qed

lemma evaluate_no_policy: "go_Policy opts = None \<Longrightarrow> dc_Effect (gw_evaluate opts req) \<noteq> EffectDeny"
  by (simp add: gw_evaluate_def EffectAllow_def EffectDeny_def)

text \<open>
  Without a policy the gateway forwards exactly what it can decode: a call whose
  parameters do not decode is still refused although no policy is loaded, everything else
  passes.\<close>

theorem without_policy_forwards_readable:
  assumes "gateway_ok g" "Parse raw = Inr msg" "go_Policy opts = None" "\<not> go_Monitor opts"
  shows "\<exists>g' v. Intercept opts g ClientToServer msg = Some (g', Inr v) \<and> (v = forward \<longleftrightarrow> \<not> unreadable opts msg)"
proof -
  from Intercept_client [OF assms(1,2), of opts] obtain g' v where i: "Intercept opts g ClientToServer msg = Some (g', Inr v)"
    and e: "if gated opts msg then \<exists>ev. carried_out opts msg ev g g' v \<and> (unreadable opts msg \<longrightarrow> refusal opts msg ev) else unchanged g g' \<and> v = forward"
    by blast
  have "v = forward" if "gated opts msg" "\<not> unreadable opts msg"
  proof -
    from readable_inspected [OF that(2,1)] obtain name args tc where c: "inspectCall opts msg name args tc g = Some (g', Inr v)"
      using i by metis
    from inspectCall_runs [OF assms(1)] obtain g1 where
      "inspectCall opts msg name args tc g = (let req = call_request opts g1 name (m_Method msg) args (fst (Now g))
       in Some (conclude opts msg req (gw_assess opts g1) (gw_evaluate opts req) g1))" by metis
    with c evaluate_no_policy [OF assms(3)] show ?thesis by (auto simp: conclude_def Let_def)
  qed
  moreover have "v \<noteq> forward" if "unreadable opts msg"
    using e that assms(4) by (auto simp: gated_def carried_out_def refusal_def stopped_def forward_def split: if_splits)
  ultimately have "v = forward \<longleftrightarrow> \<not> unreadable opts msg" using e by (auto split: if_splits)
  with i show ?thesis by blast
qed

text \<open>
  C2: A deny rule blocks: when the first rule of the policy that matches a tool call and is
  not an audit rule denies it, and either the policy is enforced or the rule is always
  enforced, the call is answered with an error instead of being forwarded, under the rule's
  name, and nothing waits for its answer.\<close>

theorem deny_rule_blocks:
  assumes "gateway_ok g" "Parse raw = Inr msg" "go_Policy opts = Some p" "Ambiguity (ge_pr opts) msg = []"
    and "m_Method msg = methodToolsCall" "m_Params msg \<noteq> []" "toolCallParams (m_Params msg) = Some (name, args)"
    and "observe (observed_call msg name args True (fst (Now g))) (snd (Now g)) = Some g1"
    and "find (decides (ge_eval opts) (request_vars (call_request opts g1 name (m_Method msg) args (fst (Now g))))) (pl_Rules p) = Some r"
    and "rl_Effect r = EffectDeny" "\<not> go_Monitor opts \<or> rl_AlwaysEnforce r"
  shows "\<exists>g' reply. Intercept opts g ClientToServer msg = Some (g', Inr \<lparr>in_Decision = Reject, in_Message = Some reply\<rparr>) \<and>
    gw_denials g' = count_up (rl_Name r) (gw_denials g) \<and> gw_pending g' = gw_pending g"
proof -
  let ?req = "call_request opts g1 name (m_Method msg) args (fst (Now g))"
  have d: "dc_Effect (gw_evaluate opts ?req) = EffectDeny" "dc_Rule (gw_evaluate opts ?req) = rl_Name r"
    "dc_AlwaysEnforce (gw_evaluate opts ?req) = rl_AlwaysEnforce r"
    using assms(3,9,10) by (simp_all add: gw_evaluate_def Evaluate_def evaluate_rules_eq first_match_def Let_def)
  have "Intercept opts g ClientToServer msg = inspectCall opts msg name args True g"
    using assms(4-7) by (simp add: Intercept_def inspectRequest_def inspect_method_def)
  moreover have "inspectCall opts msg name args True g = Some (conclude opts msg ?req (gw_assess opts g1) (gw_evaluate opts ?req) g1)"
    using assms(8) by (simp add: inspectCall_def Let_def case_prod_beta)
  moreover obtain reply where "reject opts (denialFor opts msg (gw_evaluate opts ?req) (gw_assess opts g1) (rq_OutOfScope ?req)) =
      Inr \<lparr>in_Decision = Reject, in_Message = Some reply\<rparr>"
    unfolding denialFor_def Let_def using reject_ok [OF assms(2)] by blast
  ultimately show ?thesis
    using d assms(11) observe_frame [OF assms(8)] by (auto simp: conclude_def Let_def gate_simps)
qed
text \<open>
  A path whose first component reads as a URI scheme normalises to no resource, and a target
  without a resource is not compared with the workspace.\<close>

lemma opaque_path_is_empty: "Empty (ParseResource ''ab:x/../../etc/passwd'')"
  by code_simp

lemma opaque_path_never_out_of_scope:
  "''ab:x/../../etc/passwd'' \<in> set (ExtractLocations (Some [(''path'', JStr ''ab:x/../../etc/passwd'')])) \<and>
   gw_outOfScope opts (ExtractLocations (Some [(''path'', JStr ''ab:x/../../etc/passwd'')])) = []"
proof -
  have "ToLower ''path'' = ''path''" by code_simp
  then have e: "ExtractLocations (Some [(''path'', JStr ''ab:x/../../etc/passwd'')]) = [''ab:x/../../etc/passwd'']"
    by (simp add: ExtractLocations_def extract_sorted_def collect.simps targetKeys_def locationKeys_def maxDepth_def)
  show ?thesis unfolding e by (simp add: gw_outOfScope_def opaque_path_is_empty)
qed

section \<open>An example\<close>

definition example_guard :: "bytes rule" where
  "example_guard = (example_rule ''read'' EffectDeny True)\<lparr>rl_program := Some ''read''\<rparr>"

definition example_options :: "bytes policy option \<Rightarrow> (bytes, bytes, bytes, bytes) gateway_options" where
  "example_options pol = \<lparr>ge_eval = example_eval, ge_lib = example_lib, ge_sha = (\<lambda>s. s), ge_pr = no_print, ge_zone = (\<lambda>_. 0),
     ge_unmarshalError = (\<lambda>_. ''cannot unmarshal''), ge_marshalError = ''cannot marshal'', go_Policy = pol,
     go_Weights = DefaultWeights, go_Scope = \<lparr>sc_entries = []\<rparr>, go_Observer = True, go_Monitor = False\<rparr>"

definition example_gateway :: "bytes gateway" where
  "example_gateway = New (Some (NewSession example_config)) None (\<lambda>n. int n)"

abbreviation sample_call :: message where
  "sample_call \<equiv> call_message example_params"

lemma example_gateway_ok: "gateway_ok example_gateway"
  by (simp add: gateway_ok_def example_gateway_def New_def NewSession_ok)

lemma example_call_simps [simp]: "m_Method sample_call = methodToolsCall" "m_Params sample_call = encode_json example_params"
  "IDKey sample_call = ''7''" "encode_json example_params \<noteq> []"
  by (simp_all add: call_message_def methodToolsCall_def IDKey_def example_params_def)

lemma example_decodes: "toolCallParams (encode_json example_params) = Some (''read'', Some [(''path'', JStr ''/etc/shadow'')])"
proof -
  have v: "valid_json max_depth example_params" using example_params_valid by (simp add: example_params_def max_depth_def)
  have f: "fold_name ''name'' = ''NAME''" "fold_name ''arguments'' = ''ARGUMENTS''" by code_simp+
  show ?thesis
    by (simp add: toolCallParams_def parse_json_encode [OF v])
      (simp add: example_params_def decode_arguments_def string_field_def field_matches_iff f del: fold_name.simps)
qed

lemma example_not_ambiguous: "Ambiguity no_print sample_call = []"
  by (simp only: Ambiguity_def Parse_raw [OF example_read(1)] example_read(3) option.case ambiguity_iff example_unambiguous)

lemma example_options_simps [simp]: "go_Policy (example_options pol) = pol" "ge_pr (example_options pol) = no_print"
  "go_Observer (example_options pol)" "\<not> go_Monitor (example_options pol)" "ge_eval (example_options pol) = example_eval"
  by (simp_all add: example_options_def)

lemma gated_message_is_decided_once_witness:
  "\<exists>g' v ev. Intercept (example_options None) example_gateway ClientToServer sample_call = Some (g', Inr v) \<and>
    gw_events g' = gw_events example_gateway @ [ToolCallDecided ev] \<and> ev_ID ev = ''7''"
  using gated_message_is_decided_once [OF example_gateway_ok example_read(1), of "example_options None"]
  by (fastforce simp: gated_def)

lemma without_policy_forwards_readable_witness:
  "\<exists>g' v. Intercept (example_options None) example_gateway ClientToServer sample_call = Some (g', Inr v) \<and> v = forward"
  using without_policy_forwards_readable [OF example_gateway_ok example_read(1), of "example_options None"]
  by (auto simp: unreadable_def example_decodes dest: methods_differ(1) [THEN notE, OF sym])

lemma example_call_observed:
  obtains g1 where "observe (observed_call sample_call ''read'' args True (fst (Now example_gateway))) (snd (Now example_gateway)) = Some g1"
proof -
  have "gateway_ok (snd (Now example_gateway))" using example_gateway_ok by (simp add: gateway_ok_def gate_simps)
  with observe_total that show thesis by blast
qed

definition guarded_policy :: "bytes policy" where
  "guarded_policy = example_compiled\<lparr>pl_Rules := [example_guard]\<rparr>"

lemma guarded_policy_decides:
  "find (decides example_eval (request_vars (call_request opts g ''read'' meth args now))) (pl_Rules guarded_policy) = Some example_guard"
  by (simp add: guarded_policy_def example_guard_def example_rule_def decides_def rule_matches_def example_eval_def isTrue_def
      request_vars_def call_request_def case_prod_beta Let_def EffectDeny_def EffectAudit_def)

lemma deny_rule_blocks_witness:
  "\<exists>g' reply. Intercept (example_options (Some guarded_policy)) example_gateway ClientToServer sample_call =
      Some (g', Inr \<lparr>in_Decision = Reject, in_Message = Some reply\<rparr>) \<and> gw_denials g' = [(''no-read'', 1)]"
proof -
  obtain g1 where "observe (observed_call sample_call ''read'' (Some [(''path'', JStr ''/etc/shadow'')]) True (fst (Now example_gateway)))
      (snd (Now example_gateway)) = Some g1"
    by (rule example_call_observed)
  from deny_rule_blocks [OF example_gateway_ok example_read(1), of "example_options (Some guarded_policy)" guarded_policy, OF _ _ _ _ _ this, of example_guard]
  have "\<exists>g' reply. Intercept (example_options (Some guarded_policy)) example_gateway ClientToServer sample_call =
      Some (g', Inr \<lparr>in_Decision = Reject, in_Message = Some reply\<rparr>) \<and>
      gw_denials g' = count_up (rl_Name example_guard) (gw_denials example_gateway)"
    by (auto simp: example_not_ambiguous example_decodes guarded_policy_decides) (auto simp: example_guard_def example_rule_def)
  then show ?thesis by (simp add: example_guard_def example_rule_def count_up_def example_gateway_def New_def)
qed

end
