(* ===== verification/Chokepoint.thy ===== *)
theory Chokepoint
  imports Gateway
begin

text \<open>
  The command, \<open>cmd/chokepoint/main.go\<close>: its command line, how it wires the policy, the
  gateway and the proxy together, and what it returns. Starting processes, opening files,
  logging and signal handling are not modelled; \<open>policy.Load\<close> and the observers are what they
  give.
\<close>

section \<open>The command line\<close>

record config =
  cf_policyPath :: bytes
  cf_mode :: bytes
  cf_window :: int
  cf_maxCalls :: int
  cf_logLevel :: bytes
  cf_metricsAddr :: bytes
  cf_otlpEndpoint :: bytes
  cf_otlpInsecure :: bool
  cf_auditLog :: bytes
  cf_report :: bool
  cf_showVersion :: bool
  cf_upstream :: "bytes list"

definition zero_config :: config where
  "zero_config = \<lparr>cf_policyPath = [], cf_mode = [], cf_window = 0, cf_maxCalls = 0, cf_logLevel = [], cf_metricsAddr = [],
     cf_otlpEndpoint = [], cf_otlpInsecure = False, cf_auditLog = [], cf_report = False, cf_showVersion = False, cf_upstream = []\<rparr>"

datatype args_error =
    RequiresValue bytes
  | UnknownOption bytes
  | BadMode policy_error
  | BadDuration bytes
  | BadNumber bytes
  | HelpRequested
  | ModeNeedsPolicy
  | NoUpstream

text \<open>\<open>fmt.Sscanf(raw, "%d", _)\<close>: blanks, a sign, digits; whatever follows is not looked at.\<close>

definition Sscanf_d :: "bytes \<Rightarrow> int option" where
  "Sscanf_d raw =
     (let s = strip_leading (filter (\<lambda>e. e \<noteq> [CHR 0x0A]) space_encodings) raw;
          sign = (if HasPrefix s ''-'' \<or> HasPrefix s ''+'' then take 1 s else [])
      in ParseInt64 (sign @ takeWhile is_digit (drop (length sign) s)))"

text \<open>The options that take a value, and those that do not.\<close>

definition value_option :: "bytes \<Rightarrow> (config \<Rightarrow> bytes \<Rightarrow> args_error + config) option" where
  "value_option arg =
     (if arg = ''--policy'' then Some (\<lambda>cfg v. Inr (cfg\<lparr>cf_policyPath := v\<rparr>))
      else if arg = ''--mode'' then Some (\<lambda>cfg v. case Mode_Valid v of Some e \<Rightarrow> Inl (BadMode e) | None \<Rightarrow> Inr (cfg\<lparr>cf_mode := v\<rparr>))
      else if arg = ''--log-level'' then Some (\<lambda>cfg v. Inr (cfg\<lparr>cf_logLevel := v\<rparr>))
      else if arg = ''--metrics-addr'' then Some (\<lambda>cfg v. Inr (cfg\<lparr>cf_metricsAddr := v\<rparr>))
      else if arg = ''--otlp-endpoint'' then Some (\<lambda>cfg v. Inr (cfg\<lparr>cf_otlpEndpoint := v\<rparr>))
      else if arg = ''--audit-log'' then Some (\<lambda>cfg v. Inr (cfg\<lparr>cf_auditLog := v\<rparr>))
      else if arg = ''--window'' then Some (\<lambda>cfg v. case ParseDuration v of None \<Rightarrow> Inl (BadDuration v) | Some d \<Rightarrow> Inr (cfg\<lparr>cf_window := d\<rparr>))
      else if arg = ''--max-calls'' then Some (\<lambda>cfg v. case Sscanf_d v of None \<Rightarrow> Inl (BadNumber v) | Some n \<Rightarrow> Inr (cfg\<lparr>cf_maxCalls := n\<rparr>))
      else None)"

definition flag_option :: "bytes \<Rightarrow> (config \<Rightarrow> config) option" where
  "flag_option arg =
     (if arg = ''--otlp-insecure'' then Some (\<lambda>cfg. cfg\<lparr>cf_otlpInsecure := True\<rparr>)
      else if arg = ''--report'' then Some (\<lambda>cfg. cfg\<lparr>cf_report := True\<rparr>)
      else if arg = ''--version'' \<or> arg = ''-v'' then Some (\<lambda>cfg. cfg\<lparr>cf_showVersion := True\<rparr>)
      else None)"

fun parse_flags :: "config \<Rightarrow> bytes list \<Rightarrow> args_error + config \<times> bytes list" where
  "parse_flags cfg [] = Inr (cfg, [])"
| "parse_flags cfg (arg # rest) =
     (if arg = ''--'' then Inr (cfg, rest)
      else if arg = ''--help'' \<or> arg = ''-h'' then Inl HelpRequested
      else case value_option arg of
        Some f \<Rightarrow>
          (case rest of
            [] \<Rightarrow> Inl (RequiresValue arg)
          | v # rest \<Rightarrow> (case f cfg v of Inl e \<Rightarrow> Inl e | Inr cfg \<Rightarrow> parse_flags cfg rest))
      | None \<Rightarrow>
          (case flag_option arg of
            Some f \<Rightarrow> parse_flags (f cfg) rest
          | None \<Rightarrow> Inl (UnknownOption arg)))"

definition parseArgs :: "bytes list \<Rightarrow> args_error + config" where
  "parseArgs args =
     (case parse_flags (zero_config\<lparr>cf_logLevel := ''info'', cf_maxCalls := DefaultMaxCalls\<rparr>) args of
       Inl e \<Rightarrow> Inl e
     | Inr (cfg, rest) \<Rightarrow>
         if cf_mode cfg \<noteq> [] \<and> cf_policyPath cfg = [] then Inl ModeNeedsPolicy
         else
           let cfg = cfg\<lparr>cf_upstream := rest\<rparr>
           in if \<not> cf_showVersion cfg \<and> cf_upstream cfg = [] then Inl NoUpstream else Inr cfg)"

section \<open>Wiring\<close>

definition load_mode :: "config \<Rightarrow> 'p policy \<Rightarrow> 'p policy" where
  "load_mode cfg pol = (if cf_mode cfg \<noteq> [] then pol\<lparr>pl_Mode := cf_mode cfg\<rparr> else pol)"

definition observed :: "config \<Rightarrow> bool" where
  "observed cfg \<longleftrightarrow> cf_auditLog cfg \<noteq> [] \<or> cf_metricsAddr cfg \<noteq> [] \<or> cf_otlpEndpoint cfg \<noteq> []"

definition run_gateway :: "('p, 'd, 'c, 's) gateway_env \<Rightarrow> config \<Rightarrow> 'p policy option \<Rightarrow> scope \<Rightarrow> ('p, 'd, 'c, 's) gateway_options" where
  "run_gateway env cfg pol sc =
     New_options (gateway_env.extend env
       \<lparr>go_Policy = pol, go_Weights = zero_weights, go_Scope = sc, go_Observer = observed cfg,
        go_Monitor = (case pol of None \<Rightarrow> False | Some p \<Rightarrow> pl_Mode p = ModeMonitor)\<rparr>)"

definition run_state :: "config \<Rightarrow> (nat \<Rightarrow> instant) \<Rightarrow> 's gateway" where
  "run_state cfg clock =
     New (Some (NewSession \<lparr>cfg_Window = cf_window cfg, cfg_MaxCalls = cf_maxCalls cfg, cfg_BusinessHoursStart = 0, cfg_BusinessHoursEnd = 0\<rparr>))
       None clock"

definition unparseableRecorder :: "('p, 'd, 'c, 's) gateway_options \<Rightarrow> ('s gateway \<Rightarrow> bool \<Rightarrow> parse_error \<Rightarrow> 's gateway) option" where
  "unparseableRecorder opts = (if go_Policy opts = None then None else Some (RecordUnparseable opts))"

definition run_proxy :: "('p, 'd, 'c, 's) gateway_options \<Rightarrow> 's gateway proxy_options" where
  "run_proxy opts =
     \<lparr>po_MaxMessageBytes = 0, po_Interceptor = Some (Intercept opts), po_DrainGrace = 0,
      po_RejectUnparseable = (case go_Policy opts of None \<Rightarrow> False
        | Some p \<Rightarrow> pl_Mode p = ModeEnforce \<or> HasAlwaysEnforce (Some p)),
      po_OnUnparseable = unparseableRecorder opts\<rparr>"

text \<open>The session's outcome: an error of the session, an error or exit code of the upstream, or
  success. \<open>cancelled\<close> is whether the run was cancelled by a signal.\<close>

datatype wait_result = Exited int | WaitFailed bytes

datatype run_result = Ok | SessionFailed session_error | UpstreamExit int | UpstreamFailed bytes

definition session_result :: "session_error option \<Rightarrow> wait_result option \<Rightarrow> bool \<Rightarrow> run_result" where
  "session_result runErr waitErr cancelled =
     (case runErr of
       Some e \<Rightarrow> SessionFailed e
     | None \<Rightarrow>
         (case (waitErr, cancelled) of
           (Some (Exited code), False) \<Rightarrow> if code > 0 then UpstreamExit code else Ok
         | (Some (WaitFailed e), False) \<Rightarrow> UpstreamFailed e
         | _ \<Rightarrow> Ok))"

definition exit_status :: "run_result \<Rightarrow> int" where
  "exit_status r = (case r of Ok \<Rightarrow> 0 | UpstreamExit code \<Rightarrow> code | _ \<Rightarrow> 1)"

section \<open>Guarantees of a session\<close>

lemma run_gateway_simps:
  "go_Policy (run_gateway env cfg pol sc) = pol" "go_Scope (run_gateway env cfg pol sc) = sc"
  "go_Monitor (run_gateway env cfg pol sc) = (case pol of None \<Rightarrow> False | Some p \<Rightarrow> pl_Mode p = ModeMonitor)"
  "go_Weights (run_gateway env cfg pol sc) = DefaultWeights" "go_Observer (run_gateway env cfg pol sc) = observed cfg"
  by (simp_all add: run_gateway_def New_options_def gateway_env.extend_def)

lemma run_guards: "guard.guards (Intercept opts) gateway_ok (run_proxy opts)"
  by (auto simp: gate.guards_def run_proxy_def unparseableRecorder_def gateway_ok_unparseable)

lemma run_state_ok: "gateway_ok (run_state cfg clock)"
  by (simp add: run_state_def New_def gateway_ok_def NewSession_ok)

definition start_system :: "('p, 'd, 'c, 's) gateway_options \<Rightarrow> config \<Rightarrow> (nat \<Rightarrow> instant) \<Rightarrow> bytes \<Rightarrow> bytes \<Rightarrow> 's gateway system" where
  "start_system opts cfg clock clientIn serverOut =
     NewSystem (run_proxy opts) clientIn serverOut \<lparr>wr_out = [], wr_broken = False\<rparr> \<lparr>wr_out = [], wr_broken = False\<rparr> (run_state cfg clock)"

lemma start_system_simps [simp]:
  "px_gateway (sy_proxy (start_system opts cfg clock cin sout)) = run_state cfg clock"
  "px_serverW (sy_proxy (start_system opts cfg clock cin sout)) = \<lparr>wr_out = [], wr_broken = False\<rparr>"
  "sy_errors (start_system opts cfg clock cin sout) = []"
  "remaining (start_system opts cfg clock cin sout) = length cin + length sout + 3"
  by (simp_all add: start_system_def NewSystem_def NewProxySession_def remaining_def NewReader_def)

text \<open>The call a message makes, and what the policy decides of it in a state of the gateway: the detector
  observes the call, and the policy is asked about what the session is then.\<close>

definition call_made :: "message \<Rightarrow> (bytes \<times> args \<times> bool) option" where
  "call_made msg =
     (if m_Method msg = methodToolsCall
      then map_option (\<lambda>(name, args). (name, args, True)) (if m_Params msg = [] then Some ([], None) else toolCallParams (m_Params msg))
      else if m_Method msg = methodResourcesRead
      then map_option (\<lambda>args. (m_Method msg, args, False)) (if m_Params msg = [] then Some None else decode_map (m_Params msg))
      else None)"

definition decision_on :: "('p, 'd, 'c, 's) gateway_options \<Rightarrow> 'p policy \<Rightarrow> 's gateway \<Rightarrow> message \<Rightarrow> decision option" where
  "decision_on opts p g msg =
     (case call_made msg of
       None \<Rightarrow> None
     | Some (name, args, tool) \<Rightarrow>
         let (now, g) = Now g in
         map_option (\<lambda>g. Evaluate (ge_eval opts) p (call_request opts g name (m_Method msg) args now))
           (observe (observed_call msg name args tool now) g))"

definition enforced_denial :: "'p policy \<Rightarrow> decision \<Rightarrow> bool" where
  "enforced_denial p d \<longleftrightarrow> dc_Effect d = EffectDeny \<and> (pl_Mode p \<noteq> ModeMonitor \<or> dc_AlwaysEnforce d)"

definition let_through :: "('p, 'd, 'c, 's) gateway_options \<Rightarrow> 'p policy \<Rightarrow> 's gateway \<Rightarrow> bytes \<Rightarrow> bool" where
  "let_through opts p g raw \<longleftrightarrow>
     (case Parse raw of
       Inl _ \<Rightarrow> False
     | Inr msg \<Rightarrow> \<not> unreadable opts msg \<and> (case decision_on opts p g msg of None \<Rightarrow> True | Some d \<Rightarrow> \<not> enforced_denial p d))"

text \<open>The gateway's state after a line, and the client's lines let through on the way.\<close>

definition state_after :: "('p, 'd, 'c, 's) gateway_options \<Rightarrow> 's gateway \<Rightarrow> label \<Rightarrow> 's gateway" where
  "state_after opts g l =
     (let seen = (\<lambda>dir msg. case Intercept opts g dir msg of Some (g', _) \<Rightarrow> g' | None \<Rightarrow> g) in
      case l of
        ClientLine raw \<Rightarrow> (case Parse raw of Inl e \<Rightarrow> RecordUnparseable opts g True e | Inr msg \<Rightarrow> seen ClientToServer msg)
      | ServerLine raw \<Rightarrow> (case Parse raw of Inl e \<Rightarrow> g | Inr msg \<Rightarrow> seen ServerToClient msg)
      | _ \<Rightarrow> g)"

fun passed_lines :: "('p, 'd, 'c, 's) gateway_options \<Rightarrow> 'p policy \<Rightarrow> 's gateway \<Rightarrow> label list \<Rightarrow> bytes list" where
  "passed_lines opts p g [] = []"
| "passed_lines opts p g (l # ls) =
     (case l of ClientLine raw \<Rightarrow> if let_through opts p g raw then [raw] else [] | _ \<Rightarrow> []) @
     passed_lines opts p (state_after opts g l) ls"

lemma passed_lines_append:
  "passed_lines opts p g (ls @ ls') = passed_lines opts p g ls @ passed_lines opts p (foldl (state_after opts) g ls) ls'"
  by (induction ls arbitrary: g) simp_all

lemma passed_subseq: "subseq (passed_lines opts p g ls) (client_lines ls)"
proof (induction ls arbitrary: g)
  case (Cons l ls)
  have e: "client_lines (l # ls) = (case l of ClientLine raw \<Rightarrow> [raw] | _ \<Rightarrow> []) @ client_lines ls" by (simp add: client_lines_def)
  show ?case
    unfolding e passed_lines.simps using Cons.IH [of "state_after opts g l"]
    by (intro list_emb_append_mono) (auto split: label.splits)
qed simp

lemma passed_readable:
  "list_all (\<lambda>m. case Parse m of Inl _ \<Rightarrow> False | Inr msg \<Rightarrow> \<not> unreadable opts msg) (passed_lines opts p g ls)"
  by (induction ls arbitrary: g) (auto simp: let_through_def split: label.splits sum.splits)

text \<open>The gateway's verdict on a client's message, under an enforced policy.\<close>

lemma call_made_inspected:
  assumes "\<not> unreadable opts msg"
  shows "Intercept opts g ClientToServer msg = (case call_made msg of
      Some (name, args, tool) \<Rightarrow> inspectCall opts msg name args tool g
    | None \<Rightarrow> inspect_method opts msg g)"
  using assms by (auto simp: unreadable_def Intercept_def inspectRequest_def inspect_method_def call_made_def split: option.splits)

lemma call_made_gated: "\<not> unreadable opts msg \<Longrightarrow> call_made msg \<noteq> None \<longleftrightarrow> gated opts msg"
  by (auto simp: unreadable_def gated_def call_made_def)

definition enforces :: "('p, 'd, 'c, 's) gateway_options \<Rightarrow> 'p policy \<Rightarrow> bool" where
  "enforces opts p \<longleftrightarrow> go_Policy opts = Some p \<and> go_Monitor opts = (pl_Mode p = ModeMonitor) \<and>
     (pl_Mode p = ModeEnforce \<or> HasAlwaysEnforce (Some p))"

lemma decided_verdict:
  assumes e: "enforces opts p" and "gateway_ok g" "Parse raw = Inr msg" "call_made msg = Some (name, args, tool)"
    "inspectCall opts msg name args tool g = Some (g', Inr v)" "decision_on opts p g msg = Some d"
  shows "sends v raw = (if enforced_denial p d then None else Some raw)"
proof -
  have policy: "go_Policy opts = Some p" and monitor: "go_Monitor opts = (pl_Mode p = ModeMonitor)"
    using e by (simp_all add: enforces_def)
  from assms(2) obtain g1 where g1: "observe (observed_call msg name args tool (fst (Now g))) (snd (Now g)) = Some g1"
    "inspectCall opts msg name args tool g =
      (let req = call_request opts g1 name (m_Method msg) args (fst (Now g))
       in Some (conclude opts msg req (gw_assess opts g1) (gw_evaluate opts req) g1))"
    by (rule inspectCall_runs)
  let ?req = "call_request opts g1 name (m_Method msg) args (fst (Now g))"
  have d: "gw_evaluate opts ?req = d"
    using assms(4,6) g1(1) policy by (simp add: decision_on_def gw_evaluate_def case_prod_beta Let_def)
  have "snd (conclude opts msg ?req (gw_assess opts g1) d g1) = Inr v" using assms(5) g1(2) d by (simp add: Let_def)
  moreover obtain reply where "reject opts (denialFor opts msg d (gw_assess opts g1) (rq_OutOfScope ?req)) =
      Inr \<lparr>in_Decision = Reject, in_Message = Some reply\<rparr>"
    unfolding denialFor_def Let_def using reject_ok [OF assms(3)] by blast
  ultimately show ?thesis
    by (auto simp: conclude_def Let_def enforced_denial_def monitor sends_def forward_def split: if_splits)
qed

lemma client_verdict:
  assumes e: "enforces opts p" and "gateway_ok g" "Parse raw = Inr msg" "Intercept opts g ClientToServer msg = Some (g', Inr v)"
  shows "sends v raw = (if let_through opts p g raw then Some raw else None)"
proof -
  obtain r: "if gated opts msg then \<exists>ev. carried_out opts msg ev g g' v \<and> (unreadable opts msg \<longrightarrow> refusal opts msg ev) else v = forward"
    using Intercept_client [OF assms(2,3), of opts] assms(4) by (auto split: if_splits)
  show ?thesis
  proof (cases "unreadable opts msg")
    case True
    then have "gated opts msg" by (simp add: gated_def)
    with r True obtain ev where "carried_out opts msg ev g g' v" "refusal opts msg ev" by auto
    moreover from this(2) have "stopped ev"
      using e by (auto simp: enforces_def refusal_def stopped_def ModeEnforce_def ModeMonitor_def)
    ultimately have "in_Decision v = Reject \<or> in_Decision v = Drop" by (auto simp: carried_out_def split: if_splits)
    with True show ?thesis by (auto simp: sends_def let_through_def assms(3))
  next
    case readable: False
    show ?thesis
    proof (cases "call_made msg")
      case None
      then have "v = forward" "decision_on opts p g msg = None"
        using call_made_gated [OF readable] r by (auto simp: decision_on_def)
      with readable show ?thesis by (simp add: sends_def forward_def let_through_def assms(3))
    next
      case (Some call)
      obtain name args tool where call: "call = (name, args, tool)" by (cases call)
      have i: "inspectCall opts msg name args tool g = Some (g', Inr v)"
        using assms(4) call_made_inspected [OF readable, of g] Some call by simp
      from assms(2) obtain g1 where "observe (observed_call msg name args tool (fst (Now g))) (snd (Now g)) = Some g1"
        by (rule inspectCall_runs)
      then have "\<exists>d. decision_on opts p g msg = Some d"
        using Some call by (simp add: decision_on_def case_prod_beta Let_def)
      then obtain d where "decision_on opts p g msg = Some d" by blast
      with decided_verdict [OF assms(1-3) _ i] Some call readable show ?thesis by (simp add: let_through_def assms(3))
    qed
  qed
qed

lemma handled_line:
  assumes en: "enforces opts p" and "gateway_ok (px_gateway s)" "handle (run_proxy opts) dir raw s = Some (s', e)"
    "l = (case dir of ClientToServer \<Rightarrow> ClientLine raw | ServerToClient \<Rightarrow> ServerLine raw)"
  shows "px_gateway s' = state_after opts (px_gateway s) l" "gateway_ok (px_gateway s')"
    "px_serverW s' = (if dir = ClientToServer \<and> let_through opts p (px_gateway s) raw then put raw (px_serverW s) else px_serverW s)"
proof -
  have guarded: "gateway_ok (px_gateway s')" "dir = ServerToClient \<Longrightarrow> px_serverW s' = px_serverW s"
    using gate.handle_guarded [OF run_guards assms(2), of opts dir raw] assms(3) by auto
  then show "gateway_ok (px_gateway s')" by simp
  have refuse: "po_RejectUnparseable (run_proxy opts)" "po_OnUnparseable (run_proxy opts) = Some (RecordUnparseable opts)"
    "po_Interceptor (run_proxy opts) = Some (Intercept opts)"
    using en by (auto simp: enforces_def run_proxy_def unparseableRecorder_def)
  have "px_gateway s' = state_after opts (px_gateway s) l \<and>
    (dir = ClientToServer \<longrightarrow> onward (run_proxy opts) (px_gateway s) raw = (if let_through opts p (px_gateway s) raw then Some raw else None))"
  proof (cases "Parse raw")
    case (Inl err)
    have "px_gateway s' = (if dir = ClientToServer then RecordUnparseable opts (px_gateway s) True err else px_gateway s)"
      using assms(3) Inl refuse
      by (cases dir) (auto simp: handle_eq handle_unparseable_def parse_error_reply write_dst_eq reportError_def)
    then show ?thesis
      using refuse(1) by (cases dir) (simp_all add: assms(4) state_after_def Inl onward_def let_through_def)
  next
    case (Inr msg)
    obtain g' v where i: "Intercept opts (px_gateway s) dir msg = Some (g', Inr v)"
      using gate.decides [OF assms(2) Inr] by blast
    then have c: "consult (run_proxy opts) (px_gateway s) dir msg = Some (g', Inr v)" by (simp add: consult_def refuse(3))
    with assms(3) Inr have "route dir msg raw v ((settled dir msg s)\<lparr>px_gateway := g'\<rparr>) = (s', e)" by (simp add: handle_eq)
    then have "px_gateway s' = g'" using route_effect(3) by fastforce
    moreover have "dir = ClientToServer \<longrightarrow> sends v raw = (if let_through opts p (px_gateway s) raw then Some raw else None)"
      using client_verdict [OF en assms(2) Inr] i by blast
    ultimately show ?thesis using i c by (cases dir) (simp_all add: assms(4) state_after_def Inr onward_def)
  qed
  with handle_client(1) [of "run_proxy opts" raw s s' e] assms(3) guarded(2)
  show "px_gateway s' = state_after opts (px_gateway s) l"
    "px_serverW s' = (if dir = ClientToServer \<and> let_through opts p (px_gateway s) raw then put raw (px_serverW s) else px_serverW s)"
    by (cases dir; auto)+
qed

lemma run_passes:
  assumes "session_run (run_proxy opts) sy0 ls sy" "enforces opts p" "gateway_ok (px_gateway (sy_proxy sy0))" "\<not> wr_broken (px_serverW (sy_proxy sy0))"
  shows "gateway_ok (px_gateway (sy_proxy sy)) \<and> \<not> wr_broken (px_serverW (sy_proxy sy)) \<and>
    px_gateway (sy_proxy sy) = foldl (state_after opts) (px_gateway (sy_proxy sy0)) ls \<and>
    wr_out (px_serverW (sy_proxy sy)) = wr_out (px_serverW (sy_proxy sy0)) @ lines (passed_lines opts p (px_gateway (sy_proxy sy0)) ls)"
  using assms
proof (induction rule: session_run.induct)
  case (step ls sy1 l sy2)
  note hyp = step.IH [OF step.prems]
  from step.hyps(2) show ?case
  proof (cases rule: session_step.cases)
    case (client_line raw r px e)
    with handled_line [OF step.prems(1) _ client_line(5) refl] hyp show ?thesis by (auto simp: passed_lines_append)
  next
    case (server_line raw r px e)
    with handled_line [OF step.prems(1) _ server_line(5) refl] hyp show ?thesis by (auto simp: passed_lines_append)
  qed (use hyp in \<open>auto simp: passed_lines_append state_after_def\<close>)
qed simp

lemma run_gateway_enforced:
  assumes "opts = run_gateway env cfg (Some p) sc" "pl_Mode p = ModeEnforce \<or> HasAlwaysEnforce (Some p)"
  shows "enforces opts p"
  using assms by (simp add: enforces_def run_gateway_simps)

text \<open>
  C1: An enforced policy is not bypassed: in every session, for every interleaving of the two
  pumps and whatever the agent and the server send, what the server has been handed is exactly the
  client's lines that were let through, in order and unmodified. A line is let through when it parses,
  has no keys a second parser could read differently, decodes as the call it makes, and the policy, asked
  about that call in the state the session had reached, does not deny it or denies it in monitor mode by a
  rule that is not always enforced. The session reports no error other than of reading or writing a stream.\<close>

theorem enforced_session_is_safe:
  assumes "session_run (run_proxy opts) (start_system opts cfg clock cin sout) ls sy"
    "opts = run_gateway env cfg (Some p) sc" "pl_Mode p = ModeEnforce \<or> HasAlwaysEnforce (Some p)"
  shows "wr_out (px_serverW (sy_proxy sy)) = lines (passed_lines opts p (run_state cfg clock) ls) \<and>
    subseq (passed_lines opts p (run_state cfg clock) ls) (client_lines ls) \<and>
    list_all (\<lambda>m. case Parse m of Inl _ \<Rightarrow> False | Inr msg \<Rightarrow> \<not> unreadable opts msg) (passed_lines opts p (run_state cfg clock) ls) \<and>
    set (sy_errors sy) \<subseteq> {WriteFailed} \<union> range (\<lambda>(dir, e). ReadError dir e)"
proof -
  have "set (sy_errors sy) \<subseteq> {WriteFailed} \<union> range (\<lambda>(dir, e). ReadError dir e)"
    using gate.run_guarded [OF assms(1) run_guards] run_state_ok by (auto simp del: Un_insert_left)
  moreover have "wr_out (px_serverW (sy_proxy sy)) = lines (passed_lines opts p (run_state cfg clock) ls)"
    using run_passes [OF assms(1) run_gateway_enforced [OF assms(2,3)]] by (simp add: run_state_ok)
  ultimately show ?thesis using passed_subseq [of opts p] passed_readable [of opts p] by blast
qed

text \<open>
  C24: Sessions end: a session over finite streams takes at most one step per byte and three
  more, it never gets stuck, and when nothing can happen any more the server's input is closed
  and the session is over.\<close>

theorem session_terminates:
  assumes "session_run (run_proxy opts) (start_system opts cfg clock cin sout) ls sy"
  shows "length ls \<le> length cin + length sout + 3 \<and>
    ((\<exists>l sy'. session_step (run_proxy opts) sy l sy') \<or> (sy_phase sy = InputClosed \<and> sy_done sy))"
  using gate.session_ends [OF assms run_guards] run_state_ok by auto

text \<open>
  C4: No request is lost: a request the proxy handles is either on the server's input, as it
  was sent and with its id waiting for the answer, or the agent has been sent a reply and the
  server has been sent nothing.\<close>

theorem request_forwarded_or_answered:
  assumes "gateway_ok (px_gateway s)" "Parse raw = Inr msg" "IsRequest msg"
  shows "\<exists>s' e. handle (run_proxy opts) ClientToServer raw s = Some (s', e) \<and>
    (px_serverW s' = put raw (px_serverW s) \<and> IDKey msg \<in> set (px_pending s') \<or>
     (\<exists>reply. px_clientW s' = put reply (px_clientW s)) \<and> px_serverW s' = px_serverW s)"
proof -
  obtain s' e where "handle (run_proxy opts) ClientToServer raw s = Some (s', e)"
    using gate.handle_guarded [OF run_guards assms(1)] by blast
  with gate.request_not_lost [OF run_guards assms this] show ?thesis by blast
qed

section \<open>Guarantees of the command line\<close>

text \<open>What may stand before the \<open>--\<close>: options, each followed by its value if it takes one, which may be any
  word, \<open>--\<close> included.\<close>

fun option_words :: "bytes list \<Rightarrow> bool" where
  "option_words [] \<longleftrightarrow> True"
| "option_words (a # as) \<longleftrightarrow>
     (if a \<in> {''--policy'', ''--mode'', ''--log-level'', ''--metrics-addr'', ''--otlp-endpoint'', ''--audit-log'', ''--window'', ''--max-calls''}
      then (case as of [] \<Rightarrow> False | v # as \<Rightarrow> option_words as)
      else a \<in> {''--otlp-insecure'', ''--report'', ''--version'', ''-v''} \<and> option_words as)"

lemma value_option_words: "value_option arg \<noteq> None \<longleftrightarrow>
    arg \<in> {''--policy'', ''--mode'', ''--log-level'', ''--metrics-addr'', ''--otlp-endpoint'', ''--audit-log'', ''--window'', ''--max-calls''}"
  by (simp add: value_option_def)

lemma flag_option_words: "flag_option arg \<noteq> None \<longleftrightarrow> arg \<in> {''--otlp-insecure'', ''--report'', ''--version'', ''-v''}"
  by (simp add: flag_option_def)

lemma option_words_value: "value_option a \<noteq> None \<Longrightarrow> option_words (a # v # as) \<longleftrightarrow> option_words as"
  unfolding value_option_words by simp

lemma option_words_flag: "value_option a = None \<Longrightarrow> flag_option a \<noteq> None \<Longrightarrow> option_words (a # as) \<longleftrightarrow> option_words as"
  using value_option_words [of a] unfolding flag_option_words by simp

lemma value_option_mode:
  assumes "value_option arg = Some f" "f cfg v = Inr cfg'" "cf_mode cfg \<in> {[], ModeEnforce, ModeMonitor}"
  shows "cf_mode cfg' \<in> {[], ModeEnforce, ModeMonitor}"
  using assms by (auto simp: value_option_def Mode_Valid_def split: if_splits option.splits)

definition cut_by_dashes :: "bytes list \<Rightarrow> bytes list \<Rightarrow> bool" where
  "cut_by_dashes args rest \<longleftrightarrow> (\<exists>opts. option_words opts \<and> (args = opts @ ''--'' # rest \<or> (args = opts \<and> rest = [])))"

lemma cut_by_dashes_step:
  "cut_by_dashes args rest \<Longrightarrow> value_option a \<noteq> None \<Longrightarrow> cut_by_dashes (a # v # args) rest"
  "cut_by_dashes args rest \<Longrightarrow> value_option a = None \<Longrightarrow> flag_option a \<noteq> None \<Longrightarrow> cut_by_dashes (a # args) rest"
  unfolding cut_by_dashes_def using option_words_value option_words_flag by (metis append_Cons)+

lemma parse_flags_ok:
  "parse_flags cfg args = Inr (cfg', rest) \<Longrightarrow> cf_mode cfg \<in> {[], ModeEnforce, ModeMonitor} \<Longrightarrow>
    cf_mode cfg' \<in> {[], ModeEnforce, ModeMonitor} \<and> cut_by_dashes args rest"
proof (induction cfg args rule: parse_flags.induct)
  case (1 cfg)
  then show ?case by (auto simp: cut_by_dashes_def intro: exI [of _ "[]"])
next
  case (2 cfg arg rest0)
  consider "arg = ''--''" | f v vs cfg1 where "value_option arg = Some f" "arg \<noteq> ''--''" "rest0 = v # vs" "f cfg v = Inr cfg1"
      "parse_flags cfg1 vs = Inr (cfg', rest)"
    | f where "value_option arg = None" "arg \<noteq> ''--''" "flag_option arg = Some f" "parse_flags (f cfg) rest0 = Inr (cfg', rest)"
    using "2.prems"(1) by (auto split: if_splits option.splits list.splits sum.splits)
  then show ?case
  proof cases
    case 1
    with "2.prems" show ?thesis by (auto simp: cut_by_dashes_def intro: exI [of _ "[]"])
  next
    case (2 f v vs cfg1)
    with "2.prems" value_option_mode have m: "cf_mode cfg1 \<in> {[], ModeEnforce, ModeMonitor}" by blast
    have "arg \<noteq> ''--help'' \<and> arg \<noteq> ''-h''" using "2.prems"(1) 2(2) by auto
    with "2.IH"(2) [OF _ _ 2(1,3,4,5) m] 2(1-3) show ?thesis by (simp add: cut_by_dashes_step(1))
  next
    case (3 f)
    have m: "cf_mode (f cfg) = cf_mode cfg" using 3(3) by (auto simp: flag_option_def split: if_splits)
    have "arg \<noteq> ''--help'' \<and> arg \<noteq> ''-h''" using "2.prems"(1) 3(2) by auto
    with "2.IH"(1) [OF _ _ 3(1,3,4)] m "2.prems"(2) 3(1-3) show ?thesis by (simp add: cut_by_dashes_step(2))
  qed
qed

text \<open>
  C25: A command line that is accepted describes a run: it is a sequence of known options with their
  values and, after the first \<open>--\<close> that is not itself a value, the upstream command, which is taken word
  for word and is not empty unless the version was asked for; a mode is one of the two there are, and no
  mode is set without a policy to apply it to.\<close>

theorem accepted_command_line:
  assumes "parseArgs args = Inr cfg"
  shows "(\<exists>opts. option_words opts \<and> (args = opts @ ''--'' # cf_upstream cfg \<or> (args = opts \<and> cf_upstream cfg = []))) \<and>
    (cf_upstream cfg \<noteq> [] \<or> cf_showVersion cfg) \<and>
    cf_mode cfg \<in> {[], ModeEnforce, ModeMonitor} \<and> (cf_mode cfg = [] \<or> cf_policyPath cfg \<noteq> [])"
proof -
  obtain c rest where p: "parse_flags (zero_config\<lparr>cf_logLevel := ''info'', cf_maxCalls := DefaultMaxCalls\<rparr>) args = Inr (c, rest)"
    using assms by (auto simp: parseArgs_def split: sum.splits)
  from parse_flags_ok [OF p] have "cf_mode c \<in> {[], ModeEnforce, ModeMonitor} \<and> cut_by_dashes args rest" by (simp add: zero_config_def)
  with assms p show ?thesis by (auto simp: parseArgs_def Let_def cut_by_dashes_def split: if_splits)
qed

text \<open>A number with a unit is taken for the number before it.\<close>

lemma max_calls_unit_ignored: "Sscanf_d ''10k'' = Some 10"
  by code_simp

lemma accepted_command_line_witness:
  "\<exists>cfg opts. parseArgs [''--policy'', ''p.yaml'', ''--mode'', ''monitor'', ''--'', ''npx'', ''--mode''] = Inr cfg \<and>
    option_words opts \<and> opts @ ''--'' # cf_upstream cfg = [''--policy'', ''p.yaml'', ''--mode'', ''monitor'', ''--'', ''npx'', ''--mode''] \<and>
    cf_mode cfg = ''monitor''"
proof -
  let ?cfg = "zero_config\<lparr>cf_logLevel := ''info'', cf_maxCalls := DefaultMaxCalls, cf_policyPath := ''p.yaml'',
    cf_mode := ''monitor'', cf_upstream := [''npx'', ''--mode'']\<rparr>"
  have "parseArgs [''--policy'', ''p.yaml'', ''--mode'', ''monitor'', ''--'', ''npx'', ''--mode''] = Inr ?cfg"
    by (simp add: parseArgs_def value_option_def Mode_Valid_def ModeEnforce_def ModeMonitor_def zero_config_def)
  with accepted_command_line [OF this] show ?thesis by (intro exI [of _ ?cfg]) auto
qed
section \<open>An example session\<close>

definition example_run_options :: "(bytes, bytes, bytes, bytes) gateway_options" where
  "example_run_options = run_gateway (gateway_env.truncate (example_options None)) zero_config (Some guarded_policy) \<lparr>sc_entries = []\<rparr>"

definition example_start :: "bytes gateway system" where
  "example_start = start_system example_run_options zero_config int (lines [call_raw example_params]) []"

lemma example_first_step:
  "\<exists>sy. session_run (run_proxy example_run_options) example_start [ClientLine (call_raw example_params)] sy"
proof -
  let ?raw = "call_raw example_params"
  have "framed DefaultMaxMessageBytes ?raw" using example_framed(1) by (simp add: framed_def DefaultMaxMessageBytes_def)
  then have c: "holds (sy_client example_start) [?raw]" "sy_phase example_start = Pumping"
    by (simp_all add: example_start_def start_system_def NewSystem_def NewReader_def holds_def run_proxy_def)
  obtain res r where r: "ReadRaw (sy_client example_start) = (res, r)" by force
  with read_holds [OF c(1)] have "res = Inr ?raw" by auto
  moreover have "gateway_ok (px_gateway (sy_proxy example_start))" by (simp add: example_start_def run_state_ok)
  then obtain px e where "handle (run_proxy example_run_options) ClientToServer ?raw (sy_proxy example_start) = Some (px, e)"
    using gate.handle_guarded [OF run_guards] by blast
  ultimately show ?thesis
    using session_run.step [OF session_run.start session_step.client_line [OF c(2)]] r by fastforce
qed

lemma example_stopped: "\<not> let_through example_run_options guarded_policy (run_state zero_config int) (call_raw example_params)"
proof -
  let ?g = "run_state zero_config int :: bytes gateway" and ?args = "Some [(''path'', JStr ''/etc/shadow'')]"
  have call: "call_made (call_message example_params) = Some (''read'', ?args, True)"
    by (simp add: call_made_def example_decodes)
  obtain g1 where "observe (observed_call (call_message example_params) ''read'' ?args True (fst (Now ?g))) (snd (Now ?g)) = Some g1"
    using inspectCall_runs [OF run_state_ok] by metis
  then have "decision_on example_run_options guarded_policy ?g (call_message example_params) = Some
      (Evaluate example_eval guarded_policy (call_request example_run_options g1 ''read'' (m_Method (call_message example_params)) ?args (fst (Now ?g))))"
    by (simp add: decision_on_def call case_prod_beta Let_def) (simp add: example_run_options_def run_gateway_def New_options_def
        gateway_env.defs example_options_def)
  moreover have "enforced_denial guarded_policy
      (Evaluate example_eval guarded_policy (call_request example_run_options g1 ''read'' (m_Method (call_message example_params)) ?args (fst (Now ?g))))"
    by (simp add: enforced_denial_def Evaluate_def evaluate_rules_eq first_match_def guarded_policy_decides)
      (simp add: example_guard_def example_rule_def guarded_policy_def example_compiled_def ModeEnforce_def ModeMonitor_def)
  ultimately show ?thesis by (simp add: let_through_def example_read(1))
qed

lemma enforced_session_is_safe_witness:
  "\<exists>sy. session_run (run_proxy example_run_options) example_start [ClientLine (call_raw example_params)] sy \<and>
    wr_out (px_serverW (sy_proxy sy)) = []"
proof -
  obtain sy where run: "session_run (run_proxy example_run_options) example_start [ClientLine (call_raw example_params)] sy"
    using example_first_step by blast
  have "pl_Mode guarded_policy = ModeEnforce" by (simp add: guarded_policy_def example_compiled_def)
  with enforced_session_is_safe [OF run [unfolded example_start_def] example_run_options_def] run example_stopped show ?thesis
    by auto
qed

lemma session_terminates_witness:
  "\<exists>sy. session_run (run_proxy example_run_options) example_start [ClientLine (call_raw example_params)] sy \<and>
    1 \<le> length (lines [call_raw example_params]) + 3"
proof -
  obtain sy where run: "session_run (run_proxy example_run_options) example_start [ClientLine (call_raw example_params)] sy"
    using example_first_step by blast
  from session_terminates [OF run [unfolded example_start_def]] run show ?thesis by auto
qed

lemma request_forwarded_or_answered_witness:
  "\<exists>s' e. handle (run_proxy example_run_options) ClientToServer (call_raw example_params) (sy_proxy example_start) = Some (s', e)"
proof -
  have "gateway_ok (px_gateway (sy_proxy example_start))" by (simp add: example_start_def run_state_ok)
  moreover have "IsRequest (call_message example_params)" by (simp add: call_message_def IsRequest_def)
  ultimately show ?thesis
    using request_forwarded_or_answered [OF _ example_read(1), of "sy_proxy example_start" example_run_options] by blast
qed

end
