(* ===== verification/GoJsonLine.thy ===== *)
theory GoJsonLine
  imports Codec JsonRpc
begin

text \<open>
  What a log of JSON values, one a line, rests on: decimal numbers read back, an encoded value holds
  no newline, its length is bounded, and no proper prefix of an encoded object is JSON.
\<close>

section \<open>Numbers read back\<close>

lemma digits_value_snoc: "digits_value a s = Some v \<Longrightarrow> d < 10 \<Longrightarrow> digits_value a (s @ [digit_char d]) = Some (10 * v + d)"
  by (induction s arbitrary: a) (auto simp: digit_char_def is_digit_def byte_def split: if_splits)

lemma digits_value_nat: "digits_value 0 (nat_digits n) = Some n"
proof (induction n rule: nat_digits.induct)
  case (1 n)
  show ?case
  proof (cases "n < 10")
    case True
    then show ?thesis using digits_value_snoc [of 0 "[]" 0 n] by (simp add: nat_digits.simps [of n])
  next
    case False
    with 1 have "digits_value 0 (nat_digits (n div 10)) = Some (n div 10)" by simp
    with digits_value_snoc [OF this, of "n mod 10"] False show ?thesis by (simp add: nat_digits.simps [of n])
  qed
qed

lemma nat_digits_no_sign: "\<not> HasPrefix (nat_digits n) ''-''" "\<not> HasPrefix (nat_digits n) ''+''"
  using nat_digits_shape [of n] by (auto simp: prefix_hd is_digit_def byte_def dest!: hd_in_set)

definition int64 :: "int \<Rightarrow> bool" where
  "int64 i \<longleftrightarrow> - (2 ^ 63) \<le> i \<and> i < 2 ^ 63"

lemma ParseInt64_Itoa: "int64 i \<Longrightarrow> ParseInt64 (Itoa i) = Some i"
  using nat_digits_shape [of "nat i"] nat_digits_shape [of "nat (- i)"]
  by (auto simp: ParseInt64_def Itoa_def digits_value_nat nat_digits_no_sign prefix_head int64_def Let_def)

section \<open>Lines\<close>

lemma newline_plain: "is_hex h \<Longrightarrow> h \<noteq> newline" "simple_escape e \<Longrightarrow> e \<noteq> newline" "\<not> byte c < 32 \<Longrightarrow> c \<noteq> newline"
  "newline \<noteq> CHR 0x5C" "newline \<noteq> CHR ''u''"
  by (auto simp: is_hex_def is_digit_def simple_escape_def byte_def newline_def)

lemma scan_string_printable: "scan_string s = Some (q, r) \<Longrightarrow> newline \<notin> set q"
proof (induction s arbitrary: q rule: scan_string.induct)
  case (2 c s)
  consider "c = CHR 0x22" | e s' where "c = CHR 0x5C" "s = e # s'" "simple_escape e"
    | h1 h2 h3 h4 s' where "c = CHR 0x5C" "s = CHR ''u'' # h1 # h2 # h3 # h4 # s'" "\<not> simple_escape CHR ''u''"
        "is_hex h1 \<and> is_hex h2 \<and> is_hex h3 \<and> is_hex h4"
    | "c \<noteq> CHR 0x22" "c \<noteq> CHR 0x5C" "\<not> byte c < 0x20"
    using "2.prems" by (auto split: if_splits list.splits)
  then show ?case
  proof cases
    case 1
    with "2.prems" show ?thesis by auto
  next
    case 2
    with "2.prems" obtain q' where "scan_string s' = Some (q', r)" "q = c # e # q'" by auto
    with "2.IH"(1) 2 newline_plain(2) [of newline] show ?thesis by (auto simp: newline_plain)
  next
    case 3
    with "2.prems" obtain q' where "scan_string s' = Some (q', r)" "q = c # CHR ''u'' # h1 # h2 # h3 # h4 # q'" by auto
    with "2.IH"(2) 3 newline_plain(1) [of newline] show ?thesis by (auto simp: newline_plain)
  next
    case 4
    with "2.prems" obtain q' where "scan_string s = Some (q', r)" "q = c # q'" by auto
    with "2.IH"(3) 4 newline_plain(3) [of newline] show ?thesis by (auto simp: newline_plain)
  qed
qed simp

lemma encode_string_printable: "newline \<notin> set (encode_string s)"
  using scan_string_printable [OF scan_escape_string [of s "[]"]] by (simp add: encode_string_def newline_def)

lemma number_printable: "number_ok n \<Longrightarrow> newline \<notin> set n"
  using number_chars [of n n "[]"] by (auto simp: number_ok_def list_all_iff number_char_def is_digit_def byte_def newline_def)

lemma encode_printable:
  "valid_json d j \<Longrightarrow> newline \<notin> set (encode_json j)"
  "list_all (valid_json d) es \<Longrightarrow> newline \<notin> set (encode_elems es)"
  "list_all (\<lambda>(k, v). valid_json d v) ms \<Longrightarrow> newline \<notin> set (encode_members ms)"
proof (induction j and es and ms arbitrary: d and d and d rule: encode_json_encode_elems_encode_members.induct)
  case (3 n)
  then show ?case by (simp add: number_printable)
next
  case (4 s)
  then show ?case by (simp add: encode_string_printable)
next
  case (6 ms)
  then have "list_all (\<lambda>(k, v). valid_json (d - 1) v) ms" by (auto simp: list_all_iff)
  with "6.IH" show ?case by (simp add: newline_def)
qed (auto simp: newline_def encode_string_printable [unfolded newline_def])

lemma ascii_prefix_utf8: "list_all (\<lambda>c. byte c < 0x80) p \<Longrightarrow> valid_utf8 (p @ s) = valid_utf8 s"
proof (induction p)
  case (Cons c p)
  then have "utf8_len (c # p @ s) = 1" by (simp add: Let_def)
  with Cons show ?case by (subst valid_utf8.simps) simp
qed simp

lemma ascii_utf8: "list_all (\<lambda>c. byte c < 0x80) p \<Longrightarrow> valid_utf8 p"
  using ascii_prefix_utf8 [of p "[]"] by (simp add: valid_utf8.simps [of "[]"])

lemma Itoa_utf8: "valid_utf8 (Itoa i)"
proof (rule ascii_utf8)
  have "list_all (\<lambda>c. byte c < 0x80) (nat_digits n)" for n
    using nat_digits_shape [of n] by (auto simp: list_all_iff is_digit_def)
  then show "list_all (\<lambda>c. byte c < 0x80) (Itoa i)" by (simp add: Itoa_def byte_def)
qed

lemma valid_json_depth: "valid_json d j \<Longrightarrow> d \<le> e \<Longrightarrow> valid_json e j"
proof (induction d j arbitrary: e rule: valid_json.induct)
  case (3 d es)
  then have "valid_json (e - 1) x" if "x \<in> set es" for x using that by (auto simp: list_all_iff)
  with 3 show ?case by (auto simp: list_all_iff)
next
  case (4 d ms)
  then have "valid_json (e - 1) v" if "(k, v) \<in> set ms" for k v using that by (fastforce simp: list_all_iff)
  with 4 show ?case by (auto simp: list_all_iff)
qed simp_all

text \<open>A bound on the length of an encoded value.\<close>

lemma escape_bound: "length (escape_string s) \<le> 6 * length s"
proof (induction "length s" arbitrary: s rule: less_induct)
  case less
  have "\<exists>a t. escape_string s = a @ escape_string t \<and> length a + 6 * length t \<le> 6 * length s \<and> length t < length s" if "s \<noteq> []"
  proof (cases rule: utf8_len_cases [of s])
    case 1
    with that obtain c r where s: "s = c # r" "\<not> byte c < 0x80" by (cases s) (auto simp: Let_def split: if_splits)
    from escape_invalid [OF s 1] show ?thesis by (intro exI [of _ "CHR 0x5C # ''ufffd''"] exI [of _ r]) (simp add: s)
  next
    case (2 c r)
    then show ?thesis by (intro exI [of _ "escape_ascii c"] exI [of _ r]) (simp add: escape_ascii_step escape_ascii_def)
  next
    case 3
    have d: "length (drop (utf8_len s) s) = length s - utf8_len s" "length (take (utf8_len s) s) = utf8_len s"
      using 3(3) by simp_all
    from 3(2) show ?thesis
    proof (cases rule: escape_multi)
      case 1
      then show ?thesis using d 3(2,3) by - (rule exI [of _ "CHR 0x5C # ''u2028''"], rule exI [of _ "drop (utf8_len s) s"], simp, arith)
    next
      case 2
      then show ?thesis using d 3(2,3) by - (rule exI [of _ "CHR 0x5C # ''u2029''"], rule exI [of _ "drop (utf8_len s) s"], simp, arith)
    next
      case 3
      then show ?thesis using d \<open>utf8_len s \<le> length s\<close> \<open>2 \<le> utf8_len s\<close> by (intro exI conjI) (assumption, simp_all)
    qed
  qed
  then show ?case using less by (cases "s = []") fastforce+
qed

fun json_bound :: "json \<Rightarrow> nat" where
  "json_bound (JNum n) = length n"
| "json_bound (JStr s) = 6 * length s + 2"
| "json_bound (JArr es) = sum_list (map (\<lambda>e. json_bound e + 1) es) + 2"
| "json_bound (JObj ms) = sum_list (map (\<lambda>(k, v). 6 * length k + 4 + json_bound v) ms) + 2"
| "json_bound j = 5"

lemma encode_bound:
  "length (encode_json j) \<le> json_bound j"
  "length (encode_elems es) \<le> sum_list (map (\<lambda>e. json_bound e + 1) es)"
  "length (encode_members ms) \<le> sum_list (map (\<lambda>(k, v). 6 * length k + 4 + json_bound v) ms)"
proof (induction j and es and ms rule: encode_json_encode_elems_encode_members.induct)
  case (4 s)
  then show ?case using escape_bound [of s] by (simp add: encode_string_def)
next
  case (10 k v ms)
  then show ?case using escape_bound [of k] by (cases "ms = []") (simp_all add: encode_string_def)
qed auto

section \<open>Prefixes\<close>

lemma skip_ws_append: "skip_ws s \<noteq> [] \<Longrightarrow> skip_ws (s @ x) = skip_ws s @ x"
  by (auto simp: skip_ws_def dropWhile_append)

lemma object_value_local:
  assumes "parse_value d (CHR ''{'' # s) = Some (v, r)"
  shows "parse_value d (CHR ''{'' # s @ x) = Some (v, r @ x)"
proof (cases "HasPrefix (skip_ws s) ''}''")
  case True
  then obtain y where y: "skip_ws s = CHR ''}'' # y" by (cases "skip_ws s") (auto simp: HasPrefix_def)
  then have "skip_ws (s @ x) = CHR ''}'' # y @ x" by (simp add: skip_ws_append)
  with assms y show ?thesis
    by (subst parse_value.simps, subst (asm) parse_value.simps) (auto simp: HasPrefix_def split: if_splits)
next
  case False
  with assms obtain ms where d: "0 < d" and m: "parse_members (d - 1) (skip_ws s) = Some (ms, r)"
    and v: "v = JObj (map (\<lambda>(k, _, v). (k, v)) ms)"
    by (subst (asm) parse_value.simps) (auto split: if_splits)
  from parse_local(3) [OF m] obtain u where u: "skip_ws s = u @ r" "u \<noteq> []" "\<And>t. parse_members (d - 1) (u @ t) = Some (ms, t)"
    by blast
  then have a: "skip_ws (s @ x) = u @ r @ x" by (simp add: skip_ws_append)
  have "\<not> HasPrefix (u @ r @ x) ''}''" using False u(1,2) by (cases u) (auto simp: HasPrefix_def)
  with d v u(3) show ?thesis by (subst parse_value.simps) (simp add: a)
qed

text \<open>A proper prefix of an encoded object is not JSON.\<close>

lemma torn_object:
  assumes "valid_json max_depth (JObj ms)" "encode_json (JObj ms) = p @ x" "x \<noteq> []"
  shows "parse_json p = None"
proof (cases p)
  case Nil
  then show ?thesis by (simp add: parse_json_def skip_ws_def)
next
  case (Cons c s)
  with assms(2) have p: "p = CHR ''{'' # s" by simp
  have full: "parse_value max_depth (p @ x) = Some (JObj ms, [])"
    using encode_parses [OF assms(1)] assms(2) by (auto simp: parses_def dest: spec [of _ "[]"])
  show ?thesis
  proof (cases "parse_value max_depth p")
    case None
    then show ?thesis by (simp add: parse_json_def p skip_ws_Cons is_ws_def)
  next
    case (Some vr)
    then obtain v r where "parse_value max_depth (CHR ''{'' # s) = Some (v, r)" by (cases vr) (auto simp: p)
    from object_value_local [OF this, of x] full assms(3) show ?thesis by (simp add: p)
  qed
qed

end
