(* ===== verification/AuditLog.thy ===== *)
theory AuditLog
  imports Gateway GoJsonLine
begin

text \<open>
  The audit log, \<open>internal/audit\<close>: the attributes of a decision, the OTLP/JSON line written for
  it, and the reader. A \<open>float64\<close> is printed by the parameter \<open>ft\<close>; span ids, clock readings and the
  outcome of each write are arguments. The lemmas read the log back, whole and torn.
\<close>

section \<open>Attributes\<close>

datatype attr_value = AString bytes | ABool bool | AInt int | AFloat real | AStrings "bytes list"

type_synonym attr = "bytes \<times> attr_value"

definition KeyGenAIOperation :: bytes where "KeyGenAIOperation = ''gen_ai.operation.name''"
definition KeyGenAIToolName :: bytes where "KeyGenAIToolName = ''gen_ai.tool.name''"
definition KeyGenAIToolCall :: bytes where "KeyGenAIToolCall = ''gen_ai.tool.call.id''"
definition KeyMCPTool :: bytes where "KeyMCPTool = ''mcp.tool.name''"
definition KeyMCPMethod :: bytes where "KeyMCPMethod = ''mcp.method''"
definition KeyEffect :: bytes where "KeyEffect = ''chokepoint.policy.effect''"
definition KeyRule :: bytes where "KeyRule = ''chokepoint.policy.rule''"
definition KeyEnforced :: bytes where "KeyEnforced = ''chokepoint.policy.enforced''"
definition KeyAudited :: bytes where "KeyAudited = ''chokepoint.policy.audited''"
definition KeyTargets :: bytes where "KeyTargets = ''chokepoint.targets''"
definition KeyScore :: bytes where "KeyScore = ''chokepoint.decomposition.score''"
definition KeySessionCalls :: bytes where "KeySessionCalls = ''chokepoint.session.calls''"
definition KeySessionTargets :: bytes where "KeySessionTargets = ''chokepoint.session.targets''"
definition KeyToolChanged :: bytes where "KeyToolChanged = ''chokepoint.tool.definition_changed''"
definition KeyToolsChanged :: bytes where "KeyToolsChanged = ''chokepoint.tool.session_changed''"
definition KeyScopeDeclared :: bytes where "KeyScopeDeclared = ''chokepoint.scope.declared''"
definition KeyOutOfScope :: bytes where "KeyOutOfScope = ''chokepoint.scope.out_of_scope''"
definition KeySessionOutOf :: bytes where "KeySessionOutOf = ''chokepoint.scope.session_out_of_scope''"
definition KeyCallsInWindow :: bytes where "KeyCallsInWindow = ''chokepoint.rate.calls_in_window''"
definition KeyTargetsInWindow :: bytes where "KeyTargetsInWindow = ''chokepoint.rate.targets_in_window''"
definition KeyRateWindow :: bytes where "KeyRateWindow = ''chokepoint.rate.window_seconds''"
definition KeySchemaKnown :: bytes where "KeySchemaKnown = ''chokepoint.schema.known''"
definition KeyArgsValid :: bytes where "KeyArgsValid = ''chokepoint.schema.args_valid''"
definition KeySchemaViolations :: bytes where "KeySchemaViolations = ''chokepoint.schema.violations''"
definition OperationToolCall :: bytes where "OperationToolCall = ''tool_call''"

lemmas key_defs = KeyGenAIOperation_def KeyGenAIToolName_def KeyGenAIToolCall_def KeyMCPTool_def KeyMCPMethod_def
  KeyEffect_def KeyRule_def KeyEnforced_def KeyAudited_def KeyTargets_def KeyScore_def KeySessionCalls_def
  KeySessionTargets_def KeyToolChanged_def KeyToolsChanged_def KeyScopeDeclared_def KeyOutOfScope_def
  KeySessionOutOf_def KeyCallsInWindow_def KeyTargetsInWindow_def KeyRateWindow_def KeySchemaKnown_def
  KeyArgsValid_def KeySchemaViolations_def OperationToolCall_def

definition attr_int :: "nat \<Rightarrow> attr_value" where
  "attr_int n = AInt (int n)"

definition Attributes :: "decision_event \<Rightarrow> attr list" where
  "Attributes ev =
     [(KeyGenAIOperation, AString OperationToolCall), (KeyGenAIToolName, AString (ev_Tool ev)),
      (KeyMCPTool, AString (ev_Tool ev)), (KeyMCPMethod, AString (ev_Method ev)),
      (KeyEffect, AString (ev_Effect ev)), (KeySessionCalls, attr_int (ev_SessionCalls ev)),
      (KeySessionTargets, attr_int (ev_SessionTargets ev))] @
     (if ev_ID ev \<noteq> [] then [(KeyGenAIToolCall, AString (ev_ID ev))] else []) @
     (if ev_Effect ev = EffectDeny then [(KeyEnforced, ABool (\<not> ev_Unenforced ev))] else []) @
     (if ev_Rule ev \<noteq> [] then [(KeyRule, AString (ev_Rule ev))] else []) @
     (if length (ev_Audited ev) > 0 then [(KeyAudited, AStrings (ev_Audited ev))] else []) @
     (if length (ev_Targets ev) > 0 then [(KeyTargets, AStrings (ev_Targets ev))] else []) @
     (if \<not> ev_ScoreUnavailable ev then [(KeyScore, AFloat (ev_Score ev))] else []) @
     [(KeyToolChanged, ABool (ev_ToolDefinitionChanged ev)), (KeyToolsChanged, attr_int (ev_SessionToolsChanged ev))] @
     (if ev_RateWindow ev > 0
      then [(KeyCallsInWindow, attr_int (ev_CallsInWindow ev)), (KeyTargetsInWindow, attr_int (ev_TargetsInWindow ev)),
        (KeyRateWindow, AFloat (real_of_int (ev_RateWindow ev) / 1000000000))] else []) @
     [(KeySchemaKnown, ABool (ev_SchemaKnown ev))] @
     (if ev_SchemaKnown ev
      then (KeyArgsValid, ABool (ev_ArgsValid ev)) #
        (if length (ev_SchemaViolations ev) > 0 then [(KeySchemaViolations, AStrings (ev_SchemaViolations ev))] else [])
      else []) @
     (if ev_ScopeDeclared ev
      then [(KeyScopeDeclared, ABool True), (KeyOutOfScope, attr_int (ev_OutOfScope ev)),
        (KeySessionOutOf, attr_int (ev_SessionOutOfScope ev))] else [])"

section \<open>Records\<close>

text \<open>OTLP's tagged union; of a double only the literal is kept.\<close>

datatype json_value = JsonValue
  (StringValue: "bytes option") (IntValue: "bytes option") (DoubleValue: "bytes option")
  (BoolValue: "bool option") (ArrayValue: "json_value list option")

definition no_value :: json_value where
  "no_value = JsonValue None None None None None"

record span_status =
  st_Code :: int
  st_Message :: bytes

record span_record =
  sp_TraceID :: bytes
  sp_SpanID :: bytes
  sp_Name :: bytes
  sp_Kind :: int
  sp_StartTimeUnixNano :: bytes
  sp_EndTimeUnixNano :: bytes
  sp_Attributes :: "(bytes \<times> json_value) list"
  sp_Status :: "span_status option"

definition encodeValue :: "(real \<Rightarrow> bytes) \<Rightarrow> attr_value \<Rightarrow> json_value" where
  "encodeValue ft v =
     (case v of
       AString s \<Rightarrow> JsonValue (Some s) None None None None
     | ABool b \<Rightarrow> JsonValue None None None (Some b) None
     | AFloat f \<Rightarrow> JsonValue None None (Some (ft f)) None None
     | AInt i \<Rightarrow> JsonValue None (Some (Itoa i)) None None None
     | AStrings ss \<Rightarrow> JsonValue None None None None (Some (map (\<lambda>s. JsonValue (Some s) None None None None) ss)))"

definition encodeAttrs :: "(real \<Rightarrow> bytes) \<Rightarrow> attr list \<Rightarrow> (bytes \<times> json_value) list" where
  "encodeAttrs ft attrs = map (\<lambda>(k, v). (k, encodeValue ft v)) attrs"

text \<open>\<open>json.Marshal\<close> of the records: fields in order, absent optional ones left out.\<close>

fun value_json :: "json_value \<Rightarrow> json" where
  "value_json (JsonValue s i d b a) =
     JObj ((case s of None \<Rightarrow> [] | Some s \<Rightarrow> [(''stringValue'', JStr s)]) @
       (case i of None \<Rightarrow> [] | Some i \<Rightarrow> [(''intValue'', JStr i)]) @
       (case d of None \<Rightarrow> [] | Some d \<Rightarrow> [(''doubleValue'', JNum d)]) @
       (case b of None \<Rightarrow> [] | Some b \<Rightarrow> [(''boolValue'', JBool b)]) @
       (case a of None \<Rightarrow> [] | Some vs \<Rightarrow> [(''arrayValue'', JObj [(''values'', JArr (map value_json vs))])]))"

definition attr_json :: "bytes \<times> json_value \<Rightarrow> json" where
  "attr_json = (\<lambda>(k, v). JObj [(''key'', JStr k), (''value'', value_json v)])"

definition status_json :: "span_status \<Rightarrow> json" where
  "status_json st = JObj ((''code'', JNum (Itoa (st_Code st))) # (if st_Message st = [] then [] else [(''message'', JStr (st_Message st))]))"

definition record_json :: "span_record \<Rightarrow> json" where
  "record_json r =
     JObj ([(''traceId'', JStr (sp_TraceID r)), (''spanId'', JStr (sp_SpanID r)), (''name'', JStr (sp_Name r)),
       (''kind'', JNum (Itoa (sp_Kind r))), (''startTimeUnixNano'', JStr (sp_StartTimeUnixNano r)),
       (''endTimeUnixNano'', JStr (sp_EndTimeUnixNano r)), (''attributes'', JArr (map attr_json (sp_Attributes r)))] @
       (case sp_Status r of None \<Rightarrow> [] | Some st \<Rightarrow> [(''status'', status_json st)]))"

section \<open>The writer\<close>

text \<open>
  The log's bytes stand for the sink. A write has an outcome: \<open>None\<close> when it succeeds, \<open>Some k\<close> when it
  fails after \<open>k\<close> bytes; the encoder keeps the first error and writes nothing after it.
\<close>

type_synonym write_outcome = "nat option"

record audit_writer =
  aw_out :: bytes
  aw_encErr :: bool
  aw_traceID :: bytes
  aw_onError :: bool
  aw_failed :: bool
  aw_reports :: nat
  aw_written :: nat

definition encode_line :: "write_outcome \<Rightarrow> bytes \<Rightarrow> audit_writer \<Rightarrow> bool \<times> audit_writer" where
  "encode_line res msg a =
     (if aw_encErr a then (False, a)
      else case res of
        None \<Rightarrow> (True, a\<lparr>aw_out := aw_out a @ msg @ [newline]\<rparr>)
      | Some k \<Rightarrow> (False, a\<lparr>aw_out := aw_out a @ take k (msg @ [newline]), aw_encErr := True\<rparr>))"

text \<open>\<open>hex.DecodeString\<close> succeeds on 32 characters when all are hexadecimal digits.\<close>

definition traceIDOr :: "bytes \<Rightarrow> bytes \<Rightarrow> bytes" where
  "traceIDOr ident randomHex = (if length ident = 32 \<and> list_all is_hex ident then ident else randomHex)"

definition New_audit :: "bytes \<Rightarrow> bool \<Rightarrow> bytes \<Rightarrow> bytes \<Rightarrow> audit_writer" where
  "New_audit existing onError ident randomHex =
     \<lparr>aw_out = existing, aw_encErr = False, aw_traceID = traceIDOr ident randomHex, aw_onError = onError,
      aw_failed = False, aw_reports = 0, aw_written = 0\<rparr>"

text \<open>Of the error callback, the number of calls to it is kept.\<close>

definition reportLocked :: "audit_writer \<Rightarrow> audit_writer" where
  "reportLocked a = (if aw_failed a \<or> \<not> aw_onError a then a
     else a\<lparr>aw_failed := True, aw_reports := aw_reports a + 1\<rparr>)"

definition decided_record :: "(real \<Rightarrow> bytes) \<Rightarrow> bytes \<Rightarrow> bytes \<Rightarrow> instant \<Rightarrow> decision_event \<Rightarrow> span_record" where
  "decided_record ft traceID spanID now ev =
     \<lparr>sp_TraceID = traceID, sp_SpanID = spanID, sp_Name = ''mcp.tool_call'', sp_Kind = 3,
      sp_StartTimeUnixNano = Itoa now, sp_EndTimeUnixNano = Itoa now, sp_Attributes = encodeAttrs ft (Attributes ev),
      sp_Status = (if ev_Effect ev = EffectDeny
        then Some \<lparr>st_Code = 2, st_Message = (if ev_Unenforced ev then ''policy violation allowed (monitor mode): '' @ ev_Rule ev
            else ''denied by policy: '' @ ev_Rule ev)\<rparr>
        else None)\<rparr>"

definition audit_ToolCallDecided ::
  "(real \<Rightarrow> bytes) \<Rightarrow> bytes \<Rightarrow> instant \<Rightarrow> write_outcome \<Rightarrow> decision_event \<Rightarrow> audit_writer \<Rightarrow> audit_writer" where
  "audit_ToolCallDecided ft spanID now res ev a =
     (let (ok, a) = encode_line res (encode_json (record_json (decided_record ft (aw_traceID a) spanID now ev))) a
      in if ok then a\<lparr>aw_written := aw_written a + 1\<rparr> else reportLocked a)"

definition audit_ToolCallCompleted :: "completion_event \<Rightarrow> audit_writer \<Rightarrow> audit_writer" where
  "audit_ToolCallCompleted _ a = a"

section \<open>The reader\<close>

record entry =
  en_Session :: bytes
  en_At :: "instant option"
  en_Tool :: bytes
  en_Method :: bytes
  en_Effect :: bytes
  en_Rule :: bytes
  en_Enforced :: bool
  en_Targets :: "bytes list"
  en_OutOfScope :: int
  en_Audited :: "bytes list"

definition Breach :: "entry \<Rightarrow> bool" where
  "Breach e \<longleftrightarrow> en_Effect e = ''deny''"

text \<open>\<open>json.Unmarshal\<close> into the records: a member is decoded into the field its key matches, on top
  of what is there; \<open>null\<close> clears a pointer or a slice and leaves other fields alone.\<close>

definition string_pointer :: "json \<Rightarrow> bytes option option" where
  "string_pointer v = (case v of JNull \<Rightarrow> Some None | JStr s \<Rightarrow> Some (Some s) | _ \<Rightarrow> None)"

definition bool_pointer :: "json \<Rightarrow> bool option option" where
  "bool_pointer v = (case v of JNull \<Rightarrow> Some None | JBool b \<Rightarrow> Some (Some b) | _ \<Rightarrow> None)"

definition double_pointer :: "json \<Rightarrow> bytes option option" where
  "double_pointer v =
     (case v of JNull \<Rightarrow> Some None | JNum n \<Rightarrow> if number_in_range n then Some (Some n) else None | _ \<Rightarrow> None)"

definition int_field :: "int \<Rightarrow> json \<Rightarrow> int option" where
  "int_field old v = (case v of JNull \<Rightarrow> Some old | JNum n \<Rightarrow> ParseInt64 n | _ \<Rightarrow> None)"

fun decode_value :: "json_value \<Rightarrow> json \<Rightarrow> json_value option"
  and decode_value_members :: "json_value \<Rightarrow> (bytes \<times> json) list \<Rightarrow> json_value option"
  and decode_array :: "json_value list \<Rightarrow> (bytes \<times> json) list \<Rightarrow> json_value list option"
  and decode_values :: "json_value list \<Rightarrow> json list \<Rightarrow> json_value list option" where
  "decode_value v JNull = Some v"
| "decode_value v (JObj ms) = decode_value_members v ms"
| "decode_value v _ = None"
| "decode_value_members v [] = Some v"
| "decode_value_members v ((k, j) # ms) =
     Option.bind
       (case v of JsonValue s i d b a \<Rightarrow>
         if field_matches ''stringValue'' k then map_option (\<lambda>s. JsonValue s i d b a) (string_pointer j)
         else if field_matches ''intValue'' k then map_option (\<lambda>i. JsonValue s i d b a) (string_pointer j)
         else if field_matches ''doubleValue'' k then map_option (\<lambda>d. JsonValue s i d b a) (double_pointer j)
         else if field_matches ''boolValue'' k then map_option (\<lambda>b. JsonValue s i d b a) (bool_pointer j)
         else if field_matches ''arrayValue'' k then
           (case j of
             JNull \<Rightarrow> Some (JsonValue s i d b None)
           | JObj ams \<Rightarrow> map_option (\<lambda>vs. JsonValue s i d b (Some vs)) (decode_array (case a of None \<Rightarrow> [] | Some vs \<Rightarrow> vs) ams)
           | _ \<Rightarrow> None)
         else Some v)
       (\<lambda>v. decode_value_members v ms)"
| "decode_array vs [] = Some vs"
| "decode_array vs ((k, j) # ms) =
     Option.bind
       (if field_matches ''values'' k then
         (case j of JNull \<Rightarrow> Some [] | JArr es \<Rightarrow> decode_values vs es | _ \<Rightarrow> None)
        else Some vs)
       (\<lambda>vs. decode_array vs ms)"
| "decode_values old [] = Some []"
| "decode_values old (e # es) =
     Option.bind (decode_value (case old of [] \<Rightarrow> no_value | v # _ \<Rightarrow> v) e)
       (\<lambda>v. map_option (Cons v) (decode_values (tl old) es))"

fun decode_attr_members :: "bytes \<times> json_value \<Rightarrow> (bytes \<times> json) list \<Rightarrow> (bytes \<times> json_value) option" where
  "decode_attr_members a [] = Some a"
| "decode_attr_members (key, v) ((k, j) # ms) =
     (if field_matches ''key'' k then Option.bind (string_field key j) (\<lambda>key. decode_attr_members (key, v) ms)
      else if field_matches ''value'' k then Option.bind (decode_value v j) (\<lambda>v. decode_attr_members (key, v) ms)
      else decode_attr_members (key, v) ms)"

definition decode_attr :: "bytes \<times> json_value \<Rightarrow> json \<Rightarrow> (bytes \<times> json_value) option" where
  "decode_attr a j = (case j of JNull \<Rightarrow> Some a | JObj ms \<Rightarrow> decode_attr_members a ms | _ \<Rightarrow> None)"

fun decode_attrs :: "(bytes \<times> json_value) list \<Rightarrow> json list \<Rightarrow> (bytes \<times> json_value) list option" where
  "decode_attrs old [] = Some []"
| "decode_attrs old (e # es) =
     Option.bind (decode_attr (case old of [] \<Rightarrow> ([], no_value) | a # _ \<Rightarrow> a) e)
       (\<lambda>a. map_option (Cons a) (decode_attrs (tl old) es))"

fun decode_status_members :: "span_status \<Rightarrow> (bytes \<times> json) list \<Rightarrow> span_status option" where
  "decode_status_members st [] = Some st"
| "decode_status_members st ((k, j) # ms) =
     Option.bind
       (if field_matches ''code'' k then map_option (\<lambda>c. st\<lparr>st_Code := c\<rparr>) (int_field (st_Code st) j)
        else if field_matches ''message'' k then map_option (\<lambda>m. st\<lparr>st_Message := m\<rparr>) (string_field (st_Message st) j)
        else Some st)
       (\<lambda>st. decode_status_members st ms)"

definition decode_record_member :: "span_record \<Rightarrow> bytes \<times> json \<Rightarrow> span_record option" where
  "decode_record_member r = (\<lambda>(k, j).
     if field_matches ''traceId'' k then map_option (\<lambda>s. r\<lparr>sp_TraceID := s\<rparr>) (string_field (sp_TraceID r) j)
     else if field_matches ''spanId'' k then map_option (\<lambda>s. r\<lparr>sp_SpanID := s\<rparr>) (string_field (sp_SpanID r) j)
     else if field_matches ''name'' k then map_option (\<lambda>s. r\<lparr>sp_Name := s\<rparr>) (string_field (sp_Name r) j)
     else if field_matches ''kind'' k then map_option (\<lambda>i. r\<lparr>sp_Kind := i\<rparr>) (int_field (sp_Kind r) j)
     else if field_matches ''startTimeUnixNano'' k
     then map_option (\<lambda>s. r\<lparr>sp_StartTimeUnixNano := s\<rparr>) (string_field (sp_StartTimeUnixNano r) j)
     else if field_matches ''endTimeUnixNano'' k
     then map_option (\<lambda>s. r\<lparr>sp_EndTimeUnixNano := s\<rparr>) (string_field (sp_EndTimeUnixNano r) j)
     else if field_matches ''attributes'' k then
       (case j of
         JNull \<Rightarrow> Some (r\<lparr>sp_Attributes := []\<rparr>)
       | JArr es \<Rightarrow> map_option (\<lambda>attrs. r\<lparr>sp_Attributes := attrs\<rparr>) (decode_attrs (sp_Attributes r) es)
       | _ \<Rightarrow> None)
     else if field_matches ''status'' k then
       (case j of
         JNull \<Rightarrow> Some (r\<lparr>sp_Status := None\<rparr>)
       | JObj ms \<Rightarrow> map_option (\<lambda>st. r\<lparr>sp_Status := Some st\<rparr>)
           (decode_status_members (case sp_Status r of None \<Rightarrow> \<lparr>st_Code = 0, st_Message = []\<rparr> | Some st \<Rightarrow> st) ms)
       | _ \<Rightarrow> None)
     else Some r)"

fun decode_record_members :: "span_record \<Rightarrow> (bytes \<times> json) list \<Rightarrow> span_record option" where
  "decode_record_members r [] = Some r"
| "decode_record_members r (m # ms) = Option.bind (decode_record_member r m) (\<lambda>r. decode_record_members r ms)"

definition zero_record :: span_record where
  "zero_record = \<lparr>sp_TraceID = [], sp_SpanID = [], sp_Name = [], sp_Kind = 0, sp_StartTimeUnixNano = [],
     sp_EndTimeUnixNano = [], sp_Attributes = [], sp_Status = None\<rparr>"

definition decode_record :: "bytes \<Rightarrow> span_record option" where
  "decode_record raw =
     (case parse_json raw of
       Some JNull \<Rightarrow> Some zero_record
     | Some (JObj ms) \<Rightarrow> decode_record_members zero_record ms
     | _ \<Rightarrow> None)"

definition str_of :: "json_value \<Rightarrow> bytes" where
  "str_of v = (case StringValue v of Some s \<Rightarrow> s | None \<Rightarrow> [])"

definition strs_of :: "json_value \<Rightarrow> bytes list" where
  "strs_of v =
     (case ArrayValue v of
       None \<Rightarrow> if str_of v \<noteq> [] then [str_of v] else []
     | Some items \<Rightarrow> map str_of items)"

definition hasKey :: "span_record \<Rightarrow> bytes \<Rightarrow> bool" where
  "hasKey r key \<longleftrightarrow> list_ex (\<lambda>(k, _). k = key) (sp_Attributes r)"

text \<open>The number \<open>strconv.Atoi\<close> gives, its error ignored: an overflowing literal gives the nearest
  bound, a malformed one gives zero.\<close>

definition Atoi_lenient :: "bytes \<Rightarrow> int" where
  "Atoi_lenient s =
     (case ParseInt64 s of
       Some i \<Rightarrow> i
     | None \<Rightarrow>
         let neg = HasPrefix s ''-''; ds = (if neg \<or> HasPrefix s ''+'' then tl s else s)
         in if ds \<noteq> [] \<and> list_all is_digit ds then (if neg then - (2 ^ 63) else 2 ^ 63 - 1) else 0)"

definition entry_attr :: "entry \<Rightarrow> bytes \<times> json_value \<Rightarrow> entry" where
  "entry_attr e = (\<lambda>(key, v).
     if key = KeyMCPTool then e\<lparr>en_Tool := str_of v\<rparr>
     else if key = KeyMCPMethod then e\<lparr>en_Method := str_of v\<rparr>
     else if key = KeyEffect then e\<lparr>en_Effect := str_of v\<rparr>
     else if key = KeyRule then e\<lparr>en_Rule := str_of v\<rparr>
     else if key = KeyEnforced then e\<lparr>en_Enforced := (BoolValue v = Some True)\<rparr>
     else if key = KeyTargets then e\<lparr>en_Targets := strs_of v\<rparr>
     else if key = KeyOutOfScope then (case IntValue v of None \<Rightarrow> e | Some i \<Rightarrow> e\<lparr>en_OutOfScope := Atoi_lenient i\<rparr>)
     else if key = KeyAudited then e\<lparr>en_Audited := strs_of v\<rparr>
     else e)"

definition entryOf :: "span_record \<Rightarrow> entry" where
  "entryOf r =
     (let e = \<lparr>en_Session = sp_TraceID r, en_At = ParseInt64 (sp_StartTimeUnixNano r), en_Tool = [], en_Method = [],
          en_Effect = [], en_Rule = [], en_Enforced = False, en_Targets = [], en_OutOfScope = 0, en_Audited = []\<rparr>;
          e = foldl entry_attr e (sp_Attributes r)
      in if en_Effect e = ''deny'' \<and> \<not> hasKey r KeyEnforced then e\<lparr>en_Enforced := True\<rparr> else e)"

text \<open>\<open>Read\<close>: the entries, the numbers of the lines that did not parse, and whether the scan ended
  without an error.\<close>

definition MaxLogLine :: nat where
  "MaxLogLine = 16777216"

function read_log :: "nat \<Rightarrow> bytes \<Rightarrow> entry list \<times> nat list \<times> bool" where
  "read_log n s =
     (case scan_line MaxLogLine s of
       NoMore \<Rightarrow> ([], [], True)
     | TooLong \<Rightarrow> ([], [], False)
     | Line l r \<Rightarrow>
         let (es, bad, ok) = read_log (n + 1) r in
         if length l = 0 then (es, bad, ok)
         else case decode_record l of
           None \<Rightarrow> (es, (n + 1) # bad, ok)
         | Some rec \<Rightarrow> (entryOf rec # es, bad, ok))"
  by pat_completeness auto
termination
  by (relation "measure (\<lambda>(n, s). length s)") (auto dest: scan_line_less)

declare read_log.simps [simp del]

definition Read :: "bytes \<Rightarrow> entry list \<times> nat list \<times> bool" where
  "Read s = read_log 0 s"

section \<open>Reading one record\<close>

lemma audit_names:
  "fold_name ''stringValue'' = ''STRINGVALUE''" "fold_name ''intValue'' = ''INTVALUE''"
  "fold_name ''doubleValue'' = ''DOUBLEVALUE''" "fold_name ''boolValue'' = ''BOOLVALUE''"
  "fold_name ''arrayValue'' = ''ARRAYVALUE''" "fold_name ''values'' = ''VALUES''" "fold_name ''key'' = ''KEY''"
  "fold_name ''value'' = ''VALUE''" "fold_name ''code'' = ''CODE''" "fold_name ''message'' = ''MESSAGE''"
  "fold_name ''traceId'' = ''TRACEID''" "fold_name ''spanId'' = ''SPANID''" "fold_name ''name'' = ''NAME''"
  "fold_name ''kind'' = ''KIND''" "fold_name ''startTimeUnixNano'' = ''STARTTIMEUNIXNANO''"
  "fold_name ''endTimeUnixNano'' = ''ENDTIMEUNIXNANO''" "fold_name ''attributes'' = ''ATTRIBUTES''"
  "fold_name ''status'' = ''STATUS''"
  by code_simp+

lemmas audit_matches = field_matches_iff audit_names

fun writable :: "(real \<Rightarrow> bytes) \<Rightarrow> attr_value \<Rightarrow> bool" where
  "writable ft (AString s) = valid_utf8 s"
| "writable ft (AFloat f) = (number_ok (ft f) \<and> number_in_range (ft f))"
| "writable ft (AStrings ss) = list_all valid_utf8 ss"
| "writable ft v = True"

lemma decode_strings:
  "decode_values [] (map (\<lambda>s. value_json (JsonValue (Some s) None None None None)) ss) =
     Some (map (\<lambda>s. JsonValue (Some s) None None None None) ss)"
  by (induction ss) (simp_all add: audit_matches no_value_def string_pointer_def del: fold_name.simps)

lemma decode_encoded_value:
  "writable ft v \<Longrightarrow> decode_value no_value (value_json (encodeValue ft v)) = Some (encodeValue ft v)"
  using decode_strings
  by (cases v) (simp_all add: encodeValue_def no_value_def audit_matches string_pointer_def bool_pointer_def
      double_pointer_def comp_def del: fold_name.simps)

lemma decode_encoded_attrs:
  "list_all (\<lambda>(k, v). writable ft v) as \<Longrightarrow> decode_attrs [] (map attr_json (encodeAttrs ft as)) = Some (encodeAttrs ft as)"
  by (induction as) (auto simp: encodeAttrs_def attr_json_def decode_attr_def audit_matches string_field_def
      decode_encoded_value simp del: fold_name.simps)

lemma decode_encoded_record:
  assumes "int64 (sp_Kind r)" "\<And>st. sp_Status r = Some st \<Longrightarrow> int64 (st_Code st)"
    "decode_attrs [] (map attr_json (sp_Attributes r)) = Some (sp_Attributes r)"
  shows "\<exists>ms. record_json r = JObj ms \<and> decode_record_members zero_record ms = Some r"
proof -
  have "decode_status_members \<lparr>st_Code = 0, st_Message = []\<rparr>
      ((''code'', JNum (Itoa (st_Code st))) # (if st_Message st = [] then [] else [(''message'', JStr (st_Message st))])) = Some st"
    if "int64 (st_Code st)" for st
    using that by (simp add: audit_matches int_field_def ParseInt64_Itoa string_field_def del: fold_name.simps)
  with assms show ?thesis
    by (cases "sp_Status r") (simp_all add: record_json_def status_json_def zero_record_def decode_record_member_def
      audit_matches int_field_def string_field_def ParseInt64_Itoa del: fold_name.simps decode_status_members.simps)
qed

lemma literal_utf8:
  "valid_utf8 ''stringValue''" "valid_utf8 ''intValue''" "valid_utf8 ''doubleValue''" "valid_utf8 ''boolValue''"
  "valid_utf8 ''arrayValue''" "valid_utf8 ''values''" "valid_utf8 ''key''" "valid_utf8 ''value''" "valid_utf8 ''code''"
  "valid_utf8 ''message''" "valid_utf8 ''traceId''" "valid_utf8 ''spanId''" "valid_utf8 ''name''" "valid_utf8 ''kind''"
  "valid_utf8 ''startTimeUnixNano''" "valid_utf8 ''endTimeUnixNano''" "valid_utf8 ''attributes''" "valid_utf8 ''status''"
  "valid_utf8 ''mcp.tool_call''"
  by code_simp+

lemma message_utf8:
  "valid_utf8 s \<Longrightarrow> valid_utf8 (''policy violation allowed (monitor mode): '' @ s)"
  "valid_utf8 s \<Longrightarrow> valid_utf8 (''denied by policy: '' @ s)"
  by (subst ascii_prefix_utf8, code_simp, assumption)+

lemma valid_value:
  "writable ft v \<Longrightarrow> valid_json 4 (value_json (encodeValue ft v))"
  by (cases v) (simp_all add: encodeValue_def literal_utf8 number_ok_Itoa Itoa_utf8 list_all_iff)

lemma valid_attrs:
  "list_all (\<lambda>(k, v). valid_utf8 k \<and> writable ft v) as \<Longrightarrow> list_all (valid_json 5) (map attr_json (encodeAttrs ft as))"
  by (induction as) (auto simp: encodeAttrs_def attr_json_def literal_utf8 valid_value)

definition recordable :: "(real \<Rightarrow> bytes) \<Rightarrow> decision_event \<Rightarrow> bool" where
  "recordable ft ev \<longleftrightarrow>
     valid_utf8 (ev_ID ev) \<and> valid_utf8 (ev_Tool ev) \<and> valid_utf8 (ev_Method ev) \<and> valid_utf8 (ev_Effect ev) \<and>
     valid_utf8 (ev_Rule ev) \<and> list_all valid_utf8 (ev_Audited ev) \<and> list_all valid_utf8 (ev_Targets ev) \<and>
     list_all valid_utf8 (ev_SchemaViolations ev) \<and> ev_OutOfScope ev < 2 ^ 63 \<and>
     (ev_ScoreUnavailable ev \<or> writable ft (AFloat (ev_Score ev))) \<and>
     (ev_RateWindow ev \<le> 0 \<or> writable ft (AFloat (real_of_int (ev_RateWindow ev) / 1000000000)))"

lemma key_utf8:
  "valid_utf8 KeyGenAIOperation" "valid_utf8 KeyGenAIToolName" "valid_utf8 KeyGenAIToolCall" "valid_utf8 KeyMCPTool"
  "valid_utf8 KeyMCPMethod" "valid_utf8 KeyEffect" "valid_utf8 KeyRule" "valid_utf8 KeyEnforced" "valid_utf8 KeyAudited"
  "valid_utf8 KeyTargets" "valid_utf8 KeyScore" "valid_utf8 KeySessionCalls" "valid_utf8 KeySessionTargets"
  "valid_utf8 KeyToolChanged" "valid_utf8 KeyToolsChanged" "valid_utf8 KeyScopeDeclared" "valid_utf8 KeyOutOfScope"
  "valid_utf8 KeySessionOutOf" "valid_utf8 KeyCallsInWindow" "valid_utf8 KeyTargetsInWindow" "valid_utf8 KeyRateWindow"
  "valid_utf8 KeySchemaKnown" "valid_utf8 KeyArgsValid" "valid_utf8 KeySchemaViolations" "valid_utf8 OperationToolCall"
  by code_simp+

lemma attributes_writable:
  "recordable ft ev \<Longrightarrow> list_all (\<lambda>(k, v). valid_utf8 k \<and> writable ft v) (Attributes ev)"
  unfolding Attributes_def list_all_append
  by (intro conjI; auto simp: recordable_def key_utf8 attr_int_def)

lemma valid_decided_record:
  assumes "recordable ft ev" "valid_utf8 traceID" "valid_utf8 spanID"
  shows "valid_json max_depth (record_json (decided_record ft traceID spanID now ev))"
proof (rule valid_json_depth)
  have r: "valid_utf8 (ev_Rule ev)" using assms(1) by (simp add: recordable_def)
  show "valid_json 7 (record_json (decided_record ft traceID spanID now ev))"
    using valid_attrs [OF attributes_writable [OF assms(1)]] assms(2,3) Itoa_utf8 [of now] message_utf8 [OF r]
    by (simp add: record_json_def decided_record_def status_json_def literal_utf8 number_ok_Itoa)
qed (simp add: max_depth_def)

lemma decided_record_decodes:
  assumes "recordable ft ev" "valid_utf8 traceID" "valid_utf8 spanID"
  shows "decode_record (encode_json (record_json (decided_record ft traceID spanID now ev))) =
    Some (decided_record ft traceID spanID now ev)"
    "newline \<notin> set (encode_json (record_json (decided_record ft traceID spanID now ev)))"
proof -
  let ?r = "decided_record ft traceID spanID now ev"
  have v: "valid_json max_depth (record_json ?r)" using assms by (rule valid_decided_record)
  then show "newline \<notin> set (encode_json (record_json ?r))" by (rule encode_printable)
  have "decode_attrs [] (map attr_json (sp_Attributes ?r)) = Some (sp_Attributes ?r)"
    unfolding decided_record_def span_record.simps using attributes_writable [OF assms(1)]
    by (intro decode_encoded_attrs) (auto simp: list_all_iff)
  then have "\<exists>ms. record_json ?r = JObj ms \<and> decode_record_members zero_record ms = Some ?r"
    by (intro decode_encoded_record) (auto simp: decided_record_def int64_def split: if_splits)
  then show "decode_record (encode_json (record_json ?r)) = Some ?r"
    using parse_json_encode [OF v] by (auto simp: decode_record_def)
qed

section \<open>What a record says\<close>

definition entry_of :: "bytes \<Rightarrow> instant \<Rightarrow> decision_event \<Rightarrow> entry" where
  "entry_of traceID now ev =
     \<lparr>en_Session = traceID, en_At = Some now, en_Tool = ev_Tool ev, en_Method = ev_Method ev, en_Effect = ev_Effect ev,
      en_Rule = ev_Rule ev, en_Enforced = (ev_Effect ev = EffectDeny \<and> \<not> ev_Unenforced ev),
      en_Targets = ev_Targets ev, en_OutOfScope = (if ev_ScopeDeclared ev then int (ev_OutOfScope ev) else 0),
      en_Audited = ev_Audited ev\<rparr>"

lemma entry_attr_keys:
  "entry_attr e (KeyMCPTool, v) = e\<lparr>en_Tool := str_of v\<rparr>"
  "entry_attr e (KeyMCPMethod, v) = e\<lparr>en_Method := str_of v\<rparr>"
  "entry_attr e (KeyEffect, v) = e\<lparr>en_Effect := str_of v\<rparr>"
  "entry_attr e (KeyRule, v) = e\<lparr>en_Rule := str_of v\<rparr>"
  "entry_attr e (KeyEnforced, v) = e\<lparr>en_Enforced := (BoolValue v = Some True)\<rparr>"
  "entry_attr e (KeyTargets, v) = e\<lparr>en_Targets := strs_of v\<rparr>"
  "entry_attr e (KeyOutOfScope, v) = (case IntValue v of None \<Rightarrow> e | Some i \<Rightarrow> e\<lparr>en_OutOfScope := Atoi_lenient i\<rparr>)"
  "entry_attr e (KeyAudited, v) = e\<lparr>en_Audited := strs_of v\<rparr>"
  "k \<notin> {KeyMCPTool, KeyMCPMethod, KeyEffect, KeyRule, KeyEnforced, KeyTargets, KeyOutOfScope, KeyAudited} \<Longrightarrow>
    entry_attr e (k, v) = e"
  by (simp_all add: entry_attr_def key_defs)

lemma entry_attr_others:
  "entry_attr e (KeyGenAIOperation, v) = e" "entry_attr e (KeyGenAIToolName, v) = e" "entry_attr e (KeyGenAIToolCall, v) = e"
  "entry_attr e (KeyScore, v) = e" "entry_attr e (KeySessionCalls, v) = e" "entry_attr e (KeySessionTargets, v) = e"
  "entry_attr e (KeyToolChanged, v) = e" "entry_attr e (KeyToolsChanged, v) = e" "entry_attr e (KeyScopeDeclared, v) = e"
  "entry_attr e (KeySessionOutOf, v) = e" "entry_attr e (KeyCallsInWindow, v) = e" "entry_attr e (KeyTargetsInWindow, v) = e"
  "entry_attr e (KeyRateWindow, v) = e" "entry_attr e (KeySchemaKnown, v) = e" "entry_attr e (KeyArgsValid, v) = e"
  "entry_attr e (KeySchemaViolations, v) = e"
  by (simp_all add: entry_attr_def key_defs)

lemma encoded_values:
  "str_of (encodeValue ft (AString s)) = s" "BoolValue (encodeValue ft (ABool b)) = Some b"
  "strs_of (encodeValue ft (AStrings ss)) = ss" "IntValue (encodeValue ft (AInt i)) = Some (Itoa i)"
  by (simp_all add: encodeValue_def str_of_def strs_of_def comp_def)

lemma Atoi_Itoa: "int64 i \<Longrightarrow> Atoi_lenient (Itoa i) = i"
  by (simp add: Atoi_lenient_def ParseInt64_Itoa)

lemma encodeAttrs_simps:
  "encodeAttrs ft [] = []" "encodeAttrs ft ((k, v) # as) = (k, encodeValue ft v) # encodeAttrs ft as"
  "encodeAttrs ft (as @ bs) = encodeAttrs ft as @ encodeAttrs ft bs"
  "encodeAttrs ft (if b then as else bs) = (if b then encodeAttrs ft as else encodeAttrs ft bs)"
  by (simp_all add: encodeAttrs_def)

lemma hasKey_enforced: "hasKey (decided_record ft traceID spanID now ev) KeyEnforced \<longleftrightarrow> ev_Effect ev = EffectDeny"
  by (auto simp: hasKey_def decided_record_def Attributes_def encodeAttrs_simps key_defs)

text \<open>The effect of each group of attributes on the entry.\<close>

lemma fold_attrs:
  "foldl entry_attr e (encodeAttrs ft ((k, v) # as)) = foldl entry_attr (entry_attr e (k, encodeValue ft v)) (encodeAttrs ft as)"
  "foldl entry_attr e (encodeAttrs ft []) = e"
  "foldl entry_attr e (encodeAttrs ft (as @ bs)) = foldl entry_attr (foldl entry_attr e (encodeAttrs ft as)) (encodeAttrs ft bs)"
  by (simp_all add: encodeAttrs_def)

lemma fold_groups:
  "foldl entry_attr e (encodeAttrs ft (if c1 then [(KeyGenAIToolCall, v)] else [])) = e"
  "\<not> en_Enforced e \<Longrightarrow> foldl entry_attr e (encodeAttrs ft (if c then [(KeyEnforced, ABool b)] else [])) = e\<lparr>en_Enforced := (c \<and> b)\<rparr>"
  "en_Rule e = [] \<Longrightarrow> foldl entry_attr e (encodeAttrs ft (if s \<noteq> [] then [(KeyRule, AString s)] else [])) = e\<lparr>en_Rule := s\<rparr>"
  "en_Audited e = [] \<Longrightarrow>
    foldl entry_attr e (encodeAttrs ft (if length ss > 0 then [(KeyAudited, AStrings ss)] else [])) = e\<lparr>en_Audited := ss\<rparr>"
  "en_Targets e = [] \<Longrightarrow>
    foldl entry_attr e (encodeAttrs ft (if length ss > 0 then [(KeyTargets, AStrings ss)] else [])) = e\<lparr>en_Targets := ss\<rparr>"
  "foldl entry_attr e (encodeAttrs ft (if c2 then [(KeyScore, v)] else [])) = e"
  "foldl entry_attr e (encodeAttrs ft (if c3 then [(KeyCallsInWindow, v), (KeyTargetsInWindow, v'), (KeyRateWindow, v'')] else [])) = e"
  "foldl entry_attr e (encodeAttrs ft (if c4 then (KeyArgsValid, v) # (if c5 then [(KeySchemaViolations, v')] else []) else [])) = e"
  "en_OutOfScope e = 0 \<Longrightarrow> int64 i \<Longrightarrow>
    foldl entry_attr e (encodeAttrs ft (if c then [(KeyScopeDeclared, v), (KeyOutOfScope, AInt i), (KeySessionOutOf, v')] else [])) =
      e\<lparr>en_OutOfScope := (if c then i else 0)\<rparr>"
  by (simp_all add: fold_attrs entry_attr_keys(1-8) entry_attr_others encoded_values Atoi_Itoa)

lemma entryOf_decided:
  assumes "int64 now" "ev_OutOfScope ev < 2 ^ 63"
  shows "entryOf (decided_record ft traceID spanID now ev) = entry_of traceID now ev"
proof -
  have o: "int64 (int (ev_OutOfScope ev))" using assms(2) by (simp add: int64_def)
  have "foldl entry_attr \<lparr>en_Session = traceID, en_At = Some now, en_Tool = [], en_Method = [],
      en_Effect = [], en_Rule = [], en_Enforced = False, en_Targets = [], en_OutOfScope = 0, en_Audited = []\<rparr>
      (encodeAttrs ft (Attributes ev)) = entry_of traceID now ev"
    unfolding Attributes_def fold_attrs(3) attr_int_def
    by (simp only: fold_attrs(1,2) entry_attr_keys(1-8) entry_attr_others encoded_values fold_groups o entry.simps entry_of_def simp_thms)
  then show ?thesis
    using hasKey_enforced [of ft traceID spanID now ev]
    by (simp add: entryOf_def Let_def decided_record_def ParseInt64_Itoa [OF assms(1)] entry_of_def EffectDeny_def)
qed

section \<open>The log as a whole\<close>

definition record_line :: "(real \<Rightarrow> bytes) \<Rightarrow> bytes \<Rightarrow> bytes \<times> instant \<times> decision_event \<Rightarrow> bytes" where
  "record_line ft traceID = (\<lambda>(spanID, now, ev). encode_json (record_json (decided_record ft traceID spanID now ev)))"

text \<open>A decision the log can hold: valid UTF-8, readable numbers, a clock in the range of the
  format, and a line the reader's buffer takes.\<close>

definition loggable :: "(real \<Rightarrow> bytes) \<Rightarrow> bytes \<Rightarrow> bytes \<times> instant \<times> decision_event \<Rightarrow> bool" where
  "loggable ft traceID = (\<lambda>(spanID, now, ev). recordable ft ev \<and> valid_utf8 traceID \<and> valid_utf8 spanID \<and> int64 now \<and>
     length (record_line ft traceID (spanID, now, ev)) < MaxLogLine)"

definition entry_for :: "bytes \<Rightarrow> bytes \<times> instant \<times> decision_event \<Rightarrow> entry" where
  "entry_for traceID = (\<lambda>(spanID, now, ev). entry_of traceID now ev)"

lemma record_line_shape: "\<exists>s. record_line ft traceID d = CHR ''{'' # CHR 0x22 # s \<and> last (record_line ft traceID d) = CHR ''}''"
  by (cases d) (simp add: record_line_def record_json_def encode_string_def)

lemma record_line_read:
  assumes "loggable ft traceID d"
  shows "map_option entryOf (decode_record (record_line ft traceID d)) = Some (entry_for traceID d)"
    "newline \<notin> set (record_line ft traceID d)"
  using assms decided_record_decodes entryOf_decided
  by (auto simp: loggable_def record_line_def entry_for_def recordable_def)

lemma torn_record:
  assumes "loggable ft traceID d" "record_line ft traceID d = p @ x" "x \<noteq> []"
  shows "decode_record p = None"
proof -
  obtain spanID now ev where d: "d = (spanID, now, ev)" by (cases d)
  obtain ms where j: "record_json (decided_record ft traceID spanID now ev) = JObj ms" by (simp add: record_json_def)
  have "valid_json max_depth (JObj ms)"
    using assms(1) valid_decided_record by (simp add: d loggable_def flip: j)
  from torn_object [OF this _ assms(3)] assms(2) show ?thesis by (simp add: d record_line_def j decode_record_def)
qed

lemma scan_log_line:
  assumes "newline \<notin> set l" "length l < n" "last l \<noteq> CHR 0x0D"
  shows "scan_line n (l @ newline # s) = Line l s" "l \<noteq> [] \<Longrightarrow> scan_line n l = Line l []"
proof -
  have "dropCR l = l" using assms(3)
    by (cases l rule: rev_cases) (auto simp: dropCR_def TrimSuffix_def HasSuffix_iff suffix_def)
  moreover have "cut_byte newline (l @ newline # s) = Some (l, s)" "cut_byte newline l = None"
    using assms(1) by (simp_all add: cut_byte_Some cut_byte_None)
  ultimately show "scan_line n (l @ newline # s) = Line l s" "l \<noteq> [] \<Longrightarrow> scan_line n l = Line l []"
    using assms(2) by (simp_all add: scan_line_def)
qed

lemma read_log_end [simp]: "read_log n [] = ([], [], True)"
  by (subst read_log.simps) (simp add: scan_line_def)

subsection \<open>What the reader asks of a format of lines\<close>

text \<open>
  A format the reader can be given a log of: the text of a good record is one line the buffer takes, it
  decodes to the entry of the record, and no proper initial part of it decodes.
\<close>

locale log_format =
  fixes good :: "'d \<Rightarrow> bool"
    and text_of :: "'d \<Rightarrow> bytes"
    and entry_in :: "'d \<Rightarrow> entry"
  assumes decodes: "good d \<Longrightarrow> map_option entryOf (decode_record (text_of d)) = Some (entry_in d)"
    and one_line: "good d \<Longrightarrow> newline \<notin> set (text_of d)"
    and fits: "good d \<Longrightarrow> length (text_of d) < MaxLogLine"
    and ends: "good d \<Longrightarrow> text_of d \<noteq> [] \<and> hd (text_of d) \<noteq> CHR 0x0D \<and> last (text_of d) \<noteq> CHR 0x0D"
    and torn: "good d \<Longrightarrow> text_of d = p @ x \<Longrightarrow> x \<noteq> [] \<Longrightarrow> decode_record p = None"
begin

definition log_text :: "'d list \<Rightarrow> bytes" where
  "log_text ds = concat (map (\<lambda>d. text_of d @ [newline]) ds)"

lemma read_line:
  assumes "good d"
  shows "read_log n (text_of d @ newline # s) = (case read_log (n + 1) s of (es, bad, ok) \<Rightarrow> (entry_in d # es, bad, ok))"
proof -
  have "scan_line MaxLogLine (text_of d @ newline # s) = Line (text_of d) s"
    using one_line fits ends assms by (intro scan_log_line(1)) auto
  with decodes [OF assms] ends [OF assms] show ?thesis
    by (subst read_log.simps) (auto split: prod.splits)
qed

lemma read_lines:
  "list_all good ds \<Longrightarrow>
    read_log n (log_text ds @ s) = (case read_log (n + length ds) s of (es, bad, ok) \<Rightarrow> (map entry_in ds @ es, bad, ok))"
  by (induction ds arbitrary: n) (auto simp: log_text_def read_line split: prod.splits)

text \<open>A torn line at the end of the log.\<close>

lemma read_torn:
  assumes "good d" "k < length (text_of d)"
  shows "read_log n (take k (text_of d)) = ([], if k = 0 then [] else [n + 1], True)"
proof (cases "k = 0")
  case False
  let ?p = "take k (text_of d)"
  have "?p \<noteq> []" using False ends [OF assms(1)] by simp
  moreover have "hd ?p \<noteq> CHR 0x0D" using False ends [OF assms(1)] by simp
  ultimately have d: "dropCR ?p \<noteq> []"
    by (cases ?p) (auto simp: dropCR_def TrimSuffix_def HasSuffix_iff suffix_def Cons_eq_append_conv simp del: take_eq_Nil)
  have "newline \<notin> set ?p" using one_line [OF assms(1)] by (auto dest: in_set_takeD)
  with \<open>?p \<noteq> []\<close> have scan: "scan_line MaxLogLine ?p = Line (dropCR ?p) []"
    using fits [OF assms(1)] cut_byte_None [of newline ?p] by (simp add: scan_line_def)
  obtain k' where k': "dropCR ?p = take k' ?p" by (metis dropCR_def TrimSuffix_def take_all order_refl)
  have "decode_record (dropCR ?p) = None"
    using assms(2) by (intro torn [OF assms(1), of _ "drop (min k' k) (text_of d)"]) (simp_all add: k' min_def)
  with d False show ?thesis by (subst read_log.simps) (simp add: scan)
qed simp

end

interpretation session_log: log_format "loggable ft traceID" "record_line ft traceID" "entry_for traceID" for ft traceID
proof
  fix d assume d: "loggable ft traceID d"
  show "map_option entryOf (decode_record (record_line ft traceID d)) = Some (entry_for traceID d)"
    "newline \<notin> set (record_line ft traceID d)" by (rule record_line_read [OF d])+
  show "length (record_line ft traceID d) < MaxLogLine" using d by (auto simp: loggable_def)
  show "record_line ft traceID d \<noteq> [] \<and> hd (record_line ft traceID d) \<noteq> CHR 0x0D \<and> last (record_line ft traceID d) \<noteq> CHR 0x0D"
    using record_line_shape [of ft traceID d] by auto
  show "record_line ft traceID d = p @ x \<Longrightarrow> x \<noteq> [] \<Longrightarrow> decode_record p = None" for p x
    by (rule torn_record [OF d])
qed

text \<open>A log that several sessions have appended to, each record under the trace of its own.\<close>

interpretation mixed_log: log_format "\<lambda>(traceID, d). loggable ft traceID d" "\<lambda>(traceID, d). record_line ft traceID d"
    "\<lambda>(traceID, d). entry_for traceID d" for ft
proof
  fix p :: "bytes \<times> bytes \<times> instant \<times> decision_event"
  obtain traceID d where p: "p = (traceID, d)" by (cases p)
  assume "case p of (traceID, d) \<Rightarrow> loggable ft traceID d"
  then have d: "loggable ft traceID d" by (simp add: p)
  note laws = session_log.decodes [OF d] session_log.one_line [OF d] session_log.fits [OF d] session_log.ends [OF d]
  show "map_option entryOf (decode_record (case p of (traceID, d) \<Rightarrow> record_line ft traceID d)) =
      Some (case p of (traceID, d) \<Rightarrow> entry_for traceID d)"
    "newline \<notin> set (case p of (traceID, d) \<Rightarrow> record_line ft traceID d)"
    "length (case p of (traceID, d) \<Rightarrow> record_line ft traceID d) < MaxLogLine"
    "(case p of (traceID, d) \<Rightarrow> record_line ft traceID d) \<noteq> [] \<and> hd (case p of (traceID, d) \<Rightarrow> record_line ft traceID d) \<noteq> CHR 0x0D \<and>
      last (case p of (traceID, d) \<Rightarrow> record_line ft traceID d) \<noteq> CHR 0x0D"
    unfolding p prod.case by (fact laws)+
  show "(case p of (traceID, d) \<Rightarrow> record_line ft traceID d) = q @ x \<Longrightarrow> x \<noteq> [] \<Longrightarrow> decode_record q = None" for q x
    unfolding p prod.case by (rule session_log.torn [OF d])
qed

text \<open>A session's decisions, each with the outcome of its write.\<close>

definition record_decisions ::
  "(real \<Rightarrow> bytes) \<Rightarrow> (write_outcome \<times> bytes \<times> instant \<times> decision_event) list \<Rightarrow> audit_writer \<Rightarrow> audit_writer" where
  "record_decisions ft ds a = foldl (\<lambda>a (res, spanID, now, ev). audit_ToolCallDecided ft spanID now res ev a) a ds"

lemma audit_ToolCallDecided_ok:
  "\<not> aw_encErr a \<Longrightarrow> audit_ToolCallDecided ft spanID now None ev a =
     a\<lparr>aw_out := aw_out a @ record_line ft (aw_traceID a) (spanID, now, ev) @ [newline], aw_written := aw_written a + 1\<rparr>"
  by (simp add: audit_ToolCallDecided_def encode_line_def record_line_def)

lemma record_decisions_ok:
  "\<not> aw_encErr a \<Longrightarrow> record_decisions ft (map (\<lambda>d. (None, d)) ds) a =
     a\<lparr>aw_out := aw_out a @ concat (map (\<lambda>d. record_line ft (aw_traceID a) d @ [newline]) ds),
       aw_written := aw_written a + length ds\<rparr>"
  by (induction ds arbitrary: a) (auto simp: record_decisions_def audit_ToolCallDecided_ok)

lemma record_decisions_failed:
  "aw_encErr a \<Longrightarrow> aw_failed a \<longleftrightarrow> aw_onError a \<Longrightarrow> record_decisions ft ds a = a"
  by (induction ds) (auto simp: record_decisions_def audit_ToolCallDecided_def encode_line_def reportLocked_def)

text \<open>C31: reading a log gives back the decisions it was written for, in order: session, instant,
  tool, method, effect, rule, targets, scope and audit rules, and for a deny whether it was enforced.\<close>

theorem audit_log_roundtrip:
  assumes "list_all (loggable ft (aw_traceID a)) ds" "\<not> aw_encErr a" "aw_out a = []"
  shows "aw_written (record_decisions ft (map (\<lambda>d. (None, d)) ds) a) = aw_written a + length ds \<and>
    Read (aw_out (record_decisions ft (map (\<lambda>d. (None, d)) ds) a)) = (map (entry_for (aw_traceID a)) ds, [], True)"
proof -
  show ?thesis
    using session_log.read_lines [OF assms(1), of 0 "[]"] assms(2,3)
    by (simp add: record_decisions_ok Read_def session_log.log_text_def)
qed

text \<open>C32: a write that fails part way through a record leaves every earlier record readable, is
  reported by one call of the error callback, if there is one, however many decisions follow, and stops the
  log: nothing is written or counted after it. Reading reports the torn line and nothing else.\<close>

theorem torn_write_hides_nothing:
  assumes "list_all (loggable ft (aw_traceID a)) ds" "\<not> aw_encErr a" "aw_out a = []" "\<not> aw_failed a"
    and "loggable ft (aw_traceID a) d" "k < length (record_line ft (aw_traceID a) d)"
    and a': "a' = record_decisions ft (map (\<lambda>d. (None, d)) ds @ (Some k, d) # rest) a"
  shows "aw_written a' = aw_written a + length ds \<and> aw_failed a' = aw_onError a \<and>
    aw_reports a' = aw_reports a + (if aw_onError a then 1 else 0) \<and>
    Read (aw_out a') = (map (entry_for (aw_traceID a)) ds, if k = 0 then [] else [length ds + 1], True)"
proof -
  let ?b = "record_decisions ft (map (\<lambda>d. (None, d)) ds) a"
  let ?c = "?b\<lparr>aw_out := aw_out ?b @ take k (record_line ft (aw_traceID a) d), aw_encErr := True, aw_failed := aw_onError a,
    aw_reports := aw_reports a + (if aw_onError a then 1 else 0)\<rparr>"
  obtain spanID now ev where d: "d = (spanID, now, ev)" by (cases d)
  have "audit_ToolCallDecided ft spanID now (Some k) ev ?b = ?c"
    using assms(2,4,6) by (simp add: record_decisions_ok audit_ToolCallDecided_def encode_line_def reportLocked_def record_line_def d)
  then have "a' = record_decisions ft rest ?c" by (simp add: a' record_decisions_def d)
  then have "a' = ?c" using record_decisions_failed [of ?c ft rest] by (simp add: record_decisions_ok assms(2))
  with session_log.read_lines [OF assms(1), of 0] session_log.read_torn [OF assms(5,6)] assms(2,3) show ?thesis
    by (simp add: record_decisions_ok Read_def session_log.log_text_def)
qed

text \<open>but a log file is appended to: after a record torn at its first byte, the next session's
  first record is on the torn line, counted as written and lost to the reader.\<close>

theorem record_after_torn_write_is_lost:
  assumes "loggable ft (aw_traceID a) d" "length (record_line ft (aw_traceID a) d) + 1 < MaxLogLine"
    and "\<not> aw_encErr a" "aw_out a = take 1 (record_line ft (aw_traceID b) d')"
  shows "aw_written (record_decisions ft [(None, d)] a) = aw_written a + 1 \<and>
    Read (aw_out (record_decisions ft [(None, d)] a)) = ([], [1], True)"
proof -
  let ?l = "record_line ft (aw_traceID a) d"
  obtain s where l: "?l = CHR ''{'' # CHR 0x22 # s" "last ?l \<noteq> CHR 0x0D"
    using record_line_shape [of ft "aw_traceID a" d] by auto
  have out: "aw_out a = ''{''" using assms(4) record_line_shape [of ft "aw_traceID b" d'] by auto
  have "parse_members n (CHR ''{'' # x) = None" for n x by (subst parse_members.simps) (simp add: HasPrefix_def)
  then have "decode_record (CHR ''{'' # ?l) = None"
    by (simp add: decode_record_def parse_json_def skip_ws_Cons is_ws_def l(1) parse_value.simps [of _ "_ # _"] HasPrefix_def)
  moreover have "scan_line MaxLogLine ((CHR ''{'' # ?l) @ newline # []) = Line (CHR ''{'' # ?l) []"
    using record_line_read(2) [OF assms(1)] assms(2) l by (intro scan_log_line) (auto simp: newline_def)
  ultimately have "Read (''{'' @ ?l @ [newline]) = ([], [1], True)" unfolding Read_def by (subst read_log.simps) simp
  then show ?thesis using record_decisions_ok [OF assms(3), of ft "[d]"] by (simp add: out)
qed

section \<open>Examples\<close>

definition example_denial :: decision_event where
  "example_denial = \<lparr>ev_ID = ''1'', ev_Tool = ''read'', ev_Method = ''tools/call'', ev_Targets = [''/etc/passwd''],
     ev_Effect = EffectDeny, ev_Rule = ''r'', ev_Audited = [], ev_Unenforced = True, ev_Score = 1 / 2,
     ev_ScoreUnavailable = False, ev_SessionCalls = 1, ev_SessionTargets = 1, ev_CallsInWindow = 0,
     ev_TargetsInWindow = 0, ev_RateWindow = 0, ev_ScopeDeclared = True, ev_OutOfScope = 1,
     ev_SessionOutOfScope = 1, ev_ToolDefinitionChanged = False, ev_SessionToolsChanged = 0,
     ev_SchemaKnown = False, ev_ArgsValid = False, ev_SchemaViolations = []\<rparr>"

definition example_decision :: "bytes \<times> instant \<times> decision_event" where
  "example_decision = (''00'', 7, example_denial)"

lemma example_line: "length (record_line (\<lambda>_. ''0'') ''ab'' example_decision) < 10000"
proof -
  have "json_bound (record_json (decided_record (\<lambda>_. ''0'') ''ab'' ''00'' 7 example_denial)) < 10000"
    by (simp add: decided_record_def example_denial_def Attributes_def encodeAttrs_simps encodeValue_def attr_int_def
        EffectDeny_def record_json_def attr_json_def status_json_def key_defs Itoa_def nat_digits.simps)
  with encode_bound(1) show ?thesis unfolding record_line_def example_decision_def prod.case by (rule le_less_trans)
qed

lemma example_loggable: "loggable (\<lambda>_. ''0'') ''ab'' example_decision"
proof -
  have "length (record_line (\<lambda>_. ''0'') ''ab'' example_decision) < MaxLogLine"
    using example_line by (simp add: MaxLogLine_def)
  moreover have "number_ok ''0''" by code_simp
  moreover have "number_in_range ''0''"
    by (simp add: number_in_range_def take_digits_def HasPrefix_def is_digit_def byte_def float_limit_def)
  moreover have "valid_utf8 ''1'' \<and> valid_utf8 ''read'' \<and> valid_utf8 ''tools/call'' \<and> valid_utf8 ''/etc/passwd'' \<and>
      valid_utf8 EffectDeny \<and> valid_utf8 ''r''" by code_simp
  moreover have "valid_utf8 ''ab'' \<and> valid_utf8 ''00'' \<and> int64 7" by code_simp
  ultimately show ?thesis by (simp add: loggable_def example_decision_def recordable_def example_denial_def)
qed

lemma audit_log_roundtrip_witness:
  "Read (aw_out (record_decisions (\<lambda>_. ''0'') (map (\<lambda>d. (None, d)) [example_decision])
     (New_audit [] True ''xy'' ''ab''))) = ([entry_for ''ab'' example_decision], [], True)"
proof -
  have a: "aw_traceID (New_audit [] True ''xy'' ''ab'') = ''ab''" by code_simp
  have l: "list_all (loggable (\<lambda>_. ''0'') ''ab'') [example_decision]" using example_loggable by simp
  show ?thesis
    using audit_log_roundtrip [of "\<lambda>_. ''0''" "New_audit [] True ''xy'' ''ab''" "[example_decision]", unfolded a, OF l]
    by (simp add: New_audit_def)
qed

lemma torn_write_hides_nothing_witness:
  "aw_written (record_decisions (\<lambda>_. ''0'') [(None, example_decision), (Some 9, example_decision), (None, example_decision)]
     (New_audit [] True ''xy'' ''ab'')) = 1 \<and>
   aw_reports (record_decisions (\<lambda>_. ''0'') [(None, example_decision), (Some 9, example_decision), (None, example_decision)]
     (New_audit [] True ''xy'' ''ab'')) = 1 \<and>
   Read (aw_out (record_decisions (\<lambda>_. ''0'') [(None, example_decision), (Some 9, example_decision), (None, example_decision)]
     (New_audit [] True ''xy'' ''ab''))) = ([entry_for ''ab'' example_decision], [2], True)"
proof -
  have a: "aw_traceID (New_audit [] True ''xy'' ''ab'') = ''ab''" by code_simp
  have l: "list_all (loggable (\<lambda>_. ''0'') ''ab'') [example_decision]" using example_loggable by simp
  have k: "9 < length (record_line (\<lambda>_. ''0'') ''ab'' example_decision)"
    by (simp add: record_line_def example_decision_def record_json_def encode_string_def)
  show ?thesis
    using torn_write_hides_nothing [of "\<lambda>_. ''0''" "New_audit [] True ''xy'' ''ab''" "[example_decision]" example_decision 9
        _ "[(None, example_decision)]", unfolded a, OF l _ _ _ example_loggable k refl]
    by (simp add: New_audit_def)
qed

lemma record_after_torn_write_is_lost_witness:
  "aw_out (New_audit ''{'' True ''xy'' ''ab'') = take 1 (record_line (\<lambda>_. ''0'') ''cd'' example_decision) \<and>
   Read (aw_out (record_decisions (\<lambda>_. ''0'') [(None, example_decision)] (New_audit ''{'' True ''xy'' ''ab''))) = ([], [1], True)"
proof -
  let ?a = "New_audit ''{'' True ''xy'' ''ab''"
  have a: "aw_traceID ?a = ''ab''" by code_simp
  have t: "aw_out ?a = take 1 (record_line (\<lambda>_. ''0'') (aw_traceID (?a\<lparr>aw_traceID := ''cd''\<rparr>)) example_decision)"
    using record_line_shape [of "\<lambda>_. ''0''" "''cd''" example_decision] by (auto simp: New_audit_def)
  have n: "length (record_line (\<lambda>_. ''0'') ''ab'' example_decision) + 1 < MaxLogLine"
    using example_line by (simp add: MaxLogLine_def)
  have e: "\<not> aw_encErr ?a" by code_simp
  show ?thesis
    using record_after_torn_write_is_lost [of "\<lambda>_. ''0''" ?a example_decision, unfolded a, OF example_loggable n e t] t
    by simp
qed

end
