(* ===== verification/Hook.thy ===== *)
theory Hook
  imports AuditLog
begin

text \<open>
  The editor hook, \<open>cmd/chokepoint/hook.go\<close>: one process per event, which reads it, loads the policy,
  decides, records the decision and answers with an exit code. File contents, the home folder, the
  clock, random ids, SHA-256, CEL and the text of an error are parameters; paths are those of a
  POSIX system. A panic, which the deferred function turns into a denial, is not modelled.
  The paths a call names (\<open>named_paths\<close>) and the place a path means (\<open>meant_place\<close>) are stated apart from the code
  that picks and resolves them.
\<close>

section \<open>Events\<close>

record hook_event =
  he_SessionID :: bytes
  he_Cwd :: bytes
  he_HookEventName :: bytes
  he_ToolName :: bytes
  he_ToolInput :: args

record hook_config =
  hc_policyPath :: bytes
  hc_auditLog :: bytes
  hc_mode :: bytes
  hc_skipMCP :: bool

definition zero_hook_event :: hook_event where
  "zero_hook_event = \<lparr>he_SessionID = [], he_Cwd = [], he_HookEventName = [], he_ToolName = [], he_ToolInput = None\<rparr>"

definition decode_hook_member :: "hook_event \<Rightarrow> bytes \<times> json \<Rightarrow> hook_event option" where
  "decode_hook_member ev = (\<lambda>(k, v).
     if field_matches ''session_id'' k then map_option (\<lambda>s. ev\<lparr>he_SessionID := s\<rparr>) (string_field (he_SessionID ev) v)
     else if field_matches ''cwd'' k then map_option (\<lambda>s. ev\<lparr>he_Cwd := s\<rparr>) (string_field (he_Cwd ev) v)
     else if field_matches ''hook_event_name'' k
     then map_option (\<lambda>s. ev\<lparr>he_HookEventName := s\<rparr>) (string_field (he_HookEventName ev) v)
     else if field_matches ''tool_name'' k then map_option (\<lambda>s. ev\<lparr>he_ToolName := s\<rparr>) (string_field (he_ToolName ev) v)
     else if field_matches ''tool_input'' k then map_option (\<lambda>a. ev\<lparr>he_ToolInput := a\<rparr>) (decode_arguments (he_ToolInput ev) v)
     else Some ev)"

fun decode_hook_members :: "hook_event \<Rightarrow> (bytes \<times> json) list \<Rightarrow> hook_event option" where
  "decode_hook_members ev [] = Some ev"
| "decode_hook_members ev (m # ms) = Option.bind (decode_hook_member ev m) (\<lambda>ev. decode_hook_members ev ms)"

text \<open>A \<open>json.Decoder\<close> reads one value: what follows an object is left unread, what follows a
  literal must be white space.\<close>

definition decode_hook_event :: "bytes \<Rightarrow> hook_event option" where
  "decode_hook_event stdin =
     (case parse_value max_depth (skip_ws stdin) of
       Some (JObj ms, _) \<Rightarrow> decode_hook_members zero_hook_event ms
     | Some (JNull, r) \<Rightarrow> if r = [] \<or> is_ws (hd r) then Some zero_hook_event else None
     | _ \<Rightarrow> None)"

section \<open>Paths and shell commands\<close>

definition filepath_Join :: "bytes list \<Rightarrow> bytes" where
  "filepath_Join elems =
     (let es = dropWhile (\<lambda>e. e = []) elems in if es = [] then [] else Clean (Join es ''/''))"

definition resolvePath :: "bytes option \<Rightarrow> bytes \<Rightarrow> bytes \<Rightarrow> bytes" where
  "resolvePath home p cwd =
     (let p = TrimSpace p in
      if p = [] \<or> str_contains p ''://'' then p
      else
        let p = (if p = ''~'' \<or> HasPrefix p ''~/''
              then (case home of Some h \<Rightarrow> filepath_Join [h, TrimPrefix p ''~''] | None \<Rightarrow> p) else p)
        in Clean (if HasPrefix p ''/'' then p
             else if HasPrefix p ''/'' \<or> HasPrefix p [CHR 0x5C] then [] @ p
             else if cwd \<noteq> [] then filepath_Join [cwd, p]
             else p))"

definition hasDrive :: "bytes \<Rightarrow> bool" where
  "hasDrive p \<longleftrightarrow> 2 \<le> length p \<and> p ! 1 = CHR '':'' \<and> is_letter (p ! 0)"

definition isShellDevice :: "bytes \<Rightarrow> bool" where
  "isShellDevice p \<longleftrightarrow>
     p \<in> {''/dev/null'', ''/dev/stdin'', ''/dev/stdout'', ''/dev/stderr'', ''/dev/tty'', ''/dev/zero'', ''/dev/random'',
       ''/dev/urandom''} \<or> HasPrefix p ''/dev/fd/''"

definition shell_separator :: "char \<Rightarrow> bool" where
  "shell_separator c \<longleftrightarrow> c = CHR '' '' \<or> c = CHR 0x09 \<or> c = CHR 0x0A \<or> c \<in> set ''|;&<>()`$'' \<or> c = CHR 0x22 \<or> c = CHR 0x27"

text \<open>\<open>strings.FieldsFunc\<close> for a separator that is an ASCII byte.\<close>

fun words :: "(char \<Rightarrow> bool) \<Rightarrow> bytes \<Rightarrow> bytes list" where
  "words sep [] = [[]]"
| "words sep (c # s) =
     (if sep c then [] # words sep s else (case words sep s of [] \<Rightarrow> [[c]] | w # ws \<Rightarrow> (c # w) # ws))"

definition FieldsFunc :: "(char \<Rightarrow> bool) \<Rightarrow> bytes \<Rightarrow> bytes list" where
  "FieldsFunc sep s = filter (\<lambda>w. w \<noteq> []) (words sep s)"

text \<open>What one word of a command contributes.\<close>

definition shell_value :: "bytes \<Rightarrow> bytes option" where
  "shell_value w =
     (if HasPrefix w ''-'' then map_option snd (Cut w ''='')
      else case Cut w ''='' of
        Some (k, v) \<Rightarrow> Some (if \<not> ContainsAny k ''/.'' then v else w)
      | None \<Rightarrow> Some w)"

definition shell_path :: "bytes \<Rightarrow> bytes option" where
  "shell_path w =
     Option.bind (shell_value w) (\<lambda>w.
       let w = TrimPrefix w ''@'' in
       if w = [] then None
       else if isShellDevice w then None
       else if ContainsAny w [CHR ''/'', CHR ''.'', CHR 0x5C] \<or> HasPrefix w ''~'' \<or> hasDrive w then Some w
       else None)"

definition shellPaths :: "bytes \<Rightarrow> bytes list" where
  "shellPaths cmd = List.map_filter shell_path (FieldsFunc shell_separator cmd)"

section \<open>What a call touches\<close>

record hook_targets =
  ht_seen :: "bytes list"
  ht_targets :: "bytes list"
  ht_locations :: "bytes list"

definition hook_add :: "bytes option \<Rightarrow> bytes \<Rightarrow> bytes \<Rightarrow> bool \<Rightarrow> hook_targets \<Rightarrow> hook_targets" where
  "hook_add home cwd t place st =
     (let t = (if place then resolvePath home t cwd else t) in
      if t = [] \<or> t \<in> set (ht_seen st) then st
      else st\<lparr>ht_seen := t # ht_seen st, ht_targets := ht_targets st @ [t],
             ht_locations := (if place then ht_locations st @ [t] else ht_locations st)\<rparr>)"

definition is_url :: "bytes \<Rightarrow> bool" where
  "is_url t \<longleftrightarrow> str_contains t ''://'' \<and> \<not> HasPrefix t ''file://''"

definition hook_shell :: "bytes option \<Rightarrow> bytes \<Rightarrow> bytes \<Rightarrow> hook_targets \<Rightarrow> hook_targets" where
  "hook_shell home cwd t st =
     (let st = hook_add home cwd t (\<not> str_contains t ''://'' \<or> HasPrefix t ''file://'') st
      in if is_url t
         then if ''url:'' @ t \<in> set (ht_seen st) then st
           else st\<lparr>ht_seen := (''url:'' @ t) # ht_seen st, ht_locations := ht_locations st @ [t]\<rparr>
         else st)"

definition input_string :: "args \<Rightarrow> bytes \<Rightarrow> bytes" where
  "input_string input k =
     (case input of
       None \<Rightarrow> []
     | Some ms \<Rightarrow> (case map_of ms k of Some (JStr s) \<Rightarrow> s | _ \<Rightarrow> []))"

definition hook_search :: "bytes option \<Rightarrow> hook_event \<Rightarrow> hook_targets \<Rightarrow> hook_targets" where
  "hook_search home ev st =
     (let root = (if input_string (he_ToolInput ev) ''path'' = [] then ''.'' else input_string (he_ToolInput ev) ''path'');
          pattern = input_string (he_ToolInput ev) ''pattern'';
          st = hook_add home (he_Cwd ev) root True st
      in if he_ToolName ev = ''Glob'' \<and> pattern \<noteq> []
         then
           let base = (if HasPrefix pattern ''/'' \<or> HasPrefix pattern ''~'' then [] else root)
           in hook_add home (he_Cwd ev) (filepath_Join [base, pattern]) True st
         else st)"

definition hookTargets :: "bytes option \<Rightarrow> hook_event \<Rightarrow> bytes list \<times> bytes list" where
  "hookTargets home ev =
     (let places = ExtractLocations (he_ToolInput ev);
          st = foldl (\<lambda>st t. hook_add home (he_Cwd ev) t (t \<in> set places) st)
            \<lparr>ht_seen = [], ht_targets = [], ht_locations = []\<rparr> (ExtractTargets (he_ToolInput ev));
          st = (if he_ToolName ev = ''Glob'' \<or> he_ToolName ev = ''Grep'' then hook_search home ev st
            else if he_ToolName ev = ''Bash''
            then foldl (\<lambda>st t. hook_shell home (he_Cwd ev) t st) st (shellPaths (input_string (he_ToolInput ev) ''command''))
            else st)
      in (ht_targets st, ht_locations st))"

section \<open>The decision\<close>

datatype hook_error = HookInput | HookPolicy bytes | HookMode policy_error | HookWorkspace scope_error

record 'p hook_env =
  hv_load :: "bytes \<Rightarrow> bytes + 'p policy"
  hv_eval :: "'p \<Rightarrow> vars \<Rightarrow> bytes + cel_val"
  hv_home :: "bytes option"
  hv_sha256 :: "bytes \<Rightarrow> bytes"
  hv_openLog :: "bytes option"
  hv_randomHex :: bytes
  hv_spanID :: bytes
  hv_now :: instant
  hv_write :: write_outcome
  hv_ft :: "real \<Rightarrow> bytes"
  hv_text :: "hook_error \<Rightarrow> bytes"

record hook_result =
  hr_code :: nat
  hr_stdout :: bytes
  hr_log :: bytes
  hr_logError :: bool

definition ruleName :: "bytes \<Rightarrow> bytes" where
  "ruleName r = (if r = [] then ''default_effect'' else r)"

definition hook_answer :: "bytes \<Rightarrow> json" where
  "hook_answer reason =
     JMap [(''hookSpecificOutput'', JMap [(''hookEventName'', JStr ''PreToolUse''), (''permissionDecision'', JStr ''deny''),
       (''permissionDecisionReason'', JStr reason)])]"

definition denyHook :: "bytes \<Rightarrow> bool \<Rightarrow> bytes \<Rightarrow> hook_result" where
  "denyHook logged logError reason =
     \<lparr>hr_code = 2, hr_stdout = encode_json (hook_answer reason) @ [newline], hr_log = logged, hr_logError = logError\<rparr>"

definition passHook :: "bytes \<Rightarrow> bool \<Rightarrow> hook_result" where
  "passHook logged logError = \<lparr>hr_code = 0, hr_stdout = [], hr_log = logged, hr_logError = logError\<rparr>"

definition hex_encode :: "bytes \<Rightarrow> bytes" where
  "hex_encode s = concat (map (\<lambda>c. [hex_digit (byte c div 16), hex_digit (byte c mod 16)]) s)"

definition sessionTraceID :: "(bytes \<Rightarrow> bytes) \<Rightarrow> bytes \<Rightarrow> bytes" where
  "sessionTraceID sha256 ident = (if ident = [] then [] else hex_encode (take 16 (sha256 (''claude-code:'' @ ident))))"

definition hook_decision_event :: "hook_event \<Rightarrow> decision \<Rightarrow> bytes list \<Rightarrow> nat \<Rightarrow> bool \<Rightarrow> decision_event" where
  "hook_decision_event ev d targets outOfScope unenforced =
     zero_decision\<lparr>ev_Tool := he_ToolName ev, ev_Method := ''hook/PreToolUse'', ev_Targets := targets,
       ev_Effect := dc_Effect d, ev_Rule := dc_Rule d, ev_Audited := dc_Audited d, ev_Unenforced := unenforced,
       ev_ScoreUnavailable := True, ev_ScopeDeclared := True, ev_OutOfScope := outOfScope\<rparr>"

text \<open>The log after the record, and whether recording it failed.\<close>

definition recordHookDecision ::
  "'p hook_env \<Rightarrow> bytes \<Rightarrow> hook_event \<Rightarrow> decision \<Rightarrow> bytes list \<Rightarrow> nat \<Rightarrow> bool \<Rightarrow> bytes \<times> bool" where
  "recordHookDecision env logged ev d targets outOfScope unenforced =
     (case hv_openLog env of
       Some _ \<Rightarrow> (logged, True)
     | None \<Rightarrow>
         let w = New_audit logged True (sessionTraceID (hv_sha256 env) (he_SessionID ev)) (hv_randomHex env);
             w = audit_ToolCallDecided (hv_ft env) (hv_spanID env) (hv_now env) (hv_write env)
               (hook_decision_event ev d targets outOfScope unenforced) w
         in (aw_out w, aw_failed w))"

definition hook_outOfScope :: "scope \<Rightarrow> bytes list \<Rightarrow> bytes list" where
  "hook_outOfScope sc locations =
     (if Declared sc then filter (\<lambda>l. \<not> Empty (ParseResource l) \<and> \<not> Contains sc (ParseResource l)) locations else [])"

definition hook_request :: "bytes option \<Rightarrow> hook_event \<Rightarrow> scope \<Rightarrow> request" where
  "hook_request home ev sc =
     (let (targets, locations) = hookTargets home ev in
      \<lparr>rq_Tool = he_ToolName ev, rq_Method = ''hook/PreToolUse'', rq_Args = he_ToolInput ev, rq_Targets = targets,
       rq_SessionCalls = 0, rq_SessionTargets = 0, rq_CallsInWindow = 0, rq_TargetsInWindow = 0,
       rq_DecompositionScore = 0, rq_ScopeDeclared = Declared sc, rq_OutOfScope = hook_outOfScope sc locations,
       rq_SessionOutOfScope = 0, rq_ToolDefinitionChanged = False, rq_SessionToolsChanged = 0, rq_SchemaKnown = False,
       rq_ArgsValid = True, rq_SchemaViolations = []\<rparr>)"

definition hook_decide :: "'p hook_env \<Rightarrow> hook_config \<Rightarrow> hook_event \<Rightarrow> 'p policy \<Rightarrow> scope \<Rightarrow> bytes \<Rightarrow> hook_result" where
  "hook_decide env cfg ev pol sc logged =
     (let req = hook_request (hv_home env) ev sc;
          d = Evaluate (hv_eval env) pol req;
          deny = (dc_Effect d = EffectDeny);
          unenforced = (deny \<and> pl_Mode pol = ModeMonitor \<and> \<not> dc_AlwaysEnforce d);
          (logged, logError) = (if hc_auditLog cfg \<noteq> []
            then recordHookDecision env logged ev d (rq_Targets req) (length (rq_OutOfScope req)) unenforced else (logged, False))
      in if \<not> deny \<or> unenforced then passHook logged logError
         else denyHook logged logError
           ((if dc_Message d \<noteq> [] then ''blocked by chokepoint: '' @ dc_Message d else ''blocked by chokepoint policy'') @
            '' (rule '' @ ruleName (dc_Rule d) @ '')''))"

definition runHook :: "'p hook_env \<Rightarrow> hook_config \<Rightarrow> bytes \<Rightarrow> bytes \<Rightarrow> hook_result" where
  "runHook env cfg stdin logged =
     (case decode_hook_event stdin of
       None \<Rightarrow> denyHook logged False (''chokepoint hook could not read its input ('' @ hv_text env HookInput @ ''); refusing'')
     | Some ev \<Rightarrow>
         if he_HookEventName ev \<noteq> [] \<and> he_HookEventName ev \<noteq> ''PreToolUse'' then passHook logged False
         else if hc_skipMCP cfg \<and> HasPrefix (he_ToolName ev) ''mcp__'' then passHook logged False
         else case hv_load env (hc_policyPath cfg) of
           Inl e \<Rightarrow> denyHook logged False
             (''chokepoint policy did not load ('' @ hv_text env (HookPolicy e) @ ''); refusing every call until it is fixed'')
         | Inr pol \<Rightarrow>
             let pol = (if hc_mode cfg \<noteq> [] then pol\<lparr>pl_Mode := hc_mode cfg\<rparr> else pol) in
             case (if hc_mode cfg \<noteq> [] then Mode_Valid (pl_Mode pol) else None) of
               Some e \<Rightarrow> denyHook logged False (hv_text env (HookMode e))
             | None \<Rightarrow>
                 (case NewScope (pl_Workspace pol) of
                   Inl e \<Rightarrow> denyHook logged False (''chokepoint workspace is invalid ('' @ hv_text env (HookWorkspace e) @ ''); refusing'')
                 | Inr sc \<Rightarrow> hook_decide env cfg ev pol sc logged))"

section \<open>Every path is checked\<close>

lemma filepath_Join_rooted:
  assumes "HasPrefix h ''/''"
  shows "HasPrefix (filepath_Join (h # es)) ''/''"
proof -
  have "h \<noteq> []" "HasPrefix (Join (h # es) ''/'') ''/''" using assms by (cases es; auto simp: HasPrefix_iff prefix_def)+
  then show ?thesis by (simp add: filepath_Join_def Clean_rooted_iff)
qed

definition home_expanded :: "bytes option \<Rightarrow> bytes \<Rightarrow> bytes" where
  "home_expanded home t =
     (if t = ''~'' \<or> HasPrefix t ''~/''
      then (case home of Some h \<Rightarrow> filepath_Join [h, TrimPrefix t ''~''] | None \<Rightarrow> t) else t)"

lemma resolvePath_eq:
  assumes "HasPrefix cwd ''/''" "\<And>h. home = Some h \<Longrightarrow> HasPrefix h ''/''"
    "\<not> str_contains (TrimSpace p) ''://''" "TrimSpace p \<noteq> []" "\<not> HasPrefix (TrimSpace p) [CHR 0x5C]"
  defines "q \<equiv> home_expanded home (TrimSpace p)"
  shows "resolvePath home p cwd = Clean (if HasPrefix q ''/'' then q else filepath_Join [cwd, q])"
proof -
  have "\<not> HasPrefix q [CHR 0x5C]"
  proof (cases home)
    case None
    with assms(5) show ?thesis by (simp add: q_def home_expanded_def)
  next
    case (Some h)
    then have "HasPrefix (filepath_Join [h, TrimPrefix (TrimSpace p) ''~'']) ''/''" using assms(2) by (simp add: filepath_Join_rooted)
    then have "\<not> HasPrefix (filepath_Join [h, TrimPrefix (TrimSpace p) ''~'']) [CHR 0x5C]" by (auto simp: HasPrefix_iff prefix_def)
    with Some assms(5) show ?thesis by (simp add: q_def home_expanded_def)
  qed
  moreover have "cwd \<noteq> []" using assms(1) by (auto simp: HasPrefix_iff)
  ultimately show ?thesis
    unfolding resolvePath_def Let_def q_def home_expanded_def using assms(3,4) by simp
qed

lemma resolvePath_rooted:
  assumes "HasPrefix cwd ''/''" "\<And>h. home = Some h \<Longrightarrow> HasPrefix h ''/''"
    "\<not> str_contains (TrimSpace p) ''://''" "TrimSpace p \<noteq> []" "\<not> HasPrefix (TrimSpace p) [CHR 0x5C]"
  shows "HasPrefix (resolvePath home p cwd) ''/''"
  using resolvePath_eq [OF assms(1) _ assms(3-5)] assms(2) filepath_Join_rooted [OF assms(1)]
  by (simp add: Clean_rooted_iff)

text \<open>A cleaned rooted path has no empty element, so it does not read as a URL.\<close>

lemma sublist_double: "a \<notin> set w \<Longrightarrow> sublist [a, a] (w @ s) \<longleftrightarrow> sublist [a, a] s"
  by (induction w) (auto simp: sublist_Cons_right)

lemma no_double: "\<forall>w \<in> set ws. proper_seg w \<Longrightarrow> \<not> sublist ''//'' (CHR ''/'' # Join ws ''/'')"
proof (induction ws)
  case (Cons w ws)
  then have w: "w \<noteq> []" "CHR ''/'' \<notin> set w" by (auto simp: proper_seg_def)
  have "\<not> sublist ''//'' (w @ (if ws = [] then [] else CHR ''/'' # Join ws ''/''))"
    unfolding sublist_double [OF w(2)] using Cons by simp
  moreover have "Join (w # ws) ''/'' = w @ (if ws = [] then [] else CHR ''/'' # Join ws ''/'')" by (cases ws) simp_all
  ultimately show ?case using w by (cases w) (auto simp: sublist_Cons_right)
qed (simp add: sublist_Cons_right)

lemma clean_not_url:
  assumes "HasPrefix (Clean p) ''/''"
  shows "\<not> str_contains (Clean p) ''://''"
proof -
  have "HasPrefix p ''/''" using assms by (simp add: Clean_rooted_iff)
  then obtain ws where ws: "Clean p = ''/'' @ Join ws ''/''" "\<forall>w \<in> set ws. proper_seg w" by (rule Clean_rooted_cases)
  then have "\<not> sublist ''//'' (Clean p)" using no_double by simp
  moreover have "sublist ''//'' ''://''" by (simp add: sublist_Cons_right)
  ultimately show ?thesis by (auto simp: str_contains_iff dest: sublist_order.order_trans)
qed

lemma resolvePath_not_url:
  assumes "\<not> str_contains (TrimSpace p) ''://''" "HasPrefix (resolvePath home p cwd) ''/''"
  shows "\<not> str_contains (resolvePath home p cwd) ''://''"
proof (cases "TrimSpace p = []")
  case True
  with assms show ?thesis by (simp add: resolvePath_def)
next
  case False
  then obtain q where "resolvePath home p cwd = Clean q" using assms(1) by (auto simp: resolvePath_def Let_def)
  with assms(2) clean_not_url show ?thesis by simp
qed

text \<open>What is seen and is a rooted path has become a location.\<close>

definition rooted_path :: "bytes \<Rightarrow> bool" where
  "rooted_path t \<longleftrightarrow> HasPrefix t ''/'' \<and> \<not> str_contains t ''://''"

definition places_seen :: "hook_targets \<Rightarrow> bool" where
  "places_seen st \<longleftrightarrow> (\<forall>t \<in> set (ht_seen st). rooted_path t \<longrightarrow> t \<in> set (ht_locations st))"

definition reached :: "hook_targets \<Rightarrow> hook_targets \<Rightarrow> bool" where
  "reached st st' \<longleftrightarrow> set (ht_locations st) \<subseteq> set (ht_locations st') \<and> (places_seen st \<longrightarrow> places_seen st')"

lemma reached_refl [simp]: "reached st st"
  by (simp add: reached_def)

lemma reached_trans: "reached a b \<Longrightarrow> reached b c \<Longrightarrow> reached a c"
  by (auto simp: reached_def)

lemma hook_add_place:
  "reached st (hook_add home cwd t True st)"
  "places_seen st \<Longrightarrow> rooted_path (resolvePath home t cwd) \<Longrightarrow>
     resolvePath home t cwd \<in> set (ht_locations (hook_add home cwd t True st))"
  by (auto simp: reached_def places_seen_def hook_add_def Let_def rooted_path_def HasPrefix_iff)

lemma hook_add_value: "\<not> rooted_path t \<Longrightarrow> reached st (hook_add home cwd t False st)"
  by (auto simp: reached_def places_seen_def hook_add_def Let_def)

lemma hook_shell_reaches:
  "reached st (hook_shell home cwd t st)"
  "places_seen st \<Longrightarrow> \<not> str_contains t ''://'' \<Longrightarrow> rooted_path (resolvePath home t cwd) \<Longrightarrow>
     resolvePath home t cwd \<in> set (ht_locations (hook_shell home cwd t st))"
proof -
  let ?place = "\<not> str_contains t ''://'' \<or> HasPrefix t ''file://''"
  have "reached st (hook_add home cwd t ?place st)"
    using hook_add_place(1) [of st home cwd t] hook_add_value [of t st home cwd]
    by (cases ?place) (auto simp: rooted_path_def)
  moreover have "reached u (u\<lparr>ht_seen := (''url:'' @ t) # ht_seen u, ht_locations := ht_locations u @ [t]\<rparr>)" for u
    by (auto simp: reached_def places_seen_def rooted_path_def HasPrefix_iff)
  ultimately show "reached st (hook_shell home cwd t st)"
    by (auto simp: hook_shell_def Let_def intro: reached_trans)
  show "places_seen st \<Longrightarrow> \<not> str_contains t ''://'' \<Longrightarrow> rooted_path (resolvePath home t cwd) \<Longrightarrow>
     resolvePath home t cwd \<in> set (ht_locations (hook_shell home cwd t st))"
    using hook_add_place(2) [of st home t cwd] by (simp add: hook_shell_def Let_def is_url_def)
qed

lemma fold_reached:
  assumes "\<And>st t. t \<in> set ts \<Longrightarrow> reached st (f st t)"
  shows "reached st (foldl f st ts)"
  using assms by (induction ts arbitrary: st) (auto intro: reached_trans)

lemma fold_reaches:
  assumes "\<And>st t. t \<in> set ts \<Longrightarrow> reached st (f st t)" "places_seen st" "t \<in> set ts"
    and "\<And>st. places_seen st \<Longrightarrow> p \<in> set (ht_locations (f st t))"
  shows "p \<in> set (ht_locations (foldl f st ts))"
proof -
  obtain us vs where ts: "ts = us @ t # vs" using assms(3) by (meson split_list)
  let ?u = "foldl f st us"
  have "places_seen ?u" using fold_reached [of us f st] assms(1,2) by (auto simp: ts reached_def)
  with assms(4) have "p \<in> set (ht_locations (f ?u t))" by blast
  moreover have "reached (f ?u t) (foldl f (f ?u t) vs)" using assms(1) by (intro fold_reached) (simp add: ts)
  ultimately show ?thesis by (auto simp: ts reached_def)
qed

text \<open>The folder a search starts in.\<close>

definition search_root :: "hook_event \<Rightarrow> bytes" where
  "search_root ev = (if input_string (he_ToolInput ev) ''path'' = [] then ''.'' else input_string (he_ToolInput ev) ''path'')"

text \<open>The paths the code picks: the locations of the arguments, the folder of a search, and the words of a
  shell command.\<close>

definition picked_paths :: "hook_event \<Rightarrow> bytes set" where
  "picked_paths ev = set (ExtractLocations (he_ToolInput ev)) \<union>
     (if he_ToolName ev = ''Glob'' \<or> he_ToolName ev = ''Grep'' then {search_root ev} else {}) \<union>
     (if he_ToolName ev = ''Bash'' then set (shellPaths (input_string (he_ToolInput ev) ''command'')) else {})"

lemma search_reaches:
  "reached st (hook_search home ev st)"
  "places_seen st \<Longrightarrow> rooted_path (resolvePath home (search_root ev) (he_Cwd ev)) \<Longrightarrow>
     resolvePath home (search_root ev) (he_Cwd ev) \<in> set (ht_locations (hook_search home ev st))"
proof -
  let ?s = "hook_add home (he_Cwd ev) (search_root ev) True st"
  have e: "hook_search home ev st = ?s \<or> (\<exists>t. hook_search home ev st = hook_add home (he_Cwd ev) t True ?s)"
    unfolding hook_search_def search_root_def [symmetric] Let_def by auto
  then have r: "reached ?s (hook_search home ev st)" using hook_add_place(1) by auto
  then show "reached st (hook_search home ev st)" using hook_add_place(1) reached_trans by blast
  show "places_seen st \<Longrightarrow> rooted_path (resolvePath home (search_root ev) (he_Cwd ev)) \<Longrightarrow>
     resolvePath home (search_root ev) (he_Cwd ev) \<in> set (ht_locations (hook_search home ev st))"
    using r hook_add_place(2) [of st home "search_root ev" "he_Cwd ev"] by (auto simp: reached_def)
qed

lemma named_path_is_location:
  assumes "p \<in> picked_paths ev" "\<not> str_contains p ''://''" "rooted_path (resolvePath home p (he_Cwd ev))"
  shows "resolvePath home p (he_Cwd ev) \<in> set (snd (hookTargets home ev))"
proof -
  let ?add = "\<lambda>st t. hook_add home (he_Cwd ev) t (t \<in> set (ExtractLocations (he_ToolInput ev))) st"
  let ?ts = "ExtractTargets (he_ToolInput ev)" and ?zero = "\<lparr>ht_seen = [], ht_targets = [], ht_locations = []\<rparr>"
  let ?ws = "shellPaths (input_string (he_ToolInput ev) ''command'')"
  let ?q = "resolvePath home p (he_Cwd ev)" and ?shell = "\<lambda>st t. hook_shell home (he_Cwd ev) t st"
  have cover: "set (ExtractLocations (he_ToolInput ev)) \<subseteq> set ?ts"
    "\<And>t. t \<in> set ?ts \<Longrightarrow> looksLikeLocation t \<Longrightarrow> t \<in> set (ExtractLocations (he_ToolInput ev))"
    using locations_cover_plain_places [of "he_ToolInput ev"] by auto
  have step: "reached st (?add st t)" if "t \<in> set ?ts" for st t
    using that cover(2) [of t] rooted_is_location [of t] hook_add_place(1) [of st home "he_Cwd ev" t]
      hook_add_value [of t st home "he_Cwd ev"]
    by (cases "t \<in> set (ExtractLocations (he_ToolInput ev))") (auto simp: rooted_path_def)
  define st where "st = foldl ?add ?zero ?ts"
  have zero: "places_seen ?zero" by (simp add: places_seen_def)
  then have seen: "places_seen st" using fold_reached [of ?ts ?add ?zero] step by (auto simp: st_def reached_def)
  define st' where "st' = (if he_ToolName ev = ''Glob'' \<or> he_ToolName ev = ''Grep'' then hook_search home ev st
      else if he_ToolName ev = ''Bash'' then foldl ?shell st ?ws else st)"
  have locs: "snd (hookTargets home ev) = ht_locations st'" by (simp add: hookTargets_def st_def st'_def Let_def)
  have later: "reached st st'" by (auto simp: st'_def search_reaches(1) intro: fold_reached hook_shell_reaches(1))
  consider "p \<in> set (ExtractLocations (he_ToolInput ev))" | "he_ToolName ev = ''Glob'' \<or> he_ToolName ev = ''Grep''" "p = search_root ev"
    | "he_ToolName ev = ''Bash''" "p \<in> set ?ws"
    using assms(1) by (auto simp: picked_paths_def split: if_splits)
  then have "?q \<in> set (ht_locations st')"
  proof cases
    case 1
    with cover(1) have "p \<in> set ?ts" by blast
    then have "?q \<in> set (ht_locations st)"
      unfolding st_def using 1 assms(3) hook_add_place(2) by (intro fold_reaches [OF step zero]) auto
    with later show ?thesis by (auto simp: reached_def)
  next
    case 2
    with search_reaches(2) [OF seen] assms(3) show ?thesis by (auto simp: st'_def)
  next
    case 3
    then have "?q \<in> set (ht_locations (foldl ?shell st ?ws))"
      using hook_shell_reaches(2) assms(2,3) by (intro fold_reaches [OF hook_shell_reaches(1) seen]) auto
    with 3 show ?thesis by (simp add: st'_def)
  qed
  with locs show ?thesis by simp
qed

lemma TrimSpace_sublist: "sublist (TrimSpace s) s"
proof -
  have suf: "suffix (strip_leading encs s) s" for encs s using strip_leading_split [of s encs] by (auto simp: suffix_def)
  let ?l = "strip_leading space_encodings s"
  have "prefix (TrimSpace s) ?l" using suf [of "map rev space_encodings" "rev ?l"] by (simp add: TrimSpace_def suffix_to_prefix)
  then show ?thesis using suf [of space_encodings s]
    by (meson prefix_imp_sublist sublist_order.order_trans suffix_imp_sublist)
qed

lemma rooted_not_empty: "HasPrefix p ''/'' \<Longrightarrow> \<not> Empty (ParseResource p)"
  using ParseResource_rooted [OF TrimSpace_rooted, of p] by (simp add: Empty_def Let_def)

section \<open>The paths a call names\<close>

text \<open>A word of a shell command: a maximal run of characters that are not breaks.\<close>

definition shell_breaks :: "char set" where
  "shell_breaks = set ('' |;&<>()`$'' @ [CHR 0x09, CHR 0x0A, CHR 0x22, CHR 0x27])"

definition shell_word :: "bytes \<Rightarrow> bytes \<Rightarrow> bool" where
  "shell_word cmd w \<longleftrightarrow>
     w \<noteq> [] \<and> set w \<inter> shell_breaks = {} \<and>
     (\<exists>pre suf. cmd = pre @ w @ suf \<and> (pre = [] \<or> last pre \<in> shell_breaks) \<and> (suf = [] \<or> hd suf \<in> shell_breaks))"

text \<open>What a word stands for: itself, or the value of an option \<open>--name=value\<close> or an assignment
  \<open>name=value\<close>; a word with a slash or a dot before its equals sign is itself a path.\<close>

inductive word_value :: "bytes \<Rightarrow> bytes \<Rightarrow> bool" where
  plain: "CHR ''='' \<notin> set w \<Longrightarrow> \<not> prefix ''-'' w \<Longrightarrow> word_value w w"
| option: "CHR ''='' \<notin> set k \<Longrightarrow> prefix ''-'' k \<Longrightarrow> word_value (k @ ''='' @ v) v"
| assignment: "CHR ''='' \<notin> set k \<Longrightarrow> CHR ''/'' \<notin> set k \<Longrightarrow> CHR ''.'' \<notin> set k \<Longrightarrow> word_value (k @ ''='' @ v) v"
| path: "CHR ''='' \<notin> set k \<Longrightarrow> \<not> prefix ''-'' k \<Longrightarrow> CHR ''/'' \<in> set k \<or> CHR ''.'' \<in> set k \<Longrightarrow>
    word_value (k @ ''='' @ v) (k @ ''='' @ v)"

text \<open>A path shape: a slash, a dot or a backslash in it, or a tilde or a drive letter in front.\<close>

definition path_shaped :: "bytes \<Rightarrow> bool" where
  "path_shaped p \<longleftrightarrow>
     CHR ''/'' \<in> set p \<or> CHR ''.'' \<in> set p \<or> CHR 0x5C \<in> set p \<or> prefix ''~'' p \<or>
     (\<exists>x q. p = x # CHR '':'' # q \<and> is_letter x)"

text \<open>The words that are exempt: eight device files and whatever starts with \<open>/dev/fd/\<close>.\<close>

definition exempt_word :: "bytes \<Rightarrow> bool" where
  "exempt_word p \<longleftrightarrow>
     p \<in> (\<lambda>d. ''/dev/'' @ d) ` {''null'', ''stdin'', ''stdout'', ''stderr'', ''tty'', ''zero'', ''random'', ''urandom''} \<or>
     prefix ''/dev/fd/'' p"

definition command_paths :: "bytes \<Rightarrow> bytes set" where
  "command_paths cmd =
     {p. \<exists>w v. shell_word cmd w \<and> word_value w v \<and> (v = CHR ''@'' # p \<or> v = p \<and> \<not> prefix ''@'' v) \<and>
        path_shaped p \<and> \<not> exempt_word p}"

text \<open>The paths a call names: those of its arguments, the folder a search starts in, those of a shell
  command.\<close>

definition named_paths :: "hook_event \<Rightarrow> bytes set" where
  "named_paths ev =
     (case he_ToolInput ev of None \<Rightarrow> {} | Some ms \<Rightarrow> argument_paths ms) \<union>
     (if he_ToolName ev \<in> {''Glob'', ''Grep''} then {search_root ev} else {}) \<union>
     (if he_ToolName ev = ''Bash'' then command_paths (input_string (he_ToolInput ev) ''command'') else {})"

text \<open>The place a path means in a working folder: its elements from the root, after the white
  space around it is dropped, \<open>~\<close> is the home folder and dots are walked.\<close>

definition meant_place :: "bytes option \<Rightarrow> bytes \<Rightarrow> bytes \<Rightarrow> bytes list" where
  "meant_place home cwd p =
     (let t = TrimSpace p in
      walk (if prefix ''/'' t then t
        else case (t = ''~'' \<or> prefix ''~/'' t, home) of (True, Some h) \<Rightarrow> h @ drop 1 t | _ \<Rightarrow> cwd @ ''/'' @ t))"

subsection \<open>Every one of them is picked\<close>

lemma shell_separator_iff: "shell_separator c \<longleftrightarrow> c \<in> shell_breaks"
  by (auto simp: shell_separator_def shell_breaks_def)

lemma words_neq_Nil [simp]: "words sep s \<noteq> []"
  by (cases s) (auto split: list.splits)

lemma words_break: "sep c \<Longrightarrow> words sep (a @ c # b) = words sep a @ words sep b"
  by (induction a) (auto split: list.splits)

lemma words_one: "\<forall>c \<in> set w. \<not> sep c \<Longrightarrow> words sep w = [w]"
  by (induction w) auto

lemma words_prefix:
  assumes "\<forall>c \<in> set w. \<not> sep c" "s = [] \<or> sep (hd s)"
  shows "w \<in> set (words sep (w @ s))"
  using assms words_break [of sep "hd s" w "tl s"] by (cases s) (auto simp: words_one)

lemma shell_word_field:
  assumes "shell_word cmd w"
  shows "w \<in> set (FieldsFunc shell_separator cmd)"
proof -
  from assms obtain pre suf where c: "cmd = pre @ w @ suf" "w \<noteq> []" "\<forall>c \<in> set w. \<not> shell_separator c"
    and pre: "pre = [] \<or> shell_separator (last pre)" and suf: "suf = [] \<or> shell_separator (hd suf)"
    by (auto simp: shell_word_def shell_separator_iff)
  have w: "w \<in> set (words shell_separator (w @ suf))" using c(3) suf by (rule words_prefix)
  have "w \<in> set (words shell_separator cmd)"
  proof (cases pre rule: rev_cases)
    case (snoc us x)
    then have "words shell_separator cmd = words shell_separator us @ words shell_separator (w @ suf)"
      using pre c(1) words_break [of shell_separator x us "w @ suf"] by simp
    with w show ?thesis by simp
  qed (use w c(1) in simp)
  with c(2) show ?thesis by (simp add: FieldsFunc_def)
qed

lemma Cut_eq: "CHR ''='' \<notin> set k \<Longrightarrow> Cut (k @ ''='' @ v) ''='' = Some (k, v)"
  by (induction k) (auto simp: HasPrefix_def)

lemma Cut_none: "CHR ''='' \<notin> set w \<Longrightarrow> Cut w ''='' = None"
  by (induction w) (auto simp: HasPrefix_def)

lemma word_value_shell: "word_value w v \<Longrightarrow> shell_value w = Some v"
proof (induction rule: word_value.induct)
  case (plain w)
  then show ?case by (simp add: shell_value_def HasPrefix_iff Cut_none)
next
  case (option k v)
  then have "HasPrefix (k @ ''='' @ v) ''-''" by (auto simp: HasPrefix_iff prefix_def)
  then show ?case unfolding shell_value_def Cut_eq [OF option(1)] by simp
next
  case (assignment k v)
  then have "\<not> ContainsAny k ''/.''" by (auto simp: ContainsAny_def list_ex_iff)
  then show ?case unfolding shell_value_def Cut_eq [OF assignment(1)] by simp
next
  case (path k v)
  then have "ContainsAny k ''/.''" "\<not> HasPrefix (k @ ''='' @ v) ''-''"
    by (cases k; auto simp: ContainsAny_def list_ex_iff HasPrefix_iff)+
  then show ?case unfolding shell_value_def Cut_eq [OF path(1)] by simp
qed

lemma exempt_word_device: "isShellDevice p \<Longrightarrow> exempt_word p"
  by (auto simp: isShellDevice_def exempt_word_def HasPrefix_iff)

lemma path_shaped_picked:
  assumes "path_shaped p"
  shows "p \<noteq> []" "ContainsAny p [CHR ''/'', CHR ''.'', CHR 0x5C] \<or> HasPrefix p ''~'' \<or> hasDrive p"
proof -
  have "ContainsAny p [CHR ''/'', CHR ''.'', CHR 0x5C] \<longleftrightarrow>
      CHR ''/'' \<in> set p \<or> CHR ''.'' \<in> set p \<or> CHR 0x5C \<in> set p"
    by (auto simp only: ContainsAny_def list_ex_iff list.set)
  moreover have "hasDrive p" if "p = x # CHR '':'' # q" "is_letter x" for x q
    using that by (simp add: hasDrive_def)
  ultimately show "ContainsAny p [CHR ''/'', CHR ''.'', CHR 0x5C] \<or> HasPrefix p ''~'' \<or> hasDrive p"
    using assms unfolding path_shaped_def HasPrefix_iff by blast
  show "p \<noteq> []" using assms by (auto simp: path_shaped_def)
qed

lemma command_path_picked:
  assumes "p \<in> command_paths cmd"
  shows "p \<in> set (shellPaths cmd)"
proof -
  from assms obtain w v where w: "shell_word cmd w" "word_value w v"
    and v: "v = CHR ''@'' # p \<or> v = p \<and> \<not> prefix ''@'' v" and p: "path_shaped p" "\<not> exempt_word p"
    by (auto simp: command_paths_def)
  have "TrimPrefix v ''@'' = p" using v by (auto simp: TrimPrefix_def HasPrefix_iff)
  then have "shell_path w = Some p"
    using word_value_shell [OF w(2)] path_shaped_picked [OF p(1)] p(2) exempt_word_device [of p]
    by (auto simp: shell_path_def Let_def)
  with shell_word_field [OF w(1)] show ?thesis by (force simp: shellPaths_def List.map_filter_def)
qed

lemma named_path_picked: "p \<in> named_paths ev \<Longrightarrow> p \<in> picked_paths ev"
  using argument_paths_collected command_path_picked
  by (auto simp: named_paths_def picked_paths_def split: option.splits if_splits)

lemma split_on_append: "split_on c (a @ c # b) = split_on c a @ split_on c b"
  by (induction a) (auto split: list.splits)

lemma walk_append: "walk (a @ CHR ''/'' # b) = foldl enter (walk a) (split_on CHR ''/'' b)"
  by (simp add: walk_def split_on_append)

lemma Clean_walk: "HasPrefix p ''/'' \<Longrightarrow> Clean p = ''/'' @ Join (walk p) ''/''"
  using cleanPath_walk [of p] cleanPath_eq [of p] by (cases "p = []") (auto simp: HasPrefix_def)

lemma Clean_Clean: "HasPrefix p ''/'' \<Longrightarrow> Clean (Clean p) = Clean p"
proof -
  assume p: "HasPrefix p ''/''"
  then have "Clean (Clean p) = ''/'' @ Join (walk (Clean p)) ''/''"
    by (intro Clean_walk) (simp only: Clean_rooted_iff)
  also have "walk (Clean p) = walk p"
    unfolding Clean_walk [OF p] by (rule walk_clean) (use walk_proper in blast)
  finally show ?thesis unfolding Clean_walk [OF p] .
qed

lemma Clean_Join_rooted:
  assumes "HasPrefix h ''/''"
  shows "Clean (filepath_Join [h, x]) = ''/'' @ Join (foldl enter (walk h) (split_on CHR ''/'' x)) ''/''"
proof -
  have h: "h \<noteq> []" "HasPrefix (h @ CHR ''/'' # x) ''/''" using assms by (auto simp: HasPrefix_iff prefix_def)
  then show ?thesis
    using Clean_Clean [OF h(2)] Clean_walk [OF h(2)] by (simp add: filepath_Join_def walk_append)
qed

lemma resolvePath_meant:
  assumes cwd: "HasPrefix cwd ''/''" and home: "\<And>h. home = Some h \<Longrightarrow> HasPrefix h ''/''"
    and p: "\<not> str_contains (TrimSpace p) ''://''" "TrimSpace p \<noteq> []" "\<not> HasPrefix (TrimSpace p) [CHR 0x5C]"
  shows "resolvePath home p cwd = ''/'' @ Join (meant_place home cwd p) ''/''"
proof -
  let ?t = "TrimSpace p"
  have eq: "resolvePath home p cwd = Clean (if HasPrefix (home_expanded home ?t) ''/''
      then home_expanded home ?t else filepath_Join [cwd, home_expanded home ?t])"
    by (rule resolvePath_eq [OF cwd _ p]) (rule home)
  consider (root) "HasPrefix ?t ''/''" | (home) h where "?t = ''~'' \<or> HasPrefix ?t ''~/''" "home = Some h"
    | (other) "\<not> HasPrefix ?t ''/''" "home_expanded home ?t = ?t" "\<not> (?t = ''~'' \<or> HasPrefix ?t ''~/'') \<or> home = None"
  proof (cases "HasPrefix ?t ''/''")
    case False
    then show thesis using home other by (cases home) (auto simp: home_expanded_def)
  qed (rule root)
  then show ?thesis
  proof cases
    case root
    then have "home_expanded home ?t = ?t" by (auto simp: home_expanded_def HasPrefix_iff prefix_def)
    with root Clean_walk [OF root] show ?thesis unfolding eq by (simp add: meant_place_def Let_def HasPrefix_iff)
  next
    case (home h)
    have h: "HasPrefix h ''/''" by (rule assms(2) [OF home(2)])
    have x: "home_expanded home ?t = filepath_Join [h, drop 1 ?t]"
      using home by (auto simp: home_expanded_def TrimPrefix_def HasPrefix_iff prefix_def)
    have "foldl enter (walk h) (split_on CHR ''/'' (drop 1 ?t)) = walk (h @ drop 1 ?t)"
      using home(1) by (auto simp: HasPrefix_iff prefix_def walk_append)
    moreover have "\<not> prefix ''/'' ?t" using home(1) by (auto simp: HasPrefix_iff prefix_def)
    ultimately show ?thesis
      using Clean_Join_rooted [OF h, of "drop 1 ?t"] filepath_Join_rooted [OF h] home unfolding eq x
      by (simp add: meant_place_def Let_def HasPrefix_iff)
  next
    case other
    then have "\<not> prefix ''/'' ?t" by (simp add: HasPrefix_iff)
    moreover have "(case (?t = ''~'' \<or> prefix ''~/'' ?t, home) of (True, Some h) \<Rightarrow> h @ drop 1 ?t | _ \<Rightarrow> cwd @ ''/'' @ ?t) =
        cwd @ ''/'' @ ?t"
      using other(3) by (auto simp: HasPrefix_iff split: option.splits bool.splits)
    ultimately show ?thesis
      using Clean_Join_rooted [OF cwd, of ?t] other(1) unfolding eq other(2)
      by (simp add: meant_place_def Let_def walk_append)
  qed
qed

text \<open>C6: In a declared workspace every path a call names is checked, wherever it names it: a path in its
  arguments, the folder a search starts in, or a path-shaped word of a shell command, taken in the
  working folder and the home folder and cleared of dots, is reported as out of scope exactly when
  the workspace does not contain it. Left out are URIs, which are checked as they are, paths that
  start with a backslash, and, of the words of a command, the standard device files with whatever
  starts with \<open>/dev/fd/\<close>.\<close>

theorem hook_checks_every_path:
  assumes "HasPrefix (he_Cwd ev) ''/''" "\<forall>h. home = Some h \<longrightarrow> HasPrefix h ''/''" "Declared sc"
    and "p \<in> named_paths ev" "\<not> str_contains p ''://''" "TrimSpace p \<noteq> []" "\<not> HasPrefix (TrimSpace p) [CHR 0x5C]"
  shows "let q = ''/'' @ Join (meant_place home (he_Cwd ev) p) ''/''
    in q \<in> set (rq_OutOfScope (hook_request home ev sc)) \<longleftrightarrow> \<not> Contains sc (ParseResource q)"
proof -
  let ?q = "resolvePath home p (he_Cwd ev)"
  have t: "\<not> str_contains (TrimSpace p) ''://''"
    using assms(5) TrimSpace_sublist [of p] by (auto simp: str_contains_iff dest: sublist_order.order_trans)
  have r: "HasPrefix ?q ''/''" using assms(1,2,6,7) t by (intro resolvePath_rooted) auto
  then have "rooted_path ?q" using resolvePath_not_url [OF t] by (simp add: rooted_path_def)
  with named_path_picked [OF assms(4)] assms(5) have "?q \<in> set (snd (hookTargets home ev))"
    by (rule named_path_is_location)
  moreover have "?q = ''/'' @ Join (meant_place home (he_Cwd ev) p) ''/''"
    using assms(1,2,6,7) t by (intro resolvePath_meant) auto
  ultimately show ?thesis
    using r rooted_not_empty [OF r] assms(3)
    by (auto simp: Let_def hook_request_def hook_outOfScope_def split: prod.splits)
qed

text \<open>The exemption of \<open>/dev/fd/\<close> is a prefix test before any dot is walked: an absolute path to
  another place that starts so is not checked, written as it is or read by the shell.\<close>

lemma device_prefix_escapes:
  "shellPaths ''cat /dev/fd/../../etc/passwd'' = [] \<and>
   ''/'' @ Join (meant_place None ''/w'' ''/dev/fd/../../etc/passwd'') ''/'' = ''/etc/passwd''"
  by code_simp

section \<open>The answer\<close>

text \<open>When a call is let through: the event is not one to decide, or the policy loaded, its mode and
  workspace are valid, and its decision is not a denial that is enforced.\<close>

definition hook_lets_through :: "'p hook_env \<Rightarrow> hook_event \<Rightarrow> 'p policy \<Rightarrow> scope \<Rightarrow> bool" where
  "hook_lets_through env ev pol sc \<longleftrightarrow>
     (let d = Evaluate (hv_eval env) pol (hook_request (hv_home env) ev sc)
      in dc_Effect d \<noteq> EffectDeny \<or> (pl_Mode pol = ModeMonitor \<and> \<not> dc_AlwaysEnforce d))"

definition not_for_hook :: "hook_config \<Rightarrow> hook_event \<Rightarrow> bool" where
  "not_for_hook cfg ev \<longleftrightarrow> he_HookEventName ev \<notin> {[], ''PreToolUse''} \<or> hc_skipMCP cfg \<and> HasPrefix (he_ToolName ev) ''mcp__''"

definition effective_policy :: "hook_config \<Rightarrow> 'p policy \<Rightarrow> 'p policy" where
  "effective_policy cfg pol = (if hc_mode cfg = [] then pol else pol\<lparr>pl_Mode := hc_mode cfg\<rparr>)"

definition valid_mode :: "hook_config \<Rightarrow> bool" where
  "valid_mode cfg \<longleftrightarrow> hc_mode cfg \<in> {[], ModeEnforce, ModeMonitor}"

definition hook_passes :: "'p hook_env \<Rightarrow> hook_config \<Rightarrow> bytes \<Rightarrow> bool" where
  "hook_passes env cfg stdin \<longleftrightarrow>
     (\<exists>ev. decode_hook_event stdin = Some ev \<and>
       (not_for_hook cfg ev \<or>
        (\<exists>pol sc. hv_load env (hc_policyPath cfg) = Inr pol \<and> valid_mode cfg \<and> NewScope (pl_Workspace pol) = Inr sc \<and>
          hook_lets_through env ev (effective_policy cfg pol) sc)))"

lemma decide_answer:
  "hr_code (hook_decide env cfg ev pol sc lg) = (if hook_lets_through env ev pol sc then 0 else 2) \<and>
   (hr_code (hook_decide env cfg ev pol sc lg) = 0 \<longrightarrow> hr_stdout (hook_decide env cfg ev pol sc lg) = []) \<and>
   (hr_code (hook_decide env cfg ev pol sc lg) = 2 \<longrightarrow>
     (\<exists>reason. hr_stdout (hook_decide env cfg ev pol sc lg) = encode_json (hook_answer reason) @ [newline]))"
  by (auto simp: hook_decide_def hook_lets_through_def denyHook_def passHook_def Let_def split: prod.splits)

lemma runHook_eq:
  assumes "decode_hook_event stdin = Some ev"
  shows "runHook env cfg stdin lg =
    (if not_for_hook cfg ev then passHook lg False
     else case hv_load env (hc_policyPath cfg) of
       Inl e \<Rightarrow> denyHook lg False
         (''chokepoint policy did not load ('' @ hv_text env (HookPolicy e) @ ''); refusing every call until it is fixed'')
     | Inr pol \<Rightarrow>
         if \<not> valid_mode cfg then denyHook lg False (hv_text env (HookMode (ModeUnknown (hc_mode cfg))))
         else case NewScope (pl_Workspace pol) of
           Inl e \<Rightarrow> denyHook lg False (''chokepoint workspace is invalid ('' @ hv_text env (HookWorkspace e) @ ''); refusing'')
         | Inr sc \<Rightarrow> hook_decide env cfg ev (effective_policy cfg pol) sc lg)"
  unfolding runHook_def assms option.case not_for_hook_def valid_mode_def effective_policy_def Mode_Valid_def Let_def
  by (cases "hv_load env (hc_policyPath cfg)") (auto split: sum.splits)

lemma runHook_cases:
  obtains (early) ev where "runHook env cfg stdin lg = passHook lg False" "decode_hook_event stdin = Some ev" "not_for_hook cfg ev"
  | (refused) reason where "runHook env cfg stdin lg = denyHook lg False reason" "\<not> hook_passes env cfg stdin"
  | (decided) ev pol sc where "decode_hook_event stdin = Some ev" "\<not> not_for_hook cfg ev"
      "hv_load env (hc_policyPath cfg) = Inr pol" "valid_mode cfg" "NewScope (pl_Workspace pol) = Inr sc"
      "runHook env cfg stdin lg = hook_decide env cfg ev (effective_policy cfg pol) sc lg"
proof (cases "decode_hook_event stdin")
  case None
  then show thesis using refused by (simp add: runHook_def hook_passes_def)
next
  case (Some ev)
  note eq = runHook_eq [OF Some, of env cfg lg]
  consider "not_for_hook cfg ev"
    | e where "\<not> not_for_hook cfg ev" "hv_load env (hc_policyPath cfg) = Inl e"
    | pol where "\<not> not_for_hook cfg ev" "hv_load env (hc_policyPath cfg) = Inr pol" "\<not> valid_mode cfg"
    | pol e where "\<not> not_for_hook cfg ev" "hv_load env (hc_policyPath cfg) = Inr pol" "valid_mode cfg" "NewScope (pl_Workspace pol) = Inl e"
    | pol sc where "\<not> not_for_hook cfg ev" "hv_load env (hc_policyPath cfg) = Inr pol" "valid_mode cfg" "NewScope (pl_Workspace pol) = Inr sc"
    by (metis sum.exhaust)
  then show thesis
  proof cases
    case 1
    with eq Some early show thesis by simp
  next
    case 2
    with Some have "\<not> hook_passes env cfg stdin" by (simp add: hook_passes_def)
    with eq 2 refused show thesis by simp
  next
    case 3
    with Some have "\<not> hook_passes env cfg stdin" by (simp add: hook_passes_def)
    with eq 3 refused show thesis by simp
  next
    case 4
    with Some have "\<not> hook_passes env cfg stdin" by (simp add: hook_passes_def)
    with eq 4 refused show thesis by simp
  next
    case 5
    with eq Some decided show thesis by simp
  qed
qed

text \<open>C5: the hook never fails open: whatever its input, its policy and the state of its log, it exits
  with 0 and prints nothing exactly when the event is not its own or the policy lets the call
  through, and with 2 and a printed denial in every other case, errors included.\<close>

theorem hook_never_fails_open:
  "hr_code (runHook env cfg stdin lg) = (if hook_passes env cfg stdin then 0 else 2) \<and>
   (\<exists>reason. hr_stdout (runHook env cfg stdin lg) =
     (if hook_passes env cfg stdin then [] else encode_json (hook_answer reason) @ [newline]))"
proof (cases rule: runHook_cases [of env cfg stdin lg])
  case (early ev)
  then have "hook_passes env cfg stdin" by (auto simp: hook_passes_def)
  with early(1) show ?thesis by (simp add: passHook_def)
next
  case (refused reason)
  then show ?thesis by (auto simp: denyHook_def)
next
  case (decided ev pol sc)
  then have "hook_passes env cfg stdin \<longleftrightarrow> hook_lets_through env ev (effective_policy cfg pol) sc"
    by (auto simp: hook_passes_def)
  with decide_answer [of env cfg ev "effective_policy cfg pol" sc lg] decided(6) show ?thesis by (auto split: if_splits)
qed

section \<open>The record\<close>

text \<open>A log holding the records of earlier processes, each with its own session.\<close>

definition log_lines :: "(real \<Rightarrow> bytes) \<Rightarrow> (bytes \<times> bytes \<times> instant \<times> decision_event) list \<Rightarrow> bytes" where
  "log_lines ft ds = concat (map (\<lambda>(traceID, d). record_line ft traceID d @ [newline]) ds)"

lemma log_lines_text: "log_lines ft ds = mixed_log.log_text ft ds"
  unfolding log_lines_def mixed_log.log_text_def by (simp add: case_prod_unfold)

definition hook_event_logged :: "'p hook_env \<Rightarrow> hook_event \<Rightarrow> 'p policy \<Rightarrow> scope \<Rightarrow> decision_event" where
  "hook_event_logged env ev pol sc =
     (let req = hook_request (hv_home env) ev sc; d = Evaluate (hv_eval env) pol req
      in hook_decision_event ev d (rq_Targets req) (length (rq_OutOfScope req))
        (dc_Effect d = EffectDeny \<and> pl_Mode pol = ModeMonitor \<and> \<not> dc_AlwaysEnforce d))"

definition hook_trace :: "'p hook_env \<Rightarrow> hook_event \<Rightarrow> bytes" where
  "hook_trace env ev = traceIDOr (sessionTraceID (hv_sha256 env) (he_SessionID ev)) (hv_randomHex env)"

lemma decide_log:
  assumes "hc_auditLog cfg \<noteq> []" "hv_openLog env = None" "hv_write env = None"
  shows "hr_log (hook_decide env cfg ev pol sc lg) =
      lg @ record_line (hv_ft env) (hook_trace env ev) (hv_spanID env, hv_now env, hook_event_logged env ev pol sc) @ [newline] \<and>
    \<not> hr_logError (hook_decide env cfg ev pol sc lg)"
proof -
  let ?a = "New_audit lg True (sessionTraceID (hv_sha256 env) (he_SessionID ev)) (hv_randomHex env)"
  have "\<not> aw_encErr ?a" by (simp add: New_audit_def)
  note ok = audit_ToolCallDecided_ok [OF this, of "hv_ft env" "hv_spanID env" "hv_now env"]
  have "recordHookDecision env lg ev d ts n u =
      (lg @ record_line (hv_ft env) (hook_trace env ev) (hv_spanID env, hv_now env, hook_decision_event ev d ts n u) @ [newline], False)"
    for d ts n u
    unfolding recordHookDecision_def assms(2,3) Let_def option.case ok by (simp add: New_audit_def hook_trace_def)
  with assms(1) show ?thesis
    by (simp add: hook_decide_def hook_event_logged_def denyHook_def passHook_def Let_def)
qed

text \<open>C7: the evidence agrees with what was done: a decided event adds one record to a log of earlier
  processes' records, reading the log gives them all back, and the new entry, under the trace of its
  session, is an enforced breach exactly when the call was refused.\<close>

theorem hook_record_agrees_with_exit:
  assumes "decode_hook_event stdin = Some ev" "\<not> not_for_hook cfg ev" "hv_load env (hc_policyPath cfg) = Inr pol"
    and "valid_mode cfg" "NewScope (pl_Workspace pol) = Inr sc"
    and "hc_auditLog cfg \<noteq> []" "hv_openLog env = None" "hv_write env = None"
    and "list_all (\<lambda>(traceID, d). loggable (hv_ft env) traceID d) ds"
    and "loggable (hv_ft env) (hook_trace env ev)
      (hv_spanID env, hv_now env, hook_event_logged env ev (effective_policy cfg pol) sc)"
  shows "\<exists>e. Read (hr_log (runHook env cfg stdin (log_lines (hv_ft env) ds))) =
      (map (\<lambda>(traceID, d). entry_for traceID d) ds @ [e], [], True) \<and>
    en_Session e = hook_trace env ev \<and> en_Tool e = he_ToolName ev \<and>
    (Breach e \<and> en_Enforced e \<longleftrightarrow> hr_code (runHook env cfg stdin (log_lines (hv_ft env) ds)) = 2)"
proof -
  let ?lg = "log_lines (hv_ft env) ds" and ?pol = "effective_policy cfg pol"
  let ?d = "(hv_spanID env, hv_now env, hook_event_logged env ev ?pol sc)"
  let ?e = "entry_for (hook_trace env ev) ?d"
  have run: "runHook env cfg stdin ?lg = hook_decide env cfg ev ?pol sc ?lg"
    unfolding runHook_eq [OF assms(1)] using assms(2-5) by simp
  have "Read (hr_log (runHook env cfg stdin ?lg)) = (map (\<lambda>(traceID, d). entry_for traceID d) ds @ [?e], [], True)"
  proof -
    have "hr_log (runHook env cfg stdin ?lg) = ?lg @ record_line (hv_ft env) (hook_trace env ev) ?d @ [newline]"
      using decide_log [OF assms(6-8)] by (simp add: run)
    then show ?thesis
      using mixed_log.read_lines [OF assms(9), of 0] session_log.read_line [OF assms(10), of _ "[]"]
      by (simp add: Read_def log_lines_text)
  qed
  moreover have "Breach ?e \<and> en_Enforced ?e \<longleftrightarrow> hr_code (runHook env cfg stdin ?lg) = 2"
    using decide_answer [of env cfg ev ?pol sc ?lg]
    by (auto simp: run entry_for_def entry_of_def Breach_def EffectDeny_def hook_event_logged_def hook_decision_event_def
        hook_lets_through_def Let_def)
  ultimately show ?thesis
    by (intro exI [of _ ?e]) (simp add: entry_for_def entry_of_def hook_event_logged_def hook_decision_event_def Let_def)
qed

section \<open>A URL the check does not see\<close>

definition shell_event :: "bytes \<Rightarrow> hook_event" where
  "shell_event cmd = \<lparr>he_SessionID = ''s'', he_Cwd = ''/w'', he_HookEventName = ''PreToolUse'', he_ToolName = ''Bash'',
     he_ToolInput = Some [(''command'', JStr cmd)]\<rparr>"

text \<open>The keys \<open>url:\<close> + URL share the set of the targets seen: a word that is a URL behind \<open>url:\<close>, which
  reads as an opaque URI and is never out of scope, hides the URL itself from the workspace check.\<close>

lemma prefixed_copy_hides_url:
  "case NewScope [''/w''] of
     Inl _ \<Rightarrow> False
   | Inr sc \<Rightarrow> rq_OutOfScope (hook_request None (shell_event ''wget https://e.x/s'') sc) = [''https://e.x/s''] \<and>
       rq_OutOfScope (hook_request None (shell_event ''echo url:https://e.x/s;wget https://e.x/s'') sc) = []"
  by code_simp

lemma hook_checks_every_path_witness:
  "case NewScope [''/w''] of
     Inl _ \<Rightarrow> False
   | Inr sc \<Rightarrow> ''../a.txt'' \<in> named_paths (shell_event ''cat ../a.txt'') \<and>
       ''/a.txt'' \<in> set (rq_OutOfScope (hook_request None (shell_event ''cat ../a.txt'') sc))"
proof -
  obtain sc where sc: "NewScope [''/w''] = Inr sc" "Declared sc" "\<not> Contains sc (ParseResource ''/a.txt'')"
  proof -
    have "case NewScope [''/w''] of Inl _ \<Rightarrow> False | Inr sc \<Rightarrow> Declared sc \<and> \<not> Contains sc (ParseResource ''/a.txt'')" by code_simp
    with that show thesis by (auto split: sum.splits)
  qed
  have "shell_word ''cat ../a.txt'' ''../a.txt''"
    unfolding shell_word_def by (intro conjI exI [of _ "''cat ''"] exI [of _ "[]"]) (simp_all add: shell_breaks_def)
  moreover have "word_value ''../a.txt'' ''../a.txt''" by (rule word_value.plain) simp_all
  moreover have "path_shaped ''../a.txt''" "\<not> exempt_word ''../a.txt''"
    by (auto simp: path_shaped_def exempt_word_def)
  ultimately have "''../a.txt'' \<in> command_paths ''cat ../a.txt''"
    unfolding command_paths_def by force
  moreover have "he_ToolName (shell_event ''cat ../a.txt'') = ''Bash''"
    "input_string (he_ToolInput (shell_event ''cat ../a.txt'')) ''command'' = ''cat ../a.txt''" by code_simp+
  ultimately have n: "''../a.txt'' \<in> named_paths (shell_event ''cat ../a.txt'')" by (simp add: named_paths_def)
  have c: "HasPrefix (he_Cwd (shell_event ''cat ../a.txt'')) ''/''" "\<forall>h. (None :: bytes option) = Some h \<longrightarrow> HasPrefix h ''/''"
    "\<not> str_contains ''../a.txt'' ''://''" "TrimSpace ''../a.txt'' \<noteq> []" "\<not> HasPrefix (TrimSpace ''../a.txt'') [CHR 0x5C]"
    "''/'' @ Join (meant_place None (he_Cwd (shell_event ''cat ../a.txt'')) ''../a.txt'') ''/'' = ''/a.txt''"
    by (code_simp, simp, code_simp+)
  from hook_checks_every_path [OF c(1,2) sc(2) n c(3-5)] have "''/a.txt'' \<in> set (rq_OutOfScope (hook_request None (shell_event ''cat ../a.txt'') sc))"
    unfolding Let_def c(6) using sc(3) by blast
  with sc(1) n show ?thesis by simp
qed

text \<open>A decided event, recorded after another process's record.\<close>

definition example_hook_policy :: "unit policy" where
  "example_hook_policy = \<lparr>pl_DefaultEffect = EffectDeny, pl_Workspace = [], pl_RateWindow = [], pl_Mode = ModeEnforce,
     pl_Rules = [], pl_rateWindow = 0\<rparr>"

definition example_hook_env :: "unit hook_env" where
  "example_hook_env = \<lparr>hv_load = \<lambda>_. Inr example_hook_policy, hv_eval = \<lambda>_ _. Inl [], hv_home = None,
     hv_sha256 = \<lambda>_. ''0123456789abcdef'', hv_openLog = None, hv_randomHex = ''ab'', hv_spanID = ''00'', hv_now = 7,
     hv_write = None, hv_ft = \<lambda>_. ''0'', hv_text = \<lambda>_. []\<rparr>"

definition example_hook_config :: hook_config where
  "example_hook_config = \<lparr>hc_policyPath = ''p'', hc_auditLog = ''l'', hc_mode = [], hc_skipMCP = True\<rparr>"
lemma hook_names:
  "fold_name ''session_id'' = ''SESSION_ID''" "fold_name ''cwd'' = ''CWD''" "fold_name ''hook_event_name'' = ''HOOK_EVENT_NAME''"
  "fold_name ''tool_name'' = ''TOOL_NAME''" "fold_name ''tool_input'' = ''TOOL_INPUT''"
  by code_simp+

definition example_stdin :: bytes where
  "example_stdin = encode_json (JObj [(''tool_name'', JStr ''Bash'')])"

definition example_hook_event :: hook_event where
  "example_hook_event = zero_hook_event\<lparr>he_ToolName := ''Bash''\<rparr>"

lemma example_stdin_decodes: "decode_hook_event example_stdin = Some example_hook_event"
proof -
  have "valid_utf8 ''tool_name''" "valid_utf8 ''Bash''" by code_simp+
  then have "valid_json max_depth (JObj [(''tool_name'', JStr ''Bash'')])" by (simp add: max_depth_def)
  then have "parse_value max_depth (example_stdin @ []) = Some (JObj [(''tool_name'', JStr ''Bash'')], [])"
    using encode_parses ends_simps(1) unfolding example_stdin_def parses_def by blast
  moreover have "skip_ws example_stdin = example_stdin" by (simp add: example_stdin_def skip_ws_Cons is_ws_def)
  ultimately show ?thesis
    by (simp add: decode_hook_event_def decode_hook_member_def field_matches_iff hook_names string_field_def zero_hook_event_def
        example_hook_event_def del: fold_name.simps)
qed

lemma example_hook_logged:
  "hook_event_logged example_hook_env example_hook_event example_hook_policy \<lparr>sc_entries = []\<rparr> =
     zero_decision\<lparr>ev_Tool := ''Bash'', ev_Method := ''hook/PreToolUse'', ev_Effect := EffectDeny,
       ev_ScoreUnavailable := True, ev_ScopeDeclared := True\<rparr>"
  by code_simp

lemma example_hook_loggable:
  "loggable (hv_ft example_hook_env) (hook_trace example_hook_env example_hook_event)
     (hv_spanID example_hook_env, hv_now example_hook_env,
      hook_event_logged example_hook_env example_hook_event (effective_policy example_hook_config example_hook_policy) \<lparr>sc_entries = []\<rparr>)"
proof -
  let ?ev = "zero_decision\<lparr>ev_Tool := ''Bash'', ev_Method := ''hook/PreToolUse'', ev_Effect := EffectDeny,
       ev_ScoreUnavailable := True, ev_ScopeDeclared := True\<rparr>"
  have t: "hook_trace example_hook_env example_hook_event = ''ab''" by code_simp
  have p: "effective_policy example_hook_config example_hook_policy = example_hook_policy" by code_simp
  have "json_bound (record_json (decided_record (\<lambda>_. ''0'') ''ab'' ''00'' 7 ?ev)) < 10000"
    by (simp add: decided_record_def zero_decision_def Attributes_def encodeAttrs_simps encodeValue_def attr_int_def
        EffectDeny_def record_json_def attr_json_def status_json_def key_defs Itoa_def nat_digits.simps)
  with encode_bound(1) have "length (record_line (\<lambda>_. ''0'') ''ab'' (''00'', 7, ?ev)) < 10000"
    unfolding record_line_def prod.case by (rule le_less_trans)
  moreover have "valid_utf8 [] \<and> valid_utf8 ''Bash'' \<and> valid_utf8 ''hook/PreToolUse'' \<and> valid_utf8 EffectDeny \<and>
    valid_utf8 ''ab'' \<and> valid_utf8 ''00'' \<and> int64 7" by code_simp
  ultimately show ?thesis
    unfolding t p example_hook_logged
    by (simp add: loggable_def example_hook_env_def recordable_def zero_decision_def MaxLogLine_def)
qed

lemma hook_record_agrees_with_exit_witness:
  "\<exists>e. Read (hr_log (runHook example_hook_env example_hook_config example_stdin
       (log_lines (\<lambda>_. ''0'') [(''ab'', example_decision)]))) = ([entry_for ''ab'' example_decision, e], [], True) \<and>
     en_Session e = ''ab'' \<and> en_Tool e = ''Bash'' \<and> Breach e \<and> en_Enforced e"
proof -
  let ?ds = "[(''ab'', example_decision)]"
  have ft: "hv_ft example_hook_env = (\<lambda>_. ''0'')" by (simp add: example_hook_env_def)
  have c: "\<not> not_for_hook example_hook_config example_hook_event" "valid_mode example_hook_config"
    "NewScope (pl_Workspace example_hook_policy) = Inr \<lparr>sc_entries = []\<rparr>"
    "hc_auditLog example_hook_config \<noteq> []" "hook_trace example_hook_env example_hook_event = ''ab''"
    "he_ToolName example_hook_event = ''Bash''"
    "\<not> hook_lets_through example_hook_env example_hook_event (effective_policy example_hook_config example_hook_policy) \<lparr>sc_entries = []\<rparr>"
    by code_simp+
  have e: "hv_load example_hook_env (hc_policyPath example_hook_config) = Inr example_hook_policy"
    "hv_openLog example_hook_env = None" "hv_write example_hook_env = None" by (simp_all add: example_hook_env_def)
  have l: "list_all (\<lambda>(traceID, d). loggable (hv_ft example_hook_env) traceID d) ?ds" using example_loggable by (simp add: ft)
  have "hr_code (runHook example_hook_env example_hook_config example_stdin lg) = 2" for lg
    by (simp add: runHook_eq [OF example_stdin_decodes] c e decide_answer [THEN conjunct1])
  with hook_record_agrees_with_exit [OF example_stdin_decodes c(1) e(1) c(2,3,4) e(2,3) l example_hook_loggable]
  show ?thesis by (simp add: ft c(5,6))
qed

end
