(* ===== verification/Configs.thy ===== *)
theory Configs
  imports Hook
begin

text \<open>
  The commands that edit an agent's configuration, \<open>cmd/chokepoint/commands.go\<close> and \<open>hook.go\<close>:
  \<open>wrap\<close>, \<open>unwrap\<close>, \<open>hook install\<close> and \<open>hook uninstall\<close>, their options and their effect on the decoded
  document. Reading, backing up and replacing the file are input and output; the paths the commands
  compute from the environment are arguments. Paths are those of a POSIX system.
\<close>

section \<open>Options\<close>

definition defaultPolicyFile :: bytes where
  "defaultPolicyFile = ''chokepoint.yaml''"

text \<open>\<open>next\<close> gives the following argument, or nothing at the end.\<close>

fun hook_flags :: "bytes list \<Rightarrow> hook_config \<Rightarrow> bytes + hook_config" where
  "hook_flags [] cfg = Inr cfg"
| "hook_flags (a # as) cfg =
     (let nxt = (case as of [] \<Rightarrow> [] | v # _ \<Rightarrow> v) in
      if a = ''--policy'' then hook_flags (drop 1 as) (cfg\<lparr>hc_policyPath := nxt\<rparr>)
      else if a = ''--audit-log'' then hook_flags (drop 1 as) (cfg\<lparr>hc_auditLog := nxt\<rparr>)
      else if a = ''--mode'' then hook_flags (drop 1 as) (cfg\<lparr>hc_mode := nxt\<rparr>)
      else if a = ''--skip-mcp'' then hook_flags as (cfg\<lparr>hc_skipMCP := True\<rparr>)
      else Inl a)"

datatype hook_command = HookInstall "bytes list" | HookUninstall "bytes list" | HookRun hook_config | HookFail bytes

definition hook_args :: "bytes list \<Rightarrow> hook_command" where
  "hook_args args =
     (case hook_flags args \<lparr>hc_policyPath = defaultPolicyFile, hc_auditLog = [], hc_mode = [], hc_skipMCP = False\<rparr> of
       Inl a \<Rightarrow> HookFail a
     | Inr cfg \<Rightarrow> HookRun cfg)"

definition cmdHook :: "bytes list \<Rightarrow> hook_command" where
  "cmdHook args =
     (case args of
       [] \<Rightarrow> hook_args args
     | a # as \<Rightarrow> if a = ''install'' then HookInstall as else if a = ''uninstall'' then HookUninstall as else hook_args args)"

datatype option_error = NeedsPath bytes | UnknownOption bytes | OneConfigFile | Usage

record install_options =
  io_settings :: bytes
  io_policy :: bytes
  io_skip :: bytes

fun install_flags :: "bytes list \<Rightarrow> install_options \<Rightarrow> option_error + install_options" where
  "install_flags [] o' = Inr o'"
| "install_flags (a # as) o' =
     (if a = ''--settings'' then (case as of [] \<Rightarrow> Inl (NeedsPath a) | v # as \<Rightarrow> install_flags as (o'\<lparr>io_settings := v\<rparr>))
      else if a = ''--policy'' then (case as of [] \<Rightarrow> Inl (NeedsPath a) | v # as \<Rightarrow> install_flags as (o'\<lparr>io_policy := v\<rparr>))
      else if a = ''--skip-mcp'' then install_flags as (o'\<lparr>io_skip := ''on''\<rparr>)
      else if a = ''--all-tools'' then install_flags as (o'\<lparr>io_skip := ''off''\<rparr>)
      else Inl (UnknownOption a))"

definition install_args :: "bytes list \<Rightarrow> option_error + install_options" where
  "install_args args =
     install_flags args \<lparr>io_settings = filepath_Join [''.claude'', ''settings.local.json''], io_policy = defaultPolicyFile, io_skip = []\<rparr>"

definition uninstall_args :: "bytes list \<Rightarrow> option_error + bytes" where
  "uninstall_args args =
     (case args of
       [] \<Rightarrow> Inr (filepath_Join [''.claude'', ''settings.local.json''])
     | [a, v] \<Rightarrow> if a = ''--settings'' then Inr v else Inl Usage
     | _ \<Rightarrow> Inl Usage)"

text \<open>\<open>wrap\<close>: the policy path and the positional arguments.\<close>

fun wrap_flags :: "bytes list \<Rightarrow> bytes \<times> bytes list \<Rightarrow> option_error + bytes \<times> bytes list" where
  "wrap_flags [] st = Inr st"
| "wrap_flags (a # as) (policyPath, positional) =
     (if a = ''--policy'' then (case as of [] \<Rightarrow> Inl (NeedsPath a) | v # as \<Rightarrow> wrap_flags as (v, positional))
      else if HasPrefix a ''-'' then Inl (UnknownOption a)
      else wrap_flags as (policyPath, positional @ [a]))"

definition wrap_args :: "bytes list \<Rightarrow> option_error + bytes \<times> bytes" where
  "wrap_args args =
     (case wrap_flags args (defaultPolicyFile, []) of
       Inl e \<Rightarrow> Inl e
     | Inr (policyPath, positional) \<Rightarrow>
         if length positional > 1 then Inl OneConfigFile
         else Inr (if length positional = 1 then positional ! 0 else ''.mcp.json'', policyPath))"

definition unwrap_args :: "bytes list \<Rightarrow> option_error + bytes" where
  "unwrap_args args =
     (if length args > 1 then Inl OneConfigFile else Inr (if length args = 1 then args ! 0 else ''.mcp.json''))"

section \<open>Documents\<close>

type_synonym doc = "(bytes \<times> json) list"

text \<open>A type assertion that fails gives the zero value.\<close>

definition as_string :: "json option \<Rightarrow> bytes" where
  "as_string v = (case v of Some (JStr s) \<Rightarrow> s | _ \<Rightarrow> [])"

definition as_list :: "json option \<Rightarrow> json list" where
  "as_list v = (case v of Some (JArr es) \<Rightarrow> es | _ \<Rightarrow> [])"

definition as_map :: "json option \<Rightarrow> doc" where
  "as_map v = (case v of Some (JObj ms) \<Rightarrow> ms | _ \<Rightarrow> [])"

definition toStrings :: "json option \<Rightarrow> bytes list" where
  "toStrings v = List.map_filter (\<lambda>it. case it of JStr s \<Rightarrow> Some s | _ \<Rightarrow> None) (as_list v)"

definition toAny :: "bytes list \<Rightarrow> json list" where
  "toAny s = map JStr s"

section \<open>Hook installation\<close>

definition shellQuote :: "bytes \<Rightarrow> bytes" where
  "shellQuote s = [CHR 0x27] @ ReplaceByte s CHR 0x27 [CHR 0x27, CHR 0x5C, CHR 0x27, CHR 0x27] @ [CHR 0x27]"

definition install_command :: "bytes \<Rightarrow> bytes \<Rightarrow> bytes \<Rightarrow> bool \<Rightarrow> bytes" where
  "install_command self policyAbs logFile skipMCP =
     shellQuote self @ '' hook --policy '' @ shellQuote policyAbs @ '' --audit-log '' @ shellQuote logFile @
     (if skipMCP then '' --skip-mcp'' else [])"

definition preToolUse :: "doc \<Rightarrow> json list" where
  "preToolUse d = as_list (map_of (as_map (map_of d ''hooks'')) ''PreToolUse'')"

definition setPreToolUse :: "doc \<Rightarrow> json list \<Rightarrow> doc" where
  "setPreToolUse d pre =
     (let hooks = as_map (map_of d ''hooks'') in
      if length pre = 0 then
        let hooks = AList.delete ''PreToolUse'' hooks
        in if length hooks = 0 then AList.delete ''hooks'' d else AList.update ''hooks'' (JObj hooks) d
      else AList.update ''hooks'' (JObj (AList.update ''PreToolUse'' (JArr pre) hooks)) d)"

definition group_hooks :: "json \<Rightarrow> json list" where
  "group_hooks g = as_list (map_of (as_map (Some g)) ''hooks'')"

definition hook_text :: "json \<Rightarrow> bytes" where
  "hook_text h = as_string (map_of (as_map (Some h)) ''command'')"

definition is_chokepoint_hook :: "bytes \<Rightarrow> bool" where
  "is_chokepoint_hook c \<longleftrightarrow> str_contains c ''chokepoint'' \<and> str_contains c '' hook ''"

definition hookCommandIn :: "json list \<Rightarrow> bytes" where
  "hookCommandIn pre =
     (case find is_chokepoint_hook (concat (map (\<lambda>g. map hook_text (group_hooks g)) pre)) of Some c \<Rightarrow> c | None \<Rightarrow> [])"

definition isChokepointHookGroup :: "json \<Rightarrow> bool" where
  "isChokepointHookGroup g \<longleftrightarrow> hookCommandIn [g] \<noteq> []"

definition withoutChokepointHooks :: "json list \<Rightarrow> json list \<times> bool" where
  "withoutChokepointHooks pre = (filter (Not \<circ> isChokepointHookGroup) pre, list_ex isChokepointHookGroup pre)"

definition hook_entry :: "bytes \<Rightarrow> json" where
  "hook_entry command =
     JMap [(''matcher'', JStr ''*''),
       (''hooks'', JArr [JMap [(''type'', JStr ''command''), (''command'', JStr command), (''timeout'', JNum ''30'')]])]"

text \<open>The document after the edit, and whether it changed.\<close>

definition install_edit :: "bytes \<Rightarrow> doc \<Rightarrow> doc \<times> bool" where
  "install_edit command d =
     (let pre = preToolUse d; (kept, had) = withoutChokepointHooks pre
      in if had \<and> hookCommandIn pre = command then (d, False)
         else (setPreToolUse d (kept @ [hook_entry command]), True))"

definition uninstall_edit :: "doc \<Rightarrow> doc \<times> bool" where
  "uninstall_edit d =
     (let (kept, had) = withoutChokepointHooks (preToolUse d)
      in if \<not> had then (d, False) else (setPreToolUse d kept, True))"

section \<open>Wrapping servers\<close>

text \<open>\<open>filepath.Base\<close>.\<close>

definition Base :: "bytes \<Rightarrow> bytes" where
  "Base p =
     (if p = [] then ''.''
      else
        let p = rev (dropWhile (\<lambda>c. c = CHR ''/'') (rev p));
            p = (case cut_last_byte CHR ''/'' p of Some (_, b) \<Rightarrow> b | None \<Rightarrow> p)
        in if p = [] then ''/'' else p)"

text \<open>\<open>self\<close> is this binary's resolved path, if it is known.\<close>

definition isChokepoint :: "bytes option \<Rightarrow> bytes \<Rightarrow> bool" where
  "isChokepoint self command \<longleftrightarrow> Base command = ''chokepoint'' \<or> self = Some command"

definition mcp_servers :: "doc \<Rightarrow> doc" where
  "mcp_servers d = as_map (map_of d ''mcpServers'')"

definition wrap_server :: "bytes \<Rightarrow> bytes \<Rightarrow> (bytes \<Rightarrow> bytes) \<Rightarrow> bytes \<Rightarrow> doc \<Rightarrow> doc \<times> bool" where
  "wrap_server self policyAbs logFile name srv =
     (let command = as_string (map_of srv ''command'') in
      if command = [] then (srv, False)
      else if isChokepoint (Some self) command then (srv, False)
      else
        let orig = toStrings (map_of srv ''args'');
            srv = AList.update ''command'' (JStr self) srv
        in (AList.update ''args'' (JArr ([JStr ''--policy'', JStr policyAbs, JStr ''--audit-log'', JStr (logFile name), JStr ''--''] @
              toAny (command # orig))) srv, True))"

fun after_dashes :: "bytes list \<Rightarrow> (bytes \<times> bytes list) option" where
  "after_dashes (v # c # rest) = (if v = ''--'' then Some (c, rest) else after_dashes (c # rest))"
| "after_dashes _ = None"

definition unwrap_server :: "bytes option \<Rightarrow> doc \<Rightarrow> doc \<times> bool" where
  "unwrap_server self srv =
     (if \<not> isChokepoint self (as_string (map_of srv ''command'')) then (srv, False)
      else case after_dashes (toStrings (map_of srv ''args'')) of
        None \<Rightarrow> (srv, False)
      | Some (c, rest) \<Rightarrow>
          let srv = AList.update ''command'' (JStr c) srv
          in (if length rest = 0 then AList.delete ''args'' srv else AList.update ''args'' (JArr (toAny rest)) srv, True))"

text \<open>\<open>rewriteServers\<close>: the servers in the order of their names; a map is edited in place.\<close>

definition rewrite_step :: "(bytes \<Rightarrow> doc \<Rightarrow> doc \<times> bool) \<Rightarrow> doc \<times> bool \<Rightarrow> bytes \<Rightarrow> doc \<times> bool" where
  "rewrite_step edit = (\<lambda>(servers, changed) n.
     case map_of servers n of
       Some (JObj srv) \<Rightarrow>
         let (srv, did) = edit n srv in (AList.update n (JObj srv) servers, changed \<or> did)
     | _ \<Rightarrow> (servers, changed))"

definition rewriteServers :: "(bytes \<Rightarrow> doc \<Rightarrow> doc \<times> bool) \<Rightarrow> doc \<Rightarrow> doc \<times> bool" where
  "rewriteServers edit d =
     (let servers = mcp_servers d in
      if length servers = 0 then (d, False)
      else
        let (servers, changed) = foldl (rewrite_step edit) (servers, False) (sorted_list_of_set (set (map fst servers)))
        in (AList.update ''mcpServers'' (JObj servers) d, changed))"

definition wrap :: "bytes \<Rightarrow> bytes \<Rightarrow> (bytes \<Rightarrow> bytes) \<Rightarrow> doc \<Rightarrow> doc \<times> bool" where
  "wrap self policyAbs logFile = rewriteServers (wrap_server self policyAbs logFile)"

definition unwrap :: "bytes option \<Rightarrow> doc \<Rightarrow> doc \<times> bool" where
  "unwrap self = rewriteServers (\<lambda>_. unwrap_server self)"

section \<open>The file\<close>

text \<open>\<open>editJSONFile\<close>: the bytes of the file, if it exists, and an edit give an error, no change, or the
  document to write with the backup to keep. A file that holds \<open>null\<close> gives a nil map, which can be
  read and not written.\<close>

datatype edit_outcome = EditMissing | EditMalformed | EditUnchanged | EditPanic | EditWrite doc "bytes option"

definition editJSONFile :: "bytes option \<Rightarrow> bool \<Rightarrow> (doc \<Rightarrow> doc \<times> bool) \<Rightarrow> edit_outcome" where
  "editJSONFile file create edit =
     (let original = (case file of Some s \<Rightarrow> s | None \<Rightarrow> []) in
      if file = None \<and> \<not> create then EditMissing
      else
        let decoded = (if length (TrimSpace original) > 0 then parse_json original else Some (JObj []))
        in case decoded of
          Some JNull \<Rightarrow> if snd (edit []) then EditPanic else EditUnchanged
        | Some (JObj ms) \<Rightarrow>
            if \<not> numbers_ok (JObj ms) then EditMalformed
            else
              let (d, changed) = edit (as_map (Some (to_any (JObj ms))))
              in if \<not> changed then EditUnchanged else EditWrite d file
        | _ \<Rightarrow> EditMalformed)"

section \<open>Association lists\<close>

lemma update_twice: "AList.update k v (AList.update k w al) = AList.update k v al"
  by (induction al) auto

lemma update_same: "map_of al k = Some v \<Longrightarrow> AList.update k v al = al"
  by (induction al) auto

lemma delete_update: "AList.delete k (AList.update k v al) = AList.delete k al"
  by (induction al) auto

lemma delete_absent: "map_of al k = None \<Longrightarrow> AList.delete k al = al"
  by (simp add: map_of_eq_None_iff delete_id)

lemma update_absent: "map_of al k = None \<Longrightarrow> AList.delete k (AList.update k v al) = al"
  by (simp add: delete_update delete_absent)

lemma update_commute_present:
  "map_of al k = Some u \<Longrightarrow> k \<noteq> l \<Longrightarrow> AList.update k v (AList.update l w al) = AList.update l w (AList.update k v al)"
  by (induction al) auto

lemma delete_update_other: "k \<noteq> l \<Longrightarrow> AList.delete k (AList.update l w al) = AList.update l w (AList.delete k al)"
  by (induction al) auto

lemma lookup_update: "map_of (AList.update k v al) l = (if l = k then Some v else map_of al l)"
  by (simp add: update_conv')

lemma lookup_delete: "map_of (AList.delete k al) l = (if l = k then None else map_of al l)"
  by (simp add: delete_conv')

lemma update_neq_Nil [simp]: "AList.update k v al \<noteq> []"
  by (cases al) auto

lemmas alist_edit = update_twice update_same delete_update delete_absent lookup_update lookup_delete

section \<open>Installing and removing the hook\<close>

lemma as_simps [simp]:
  "as_string (Some (JStr s)) = s" "as_string None = []" "as_list (Some (JArr es)) = es" "as_list None = []"
  "as_map (Some (JObj ms)) = ms" "as_map None = []"
  by (simp_all add: as_string_def as_list_def as_map_def)

lemma preToolUse_set: "pre \<noteq> [] \<Longrightarrow> preToolUse (setPreToolUse d pre) = pre"
  by (simp add: preToolUse_def setPreToolUse_def lookup_update)

lemma setPreToolUse_again: "pre \<noteq> [] \<Longrightarrow> setPreToolUse (setPreToolUse d pre) pre' = setPreToolUse d pre'"
  by (simp add: setPreToolUse_def alist_edit Let_def)

text \<open>A document with nothing for the edit to tidy away: no \<open>hooks\<close>, or a non-empty object of them whose
  \<open>PreToolUse\<close>, if present, is a non-empty list.\<close>

definition tidy :: "doc \<Rightarrow> bool" where
  "tidy d \<longleftrightarrow>
     (case map_of d ''hooks'' of
       None \<Rightarrow> True
     | Some (JObj h) \<Rightarrow> h \<noteq> [] \<and> (case map_of h ''PreToolUse'' of None \<Rightarrow> True | Some (JArr pre) \<Rightarrow> pre \<noteq> [] | _ \<Rightarrow> False)
     | _ \<Rightarrow> False)"

lemma set_own_hooks:
  assumes "tidy d"
  shows "setPreToolUse d (preToolUse d) = d"
proof (cases "map_of d ''hooks''")
  case None
  then show ?thesis by (simp add: preToolUse_def setPreToolUse_def delete_absent)
next
  case (Some v)
  with assms obtain h where v: "v = JObj h" "h \<noteq> []" by (cases v) (auto simp: tidy_def)
  have own: "AList.update ''hooks'' (JObj h) d = d" using Some v by (simp add: update_same)
  show ?thesis
  proof (cases "map_of h ''PreToolUse''")
    case None
    with Some v own show ?thesis by (simp add: preToolUse_def setPreToolUse_def delete_absent)
  next
    case (Some w)
    with assms \<open>map_of d ''hooks'' = Some v\<close> v obtain pre where w: "w = JArr pre" "pre \<noteq> []"
      by (cases w) (auto simp: tidy_def)
    then have "AList.update ''PreToolUse'' (JArr pre) h = h" using Some by (simp add: update_same)
    with Some w v own \<open>map_of d ''hooks'' = Some v\<close> show ?thesis by (simp add: preToolUse_def setPreToolUse_def)
  qed
qed

lemma find_append: "find P (xs @ ys) = (case find P xs of None \<Rightarrow> find P ys | Some x \<Rightarrow> Some x)"
  by (induction xs) auto

lemma find_concat_None:
  "(\<forall>g \<in> set pre. \<not> isChokepointHookGroup g) \<Longrightarrow>
    find is_chokepoint_hook (concat (map (\<lambda>g. map hook_text (group_hooks g)) pre)) = None"
proof -
  have "find is_chokepoint_hook (map hook_text (group_hooks g)) = None" if "\<not> isChokepointHookGroup g" for g
  proof (rule ccontr)
    assume "find is_chokepoint_hook (map hook_text (group_hooks g)) \<noteq> None"
    then obtain c where c: "find is_chokepoint_hook (map hook_text (group_hooks g)) = Some c" by blast
    then have "is_chokepoint_hook c" by (auto simp: find_Some_iff)
    then have "c \<noteq> []" by (auto simp: is_chokepoint_hook_def str_contains_def)
    with c that show False by (simp add: isChokepointHookGroup_def hookCommandIn_def)
  qed
  then show "(\<forall>g \<in> set pre. \<not> isChokepointHookGroup g) \<Longrightarrow> ?thesis"
    by (fastforce simp: find_None_iff)
qed

lemma hook_entry_text: "map hook_text (group_hooks (hook_entry c)) = [c]"
  by (simp add: hook_entry_def JMap_def group_hooks_def hook_text_def)

lemma entry_is_ours: "is_chokepoint_hook c \<Longrightarrow> isChokepointHookGroup (hook_entry c)"
  by (auto simp: isChokepointHookGroup_def hookCommandIn_def hook_entry_text is_chokepoint_hook_def str_contains_def)

lemma command_after_others:
  "is_chokepoint_hook c \<Longrightarrow> \<forall>g \<in> set pre. \<not> isChokepointHookGroup g \<Longrightarrow> hookCommandIn (pre @ [hook_entry c]) = c"
  using find_concat_None [of pre] by (simp add: hookCommandIn_def hook_entry_text find_append)

lemma without_others:
  "\<forall>g \<in> set kept. \<not> isChokepointHookGroup g \<Longrightarrow> is_chokepoint_hook c \<Longrightarrow>
    withoutChokepointHooks (kept @ [hook_entry c]) = (kept, True)"
  by (simp add: withoutChokepointHooks_def entry_is_ours comp_def)

lemma sublist_ReplaceByte:
  assumes "str_contains s w" "c \<notin> set w"
  shows "str_contains (ReplaceByte s c new) w"
proof -
  from assms(1) obtain a b where "s = a @ w @ b" by (auto simp: str_contains_iff sublist_def)
  moreover have "ReplaceByte w c new = w" using assms(2) by (induction w) (auto simp: ReplaceByte_def)
  ultimately have "ReplaceByte s c new = ReplaceByte a c new @ w @ ReplaceByte b c new" by (simp add: ReplaceByte_def)
  then show ?thesis by (auto simp: str_contains_iff sublist_def)
qed

lemma contains_within: "str_contains s w \<Longrightarrow> str_contains (a @ s @ b) w"
  by (auto simp: str_contains_iff sublist_def) (metis append.assoc)

lemma install_command_ours: "str_contains logFile ''chokepoint'' \<Longrightarrow> is_chokepoint_hook (install_command self p logFile skip)"
proof -
  assume "str_contains logFile ''chokepoint''"
  then have "str_contains (shellQuote logFile) ''chokepoint''"
    unfolding shellQuote_def by (intro contains_within sublist_ReplaceByte) auto
  then have "str_contains (install_command self p logFile skip) ''chokepoint''"
    using contains_within [of "shellQuote logFile" "''chokepoint''" "shellQuote self @ '' hook --policy '' @ shellQuote p @ '' --audit-log ''"
        "if skip then '' --skip-mcp'' else []"]
    by (simp add: install_command_def)
  moreover have "str_contains ('' hook '' @ s) '' hook ''" for s by (auto simp: str_contains_iff)
  then have "str_contains (install_command self p logFile skip) '' hook ''"
    using contains_within [of "'' hook '' @ ''--policy ''" "'' hook ''" "shellQuote self"
        "shellQuote p @ '' --audit-log '' @ shellQuote logFile @ (if skip then '' --skip-mcp'' else [])"]
    by (simp add: install_command_def)
  ultimately show ?thesis by (simp add: is_chokepoint_hook_def)
qed

lemma setPreToolUse_frame:
  "preToolUse (setPreToolUse d pre) = pre"
  "k \<noteq> ''hooks'' \<Longrightarrow> map_of (setPreToolUse d pre) k = map_of d k"
  "k \<noteq> ''PreToolUse'' \<Longrightarrow>
    map_of (as_map (map_of (setPreToolUse d pre) ''hooks'')) k = map_of (as_map (map_of d ''hooks'')) k"
proof -
  have none: "map_of (as_map (map_of d ''hooks'')) k = None"
    if "AList.delete ''PreToolUse'' (as_map (map_of d ''hooks'')) = []" "k \<noteq> ''PreToolUse''" for k
    using lookup_delete [of "''PreToolUse''" "as_map (map_of d ''hooks'')" k] that by simp
  show "preToolUse (setPreToolUse d pre) = pre" "k \<noteq> ''hooks'' \<Longrightarrow> map_of (setPreToolUse d pre) k = map_of d k"
    "k \<noteq> ''PreToolUse'' \<Longrightarrow>
      map_of (as_map (map_of (setPreToolUse d pre) ''hooks'')) k = map_of (as_map (map_of d ''hooks'')) k"
    using none by (auto simp: preToolUse_def setPreToolUse_def Let_def lookup_update lookup_delete)
qed

lemma install_then_uninstall:
  assumes c: "is_chokepoint_hook c"
  shows "uninstall_edit (fst (install_edit c d)) =
      (setPreToolUse d (filter (Not \<circ> isChokepointHookGroup) (preToolUse d)), True) \<and>
    install_edit c (fst (install_edit c d)) = (fst (install_edit c d), False)"
proof -
  let ?kept = "filter (Not \<circ> isChokepointHookGroup) (preToolUse d)"
  have k: "\<forall>g \<in> set ?kept. \<not> isChokepointHookGroup g" by simp
  show ?thesis
  proof (cases "list_ex isChokepointHookGroup (preToolUse d) \<and> hookCommandIn (preToolUse d) = c")
    case True
    then show ?thesis by (simp add: install_edit_def uninstall_edit_def withoutChokepointHooks_def)
  next
    case False
    then have i: "install_edit c d = (setPreToolUse d (?kept @ [hook_entry c]), True)"
      by (auto simp: install_edit_def withoutChokepointHooks_def)
    have p: "preToolUse (setPreToolUse d (?kept @ [hook_entry c])) = ?kept @ [hook_entry c]" by (rule preToolUse_set) simp
    have w: "withoutChokepointHooks (?kept @ [hook_entry c]) = (?kept, True)" by (rule without_others [OF k c])
    have h: "hookCommandIn (?kept @ [hook_entry c]) = c" by (rule command_after_others [OF c k])
    have u: "uninstall_edit (setPreToolUse d (?kept @ [hook_entry c])) = (setPreToolUse d ?kept, True)"
      unfolding uninstall_edit_def p w by (simp add: setPreToolUse_again)
    have a: "install_edit c (setPreToolUse d (?kept @ [hook_entry c])) = (setPreToolUse d (?kept @ [hook_entry c]), False)"
      unfolding install_edit_def p Let_def w by (simp add: h)
    show ?thesis unfolding i fst_conv using u a by simp
  qed
qed

text \<open>C37: On the decoded settings, installing the hook and removing it again leaves the groups of
  \<open>PreToolUse\<close> that hold no chokepoint hook, in their order, and drops every other group whole, with any
  hook of the user's own that shares it; the hooks of other events and every other key are as they
  were. The very document comes back when it had no such group and nothing empty or malformed under
  \<open>hooks\<close>. Installing the hook a second time changes nothing.\<close>

theorem hook_install_uninstall:
  assumes "str_contains logFile ''chokepoint''" "c = install_command self policyAbs logFile skip"
  shows "let w = fst (install_edit c d); r = fst (uninstall_edit w) in
    preToolUse r = filter (Not \<circ> isChokepointHookGroup) (preToolUse d) \<and>
    (\<forall>k. k \<noteq> ''PreToolUse'' \<longrightarrow> map_of (as_map (map_of r ''hooks'')) k = map_of (as_map (map_of d ''hooks'')) k) \<and>
    (\<forall>k. k \<noteq> ''hooks'' \<longrightarrow> map_of r k = map_of d k) \<and>
    (tidy d \<and> \<not> list_ex isChokepointHookGroup (preToolUse d) \<longrightarrow> r = d) \<and>
    snd (uninstall_edit w) \<and> install_edit c w = (w, False)"
proof -
  let ?kept = "filter (Not \<circ> isChokepointHookGroup) (preToolUse d)"
  have c: "is_chokepoint_hook c" unfolding assms(2) by (rule install_command_ours [OF assms(1)])
  have "setPreToolUse d ?kept = d" if "tidy d" "\<not> list_ex isChokepointHookGroup (preToolUse d)"
  proof -
    have "?kept = preToolUse d" using that(2) by (simp add: list_ex_iff filter_id_conv)
    with set_own_hooks [OF that(1)] show ?thesis by simp
  qed
  then show ?thesis
    using install_then_uninstall [OF c, of d] by (simp add: setPreToolUse_frame Let_def)
qed

text \<open>A group that also holds a hook of the user's own is dropped whole, by removing and by updating.\<close>

definition shared_settings :: doc where
  "shared_settings = [(''hooks'', JObj [(''PreToolUse'', JArr [JObj [(''hooks'', JArr
     [JObj [(''command'', JStr ''my-own-check'')], JObj [(''command'', JStr ''/bin/chokepoint hook --policy p'')]])]])])]"

lemma shared_group_loses_own_hook: "uninstall_edit shared_settings = ([], True)"
  by code_simp

text \<open>So a settings file in which an earlier hook shares a group with the user's own loses both.\<close>

lemma reinstall_loses_own_hook:
  "uninstall_edit (fst (install_edit (install_command ''/bin/cp'' ''/p.yaml'' ''/s/chokepoint/l'' True) shared_settings)) =
    ([], True)"
  by code_simp

section \<open>Wrapping and unwrapping\<close>

text \<open>An edit applied to every server that is an object.\<close>

definition edit_server :: "(bytes \<Rightarrow> doc \<Rightarrow> doc \<times> bool) \<Rightarrow> bytes \<Rightarrow> json \<Rightarrow> json" where
  "edit_server edit n v = (case v of JObj srv \<Rightarrow> JObj (fst (edit n srv)) | _ \<Rightarrow> v)"

definition edits_server :: "(bytes \<Rightarrow> doc \<Rightarrow> doc \<times> bool) \<Rightarrow> bytes \<Rightarrow> json \<Rightarrow> bool" where
  "edits_server edit n v \<longleftrightarrow> (case v of JObj srv \<Rightarrow> snd (edit n srv) | _ \<Rightarrow> False)"

lemma update_is_map:
  "distinct (map fst al) \<Longrightarrow> map_of al k = Some u \<Longrightarrow> AList.update k v al = map (\<lambda>(l, w). (l, if l = k then v else w)) al"
proof (induction al)
  case (Cons p al)
  show ?case
  proof (cases "fst p = k")
    case True
    with Cons.prems(1) have "\<forall>q \<in> set al. fst q \<noteq> k" by (metis distinct.simps(2) list.simps(9) image_eqI set_map)
    then have e: "map (\<lambda>(l, w). (l, if l = k then v else w)) al = al" by (intro map_idI) (simp add: case_prod_unfold)
    obtain w where "p = (k, w)" using True by (cases p) auto
    then show ?thesis by (simp only: AList.update.simps list.map prod.case fst_conv simp_thms if_True e)
  next
    case False
    with Cons show ?thesis by (cases p) auto
  qed
qed simp

lemma rewrite_step_eq:
  assumes "distinct (map fst sv)" "n \<in> set (map fst sv)"
  shows "rewrite_step edit (sv, ch) n =
    (map (\<lambda>(m, v). (m, if m = n then edit_server edit m v else v)) sv, ch \<or> edits_server edit n (the (map_of sv n)))"
proof -
  from assms obtain v where v: "map_of sv n = Some v" by (metis map_of_eq_None_iff not_None_eq set_map)
  have e: "map (\<lambda>(m, w). (m, if m = n then edit_server edit m w else w)) sv = map (\<lambda>(m, w). (m, if m = n then edit_server edit n v else w)) sv"
    using assms(1) v by (auto dest!: map_of_eq_Some_iff [THEN iffD2, rotated])
  have "rewrite_step edit (sv, ch) n = (AList.update n (edit_server edit n v) sv, ch \<or> edits_server edit n v)"
    using v update_same [OF v] by (cases v) (simp_all add: rewrite_step_def edit_server_def edits_server_def split: prod.splits)
  then show ?thesis unfolding e update_is_map [OF assms(1) v] v option.sel .
qed

lemma map_of_edited:
  "m \<noteq> n \<Longrightarrow> map_of (map (\<lambda>(m, v). (m, if m = n then f m v else v)) sv) m = map_of sv m"
  by (induction sv) auto

lemma rewrite_all:
  assumes "distinct (map fst sv)" "distinct ns" "set ns \<subseteq> set (map fst sv)"
  shows "foldl (rewrite_step edit) (sv, ch) ns =
    (map (\<lambda>(m, v). (m, if m \<in> set ns then edit_server edit m v else v)) sv,
     ch \<or> (\<exists>n \<in> set ns. edits_server edit n (the (map_of sv n))))"
  using assms
proof (induction ns arbitrary: sv ch)
  case Nil
  then show ?case by (simp add: case_prod_unfold)
next
  case (Cons n ns)
  let ?sv = "map (\<lambda>(m, v). (m, if m = n then edit_server edit m v else v)) sv"
  have keys: "map fst ?sv = map fst sv" by (simp add: comp_def case_prod_unfold)
  have other: "map_of ?sv m = map_of sv m" if "m \<noteq> n" for m
    using that by (rule map_of_edited)
  have "foldl (rewrite_step edit) (sv, ch) (n # ns) = foldl (rewrite_step edit) (?sv, ch \<or> edits_server edit n (the (map_of sv n))) ns"
    using Cons.prems by (simp add: rewrite_step_eq)
  also have "\<dots> = (map (\<lambda>(m, v). (m, if m \<in> set ns then edit_server edit m v else v)) ?sv,
      (ch \<or> edits_server edit n (the (map_of sv n))) \<or> (\<exists>m \<in> set ns. edits_server edit m (the (map_of ?sv m))))"
  proof (rule Cons.IH)
    show "distinct (map fst ?sv)" "set ns \<subseteq> set (map fst ?sv)" "distinct ns"
      unfolding keys using Cons.prems by simp_all
  qed
  also have "map (\<lambda>(m, v). (m, if m \<in> set ns then edit_server edit m v else v)) ?sv =
      map (\<lambda>(m, v). (m, if m \<in> set (n # ns) then edit_server edit m v else v)) sv"
    using Cons.prems(2) by (simp add: case_prod_unfold)
  also have "(\<exists>m \<in> set ns. edits_server edit m (the (map_of ?sv m))) \<longleftrightarrow> (\<exists>m \<in> set ns. edits_server edit m (the (map_of sv m)))"
  proof (rule bex_cong [OF refl])
    fix m assume "m \<in> set ns"
    then have "m \<noteq> n" using Cons.prems(2) by auto
    then show "edits_server edit m (the (map_of ?sv m)) = edits_server edit m (the (map_of sv m))" using other [of m] by simp
  qed
  finally show ?case by auto
qed

lemma rewriteServers_eq:
  assumes "distinct (map fst (mcp_servers d))" "mcp_servers d \<noteq> []"
  shows "rewriteServers edit d =
    (AList.update ''mcpServers'' (JObj (map (\<lambda>(n, v). (n, edit_server edit n v)) (mcp_servers d))) d,
     \<exists>(n, v) \<in> set (mcp_servers d). edits_server edit n v)"
proof -
  let ?sv = "mcp_servers d" and ?ns = "sorted_list_of_set (set (map fst (mcp_servers d)))"
  have f: "foldl (rewrite_step edit) (?sv, False) ?ns =
    (map (\<lambda>(m, v). (m, if m \<in> set ?ns then edit_server edit m v else v)) ?sv,
     False \<or> (\<exists>n \<in> set ?ns. edits_server edit n (the (map_of ?sv n))))"
    by (rule rewrite_all [OF assms(1)]) auto
  have ns: "set ?ns = fst ` set ?sv" by simp
  have m: "map (\<lambda>(m, v). (m, if m \<in> set ?ns then edit_server edit m v else v)) ?sv = map (\<lambda>(n, v). (n, edit_server edit n v)) ?sv"
  proof (rule map_cong [OF refl])
    fix p assume "p \<in> set ?sv"
    then have "fst p \<in> set ?ns" unfolding ns by simp
    then show "(case p of (m, v) \<Rightarrow> (m, if m \<in> set ?ns then edit_server edit m v else v)) = (case p of (n, v) \<Rightarrow> (n, edit_server edit n v))"
      by (simp add: case_prod_unfold)
  qed
  have l: "the (map_of ?sv (fst p)) = snd p" if "p \<in> set ?sv" for p
  proof -
    have "map_of ?sv (fst p) = Some (snd p)" using that assms(1) by (intro map_of_is_SomeI) simp_all
    then show ?thesis by simp
  qed
  have c: "(\<exists>n \<in> set ?ns. edits_server edit n (the (map_of ?sv n))) \<longleftrightarrow> (\<exists>(n, v) \<in> set ?sv. edits_server edit n v)"
    unfolding ns by (simp add: l case_prod_unfold cong: bex_cong)
  show ?thesis
    using assms(2) unfolding rewriteServers_def Let_def f m c by simp
qed

section \<open>Wrapping and unwrapping\<close>

text \<open>A server that \<open>unwrap\<close> gives back as it was: not an object, or without a command, or with a command
  other than this program and arguments that are absent or a non-empty list of strings.\<close>

definition strings_or_absent :: "json option \<Rightarrow> bool" where
  "strings_or_absent v =
     (case v of None \<Rightarrow> True | Some (JArr es) \<Rightarrow> es \<noteq> [] \<and> (\<forall>e \<in> set es. case e of JStr s \<Rightarrow> True | _ \<Rightarrow> False) | _ \<Rightarrow> False)"

definition restorable :: "bytes \<Rightarrow> json \<Rightarrow> bool" where
  "restorable self v =
     (case v of
       JObj srv \<Rightarrow> as_string (map_of srv ''command'') = [] \<or>
         \<not> isChokepoint (Some self) (as_string (map_of srv ''command'')) \<and> strings_or_absent (map_of srv ''args'')
     | _ \<Rightarrow> True)"

lemma toStrings_map [simp]: "toStrings (Some (JArr (map JStr l))) = l"
  by (induction l) (simp_all add: toStrings_def List.map_filter_def)

lemma strings_or_absentE:
  assumes "strings_or_absent v"
  obtains "v = None" "toStrings v = []" | l where "l \<noteq> []" "v = Some (JArr (toAny l))" "toStrings v = l"
proof (cases v)
  case None
  then show thesis using that(1) by (simp add: toStrings_def List.map_filter_def)
next
  case (Some w)
  with assms obtain es where es: "w = JArr es" "es \<noteq> []" "\<forall>e \<in> set es. case e of JStr s \<Rightarrow> True | _ \<Rightarrow> False"
    by (cases w) (auto simp: strings_or_absent_def)
  from es(3) have "\<exists>l. es = map JStr l"
  proof (induction es)
    case (Cons e es)
    then obtain l s where "es = map JStr l" "e = JStr s" by (cases e) auto
    then have "e # es = map JStr (s # l)" by simp
    then show ?case by (rule exI)
  qed simp
  then obtain l where "es = map JStr l" by blast
  with es Some show thesis using that(2) [of l] by (simp add: toAny_def)
qed

lemma wrapped_args:
  "p \<noteq> ''--'' \<Longrightarrow> l \<noteq> ''--'' \<Longrightarrow>
    after_dashes (toStrings (Some (JArr ([JStr ''--policy'', JStr p, JStr ''--audit-log'', JStr l, JStr ''--''] @ toAny (c # as))))) =
    Some (c, as)"
proof -
  assume "p \<noteq> ''--''" "l \<noteq> ''--''"
  moreover have "[JStr ''--policy'', JStr p, JStr ''--audit-log'', JStr l, JStr ''--''] @ toAny (c # as) =
    map JStr ([''--policy'', p, ''--audit-log'', l, ''--''] @ c # as)" by (simp add: toAny_def)
  ultimately show ?thesis by (simp only: toStrings_map) simp
qed

text \<open>What comes back of a server's arguments: the strings among them.\<close>

definition with_string_args :: "doc \<Rightarrow> doc" where
  "with_string_args srv =
     (let l = toStrings (map_of srv ''args'')
      in if l = [] then AList.delete ''args'' srv else AList.update ''args'' (JArr (toAny l)) srv)"

definition given_back :: "json \<Rightarrow> json" where
  "given_back v =
     (case v of JObj srv \<Rightarrow> if as_string (map_of srv ''command'') = [] then v else JObj (with_string_args srv) | _ \<Rightarrow> v)"

definition runs_chokepoint :: "bytes \<Rightarrow> json \<Rightarrow> bool" where
  "runs_chokepoint self v \<longleftrightarrow> (case v of JObj srv \<Rightarrow> isChokepoint (Some self) (as_string (map_of srv ''command'')) | _ \<Rightarrow> False)"

lemma update_args_edits:
  assumes "map_of srv ''command'' = Some (JStr c)"
  shows "(if l = [] then AList.delete ''args'' else AList.update ''args'' (JArr (toAny l)))
      (AList.update ''command'' (JStr c) (AList.update ''args'' x (AList.update ''command'' (JStr self) srv))) =
    (if l = [] then AList.delete ''args'' srv else if map_of srv ''args'' = None then srv @ [(''args'', JArr (toAny l))]
     else AList.update ''args'' (JArr (toAny l)) srv)"
  (is "_ = ?r")
proof -
  let ?s = "AList.update ''command'' (JStr self) srv"
  have c: "AList.update ''command'' (JStr c) srv = srv" by (rule update_same [OF assms])
  have "AList.update ''command'' (JStr c) (AList.update ''args'' x ?s) =
      AList.update ''args'' x (AList.update ''command'' (JStr c) ?s)"
    by (rule update_commute_present [where u = "JStr self"]) (simp_all add: lookup_update)
  also have "AList.update ''command'' (JStr c) ?s = srv" by (simp add: update_twice c)
  finally have e: "AList.update ''command'' (JStr c) (AList.update ''args'' x ?s) = AList.update ''args'' x srv" .
  have "AList.update ''args'' y srv = srv @ [(''args'', y)]" if "map_of srv ''args'' = None" for y
    using that by (induction srv) (auto split: if_splits)
  then show ?thesis unfolding e by (auto simp: delete_update update_twice)
qed

lemma unwrapped_server:
  assumes p: "policyAbs \<noteq> ''--''" "logFile n \<noteq> ''--''" and self: "self \<noteq> []"
    and v: "\<not> runs_chokepoint self (JObj srv)"
  shows "JObj (fst (unwrap_server (Some self) (fst (wrap_server self policyAbs logFile n srv)))) = given_back (JObj srv)"
proof (cases "as_string (map_of srv ''command'') = []")
  case True
  then have "\<not> isChokepoint (Some self) (as_string (map_of srv ''command''))"
    using self by (simp add: isChokepoint_def Base_def)
  with True show ?thesis by (simp add: wrap_server_def unwrap_server_def given_back_def)
next
  case False
  from v have c: "\<not> isChokepoint (Some self) (as_string (map_of srv ''command''))"
    by (simp add: runs_chokepoint_def)
  let ?o = "toStrings (map_of srv ''args'')"
  obtain c where m: "map_of srv ''command'' = Some (JStr c)" and c0: "c \<noteq> []"
    using False by (auto simp: as_string_def split: option.splits json.splits)
  define x where "x = JArr ([JStr ''--policy'', JStr policyAbs, JStr ''--audit-log'', JStr (logFile n), JStr ''--''] @ toAny (c # ?o))"
  let ?w = "AList.update ''args'' x (AList.update ''command'' (JStr self) srv)"
  have w: "wrap_server self policyAbs logFile n srv = (?w, True)"
    using c0 c m by (simp add: wrap_server_def x_def)
  have self': "isChokepoint (Some self) (as_string (map_of ?w ''command''))"
    by (simp add: lookup_update isChokepoint_def)
  have a: "map_of ?w ''args'' = Some x" by (simp add: lookup_update)
  have u: "fst (unwrap_server (Some self) ?w) =
    (if ?o = [] then AList.delete ''args'' else AList.update ''args'' (JArr (toAny ?o))) (AList.update ''command'' (JStr c) ?w)"
    using self' wrapped_args [OF p, of c ?o, folded x_def] unfolding unwrap_server_def a by simp
  have "?o = []" if "map_of srv ''args'' = None" using that by (simp add: toStrings_def List.map_filter_def)
  then show ?thesis
    unfolding w fst_conv u update_args_edits [OF m] using m c0 by (simp add: given_back_def with_string_args_def)
qed

lemma restorable_given_back:
  assumes "self \<noteq> []" "restorable self v"
  shows "\<not> runs_chokepoint self v" "given_back v = v"
proof -
  have "with_string_args srv = srv" if "strings_or_absent (map_of srv ''args'')" for srv
    using that by (cases rule: strings_or_absentE) (simp_all add: with_string_args_def delete_absent update_same)
  then show "given_back v = v" using assms(2) by (auto simp: given_back_def restorable_def split: json.splits)
  show "\<not> runs_chokepoint self v"
    using assms by (auto simp: runs_chokepoint_def restorable_def isChokepoint_def Base_def split: json.splits)
qed

lemma rewrapped_server:
  assumes "self \<noteq> []"
  shows "wrap_server self policyAbs logFile n (fst (wrap_server self policyAbs logFile n srv)) =
    (fst (wrap_server self policyAbs logFile n srv), False)"
  using assms by (simp add: wrap_server_def Let_def lookup_update isChokepoint_def)

lemma edit_server_twice:
  "edit_server g n (edit_server f n v) = edit_server (\<lambda>n s. g n (fst (f n s))) n v"
  by (cases v) (simp_all add: edit_server_def)

text \<open>Two passes over a configuration compose server by server.\<close>

lemma rewriteServers_twice:
  assumes "distinct (map fst (mcp_servers d))" "mcp_servers d \<noteq> []"
  shows "rewriteServers g (fst (rewriteServers f d)) =
    (AList.update ''mcpServers'' (JObj (map (\<lambda>(n, v). (n, edit_server g n (edit_server f n v))) (mcp_servers d))) d,
     \<exists>(n, v) \<in> set (mcp_servers d). edits_server g n (edit_server f n v))"
proof -
  let ?d = "AList.update ''mcpServers'' (JObj (map (\<lambda>(n, v). (n, edit_server f n v)) (mcp_servers d))) d"
  have sv: "mcp_servers ?d = map (\<lambda>(n, v). (n, edit_server f n v)) (mcp_servers d)"
    by (simp add: mcp_servers_def lookup_update)
  have k: "map fst (mcp_servers ?d) = map fst (mcp_servers d)"
    unfolding sv by (simp add: comp_def case_prod_unfold)
  have "rewriteServers g ?d = (AList.update ''mcpServers'' (JObj (map (\<lambda>(n, v). (n, edit_server g n v)) (mcp_servers ?d))) ?d,
     \<exists>(n, v) \<in> set (mcp_servers ?d). edits_server g n v)"
  proof (rule rewriteServers_eq)
    show "distinct (map fst (mcp_servers ?d))" unfolding k by (rule assms(1))
    show "mcp_servers ?d \<noteq> []" unfolding sv using assms(2) by simp
  qed
  then show ?thesis
    unfolding rewriteServers_eq [OF assms, of f] fst_conv sv update_twice by (simp add: comp_def case_prod_unfold)
qed

lemma rewrapped:
  assumes "distinct (map fst (mcp_servers d))" "self \<noteq> []"
  shows "wrap self policyAbs logFile (fst (wrap self policyAbs logFile d)) = (fst (wrap self policyAbs logFile d), False)"
proof (cases "mcp_servers d = []")
  case True
  then show ?thesis by (simp add: wrap_def rewriteServers_def)
next
  case False
  let ?w = "wrap_server self policyAbs logFile"
  have again: "edit_server ?w n (edit_server ?w n v) = edit_server ?w n v \<and> \<not> edits_server ?w n (edit_server ?w n v)" for n v
    by (cases v) (simp_all add: edit_server_def edits_server_def rewrapped_server [OF assms(2)])
  show ?thesis
    unfolding wrap_def rewriteServers_twice [OF assms(1) False] unfolding rewriteServers_eq [OF assms(1) False]
    by (simp add: again)
qed

lemma map_of_edited_servers:
  "distinct (map fst sv) \<Longrightarrow> (n, v) \<in> set sv \<Longrightarrow> map_of (map (\<lambda>(n, v). (n, f n v)) sv) n = Some (f n v)"
  by (induction sv) (auto simp: rev_image_eqI split: prod.splits)

text \<open>Unwrapping a wrapped configuration, server by server.\<close>

lemma unwrap_wrap_servers:
  fixes self policyAbs :: bytes and logFile :: "bytes \<Rightarrow> bytes"
  assumes "distinct (map fst (mcp_servers d))"
  defines "r \<equiv> fst (unwrap (Some self) (fst (wrap self policyAbs logFile d)))"
  shows "mcp_servers r = map (\<lambda>(n, v). (n, edit_server (\<lambda>_. unwrap_server (Some self)) n
      (edit_server (wrap_server self policyAbs logFile) n v))) (mcp_servers d)"
    "k \<noteq> ''mcpServers'' \<Longrightarrow> map_of r k = map_of d k"
    "mcp_servers r = mcp_servers d \<Longrightarrow> r = d"
proof -
  let ?e = "\<lambda>n v. edit_server (\<lambda>_. unwrap_server (Some self)) n (edit_server (wrap_server self policyAbs logFile) n v)"
  have "r = (if mcp_servers d = [] then d
      else AList.update ''mcpServers'' (JObj (map (\<lambda>(n, v). (n, ?e n v)) (mcp_servers d))) d)"
  proof (cases "mcp_servers d = []")
    case True
    then show ?thesis by (simp add: r_def wrap_def unwrap_def rewriteServers_def)
  next
    case False
    then show ?thesis unfolding r_def wrap_def unwrap_def rewriteServers_twice [OF assms(1) False] by simp
  qed
  moreover have "AList.update ''mcpServers'' (JObj (mcp_servers d)) d = d" if "mcp_servers d \<noteq> []"
    using that by (intro update_same) (auto simp: mcp_servers_def as_map_def split: option.splits json.splits)
  ultimately show s: "mcp_servers r = map (\<lambda>(n, v). (n, ?e n v)) (mcp_servers d)"
    "k \<noteq> ''mcpServers'' \<Longrightarrow> map_of r k = map_of d k" "mcp_servers r = mcp_servers d \<Longrightarrow> r = d"
    by (auto simp: mcp_servers_def lookup_update split: if_splits)
qed


definition sample_config :: doc where
  "sample_config = [(''theme'', JStr ''dark''), (''mcpServers'', JObj
     [(''fs'', JObj [(''command'', JStr ''npx''), (''args'', JArr [JStr ''-y'', JStr ''server-fs'']), (''env'', JObj [(''K'', JStr ''v'')])]),
      (''git'', JObj [(''command'', JStr ''uvx'')]),
      (''docs'', JObj [(''url'', JStr ''https://example.com/mcp'')])])]"


text \<open>An argument that is not a string is dropped by \<open>wrap\<close>, and an empty list of arguments does not come back.\<close>

lemma wrap_drops_other_arguments:
  "fst (unwrap (Some ''/bin/cp'') (fst (wrap ''/bin/cp'' ''/p.yaml'' (\<lambda>n. ''/l-'' @ n)
      [(''mcpServers'', JObj [(''a'', JObj [(''command'', JStr ''srv''), (''args'', JArr [JStr ''--port'', JNum ''80''])]),
         (''b'', JObj [(''command'', JStr ''srv''), (''args'', JArr [])])])]))) =
    [(''mcpServers'', JObj [(''a'', JObj [(''command'', JStr ''srv''), (''args'', JArr [JStr ''--port''])]),
       (''b'', JObj [(''command'', JStr ''srv'')])])]"
  by code_simp

definition sample_settings :: doc where
  "sample_settings = [(''hooks'', JObj [(''PreToolUse'', JArr [JObj [(''hooks'', JArr [JObj [(''command'', JStr ''my-check'')]])]])])]"

theorem hook_install_uninstall_witness:
  "uninstall_edit (fst (install_edit (install_command ''/bin/cp'' ''/p.yaml'' ''/s/chokepoint/l'' True) sample_settings)) =
    (sample_settings, True)"
proof -
  have "tidy sample_settings \<and> \<not> list_ex isChokepointHookGroup (preToolUse sample_settings)" by code_simp
  moreover have "str_contains ''/s/chokepoint/l'' ''chokepoint''" by code_simp
  ultimately show ?thesis
    using hook_install_uninstall [of "''/s/chokepoint/l''" "install_command ''/bin/cp'' ''/p.yaml'' ''/s/chokepoint/l'' True"
        "''/bin/cp''" "''/p.yaml''" True sample_settings]
    unfolding Let_def prod_eq_iff by simp
qed

section \<open>The installed command line\<close>

text \<open>
  How a POSIX shell splits a simple command into words: blanks separate words, a backslash keeps the next
  character, single quotes keep everything up to the closing one. Any other character with a meaning to
  the shell, unquoted, is outside this reader.
\<close>

definition shell_special :: "bytes" where
  "shell_special = ''|&;<>()$`!*?[#~=%{}'' @ [CHR 0x22, CHR 0x09, CHR 0x0A]"

fun sh_split :: "bytes \<Rightarrow> bytes option \<Rightarrow> bool \<Rightarrow> bytes list option" where
  "sh_split [] w quoted = (if quoted then None else Some (case w of None \<Rightarrow> [] | Some x \<Rightarrow> [x]))"
| "sh_split (c # cs) w True =
     (let x = (case w of None \<Rightarrow> [] | Some x \<Rightarrow> x) in
      if c = CHR 0x27 then sh_split cs (Some x) False else sh_split cs (Some (x @ [c])) True)"
| "sh_split (c # cs) w False =
     (let x = (case w of None \<Rightarrow> [] | Some x \<Rightarrow> x) in
      if c = CHR '' '' then
        (case w of None \<Rightarrow> sh_split cs None False | Some x \<Rightarrow> map_option ((#) x) (sh_split cs None False))
      else if c = CHR 0x27 then sh_split cs (Some x) True
      else if c = CHR 0x5C then (case cs of [] \<Rightarrow> None | d # ds \<Rightarrow> sh_split ds (Some (x @ [d])) False)
      else if c \<in> set shell_special then None
      else sh_split cs (Some (x @ [c])) False)"

definition sh_words :: "bytes \<Rightarrow> bytes list option" where
  "sh_words s = sh_split s None False"

lemma sh_split_inside:
  "sh_split (ReplaceByte s CHR 0x27 [CHR 0x27, CHR 0x5C, CHR 0x27, CHR 0x27] @ CHR 0x27 # rest) (Some x) True =
   sh_split rest (Some (x @ s)) False"
  by (induction s arbitrary: x) (simp_all add: ReplaceByte_def)

lemma sh_split_quoted: "sh_split (shellQuote s @ rest) None False = sh_split rest (Some s) False"
  using sh_split_inside [of s rest "[]"] by (simp add: shellQuote_def)

lemma sh_split_option: 
  "sh_split ('' hook --policy '' @ rest) (Some x) False = map_option (\<lambda>ws. x # ''hook'' # ''--policy'' # ws) (sh_split rest None False)"
  "sh_split ('' --audit-log '' @ rest) (Some x) False = map_option (\<lambda>ws. x # ''--audit-log'' # ws) (sh_split rest None False)"
  "sh_split '' --skip-mcp'' (Some x) False = Some [x, ''--skip-mcp'']"
  "sh_split [] (Some x) False = Some [x]"
  by (simp_all add: shell_special_def option.map_comp comp_def)

lemma installed_words:
  "sh_words (install_command self policyAbs logFile skip) =
     Some ([self, ''hook'', ''--policy'', policyAbs, ''--audit-log'', logFile] @ (if skip then [''--skip-mcp''] else []))"
  unfolding sh_words_def install_command_def append_assoc sh_split_quoted sh_split_option
  by (cases skip) (simp_all only: if_True if_False sh_split_quoted sh_split_option option.map append.simps append_Nil2)

text \<open>With blanks and quotes in the paths, the command that \<open>hook install\<close> puts into the document is split by this
  reader into exactly this program, \<open>hook\<close> and its options, and \<open>cmdHook\<close> reads from them the
  configuration that was asked for.\<close>

lemma installed_command_runs_hook:
  "\<exists>args. sh_words (install_command self policyAbs logFile skip) = Some (self # ''hook'' # args) \<and>
     cmdHook args = HookRun \<lparr>hc_policyPath = policyAbs, hc_auditLog = logFile, hc_mode = [], hc_skipMCP = skip\<rparr>"
proof (intro exI conjI)
  let ?args = "[''--policy'', policyAbs, ''--audit-log'', logFile] @ (if skip then [''--skip-mcp''] else [])"
  show "sh_words (install_command self policyAbs logFile skip) = Some (self # ''hook'' # ?args)"
    unfolding installed_words by simp
  show "cmdHook ?args = HookRun \<lparr>hc_policyPath = policyAbs, hc_auditLog = logFile, hc_mode = [], hc_skipMCP = skip\<rparr>"
    by (cases skip) (simp_all add: cmdHook_def hook_args_def)
qed

end
