(* ===== verification/Report.thy ===== *)
theory Report
  imports Gateway
begin

text \<open>
  The session report, \<open>internal/gateway/report.go\<close>: what it gathers and the text it renders.
  Go maps are association lists with distinct keys. Formatting is that of \<open>fmt\<close>: \<open>%-44s\<close> pads by
  runes, \<open>%.3f\<close> rounds a real to thousandths, ties to even.
\<close>

section \<open>Definitions\<close>

record session_report =
  rp_Assessment :: assessment
  rp_Resources :: resource_summary
  rp_Scope :: scope_report
  rp_Denials :: "(bytes \<times> nat) list"
  rp_Violations :: "(bytes \<times> nat) list"
  rp_ToolChanges :: "change list"

definition SessionReport :: "('p, 'd, 'c, 's) gateway_options \<Rightarrow> 's gateway \<Rightarrow> session_report" where
  "SessionReport opts g =
     \<lparr>rp_Assessment = gw_assess opts g,
      rp_Resources = (case gw_detector g of
          None \<Rightarrow> \<lparr>rs_Calls = 0, rs_Distinct = 0, rs_Dirs = [], rs_Roots = []\<rparr>
        | Some s \<Rightarrow> Session_ResourceSummary s),
      rp_Scope = gw_scopeReport opts g, rp_Denials = gw_denials g, rp_Violations = gw_violations g,
      rp_ToolChanges = Changes (gw_inventory g)\<rparr>"

subsection \<open>Formatting\<close>

function rune_count :: "bytes \<Rightarrow> nat" where
  "rune_count s = (if s = [] then 0 else 1 + rune_count (drop (max 1 (utf8_len s)) s))"
  by pat_completeness auto
termination
  by (relation "measure length") auto

declare rune_count.simps [simp del]

definition pad_right :: "nat \<Rightarrow> bytes \<Rightarrow> bytes" where
  "pad_right w s = s @ replicate (w - rune_count s) CHR '' ''"

definition pad_left :: "nat \<Rightarrow> bytes \<Rightarrow> bytes" where
  "pad_left w s = replicate (w - rune_count s) CHR '' '' @ s"

definition fixed3 :: "real \<Rightarrow> bytes" where
  "fixed3 x =
     (let y = \<bar>x\<bar> * 1000; k = nat \<lfloor>y\<rfloor>; f = y - real_of_int \<lfloor>y\<rfloor>;
          k = (if f > 1 / 2 \<or> (f = 1 / 2 \<and> odd k) then k + 1 else k)
      in (if x < 0 then ''-'' else []) @ nat_digits (k div 1000) @
         [CHR ''.'', digit_char (k div 100 mod 10), digit_char (k div 10 mod 10), digit_char (k mod 10)])"

definition line :: "bytes \<Rightarrow> bytes" where
  "line s = s @ [CHR 0x0A]"

definition num :: "nat \<Rightarrow> bytes" where
  "num n = Itoa (int n)"

definition truncate :: "bytes \<Rightarrow> nat \<Rightarrow> bytes" where
  "truncate s limit =
     (if length s \<le> limit then s
      else if limit \<le> 3 then take limit s
      else ''...'' @ drop (length s - (limit - 3)) s)"

definition sortedByCount :: "(bytes \<times> nat) list \<Rightarrow> bytes list" where
  "sortedByCount m = sort_key (\<lambda>k. (- int (counts m k), k)) (map fst m)"

definition totalOf :: "(bytes \<times> nat) list \<Rightarrow> nat" where
  "totalOf m = foldl (\<lambda>n (_, v). n + v) 0 m"

definition contribution :: "(bytes \<times> real) list \<Rightarrow> bytes \<Rightarrow> real" where
  "contribution m k = (case map_of m k of None \<Rightarrow> 0 | Some v \<Rightarrow> v)"

definition contributionLine :: "(bytes \<times> real) list \<Rightarrow> bytes" where
  "contributionLine contrib =
     (if contrib = [] then ''no contributions''
      else Join (map (\<lambda>k. k @ '' '' @ fixed3 (contribution contrib k))
        (sort_key (\<lambda>k. (- contribution contrib k, k)) (map fst contrib))) '', '')"

definition group_row :: "group \<Rightarrow> bytes" where
  "group_row g = line (''    '' @ pad_right 44 (truncate (grp_Name g) 44) @ '' '' @ pad_left 7 (num (grp_Calls g)) @ '' '' @
     pad_left 9 (num (grp_Distinct g)) @ '' '' @ pad_left 6 (num (grp_FirstCall g)))"

definition writeGroups :: "bytes \<Rightarrow> group list \<Rightarrow> int \<Rightarrow> bytes" where
  "writeGroups title groups limit =
     (if length groups = 0 then []
      else
        let shown = (if limit > 0 \<and> int (length groups) > limit then take (nat limit) groups else groups)
        in line [] @ line (''  '' @ title) @
           line (''    '' @ pad_right 44 [] @ '' '' @ pad_left 7 ''calls'' @ '' '' @ pad_left 9 ''distinct'' @ '' '' @ pad_left 6 ''first'') @
           concat (map group_row shown) @
           (if length groups > length shown then line (''    ... and '' @ num (length groups - length shown) @ '' more'') else []))"

definition changes_section :: "change list \<Rightarrow> bytes" where
  "changes_section cs =
     (if length cs > 0
      then line (''  !! '' @ num (length cs) @ '' tool definition(s) changed after the first listing'') @
        concat (map (\<lambda>c. line (''     '' @ Change_String c)) cs) @ line []
      else [])"

definition score_section :: "assessment \<Rightarrow> bytes" where
  "score_section a =
     (if as_BelowMinimum a
      then line (''  decomposition score: not scoreable ('' @ num (as_Calls a) @ '' of '' @ num MinCallsForScore @ '' calls needed)'')
      else line (''  decomposition score: '' @ fixed3 (as_Score a) @ ''  ('' @ contributionLine (as_Contributions a) @ '')''))"

definition counter_section :: "bytes \<Rightarrow> (bytes \<times> nat) list \<Rightarrow> bytes" where
  "counter_section title m =
     (if length m > 0
      then line (''  '' @ num (totalOf m) @ '' '' @ title) @
        concat (map (\<lambda>rule. line (''    '' @ pad_right 32 rule @ '' '' @ num (counts m rule))) (sortedByCount m))
      else [])"

definition scope_section :: "scope_report \<Rightarrow> int \<Rightarrow> bytes" where
  "scope_section sc limit =
     (if sr_Declared sc
      then line [] @ line (''  workspace: '' @ num (sr_InScope sc) @ '' of '' @ num (sr_Calls sc) @ '' calls inside'') @
        (if sr_OutOfScope sc > 0
         then line (''    '' @ num (sr_OutOfScope sc) @ '' outside, in '' @ num (sr_Distinct sc) @ '' distinct place(s)'') @
           (if sr_Escaped sc > 0
            then line (''    '' @ num (sr_Escaped sc) @ '' reached by a path that read as inside the workspace'') else []) @
           line (''    first left the workspace at call '' @ Itoa (sr_FirstOutOfScope sc)) @
           writeGroups ''outside the workspace'' (sr_Outside sc) limit
         else [])
      else [])"

definition Render :: "session_report \<Rightarrow> int \<Rightarrow> bytes" where
  "Render r limit =
     line ''chokepoint session report'' @ line [] @
     changes_section (rp_ToolChanges r) @
     line (''  '' @ num (rs_Calls (rp_Resources r)) @ '' calls carried a resource, '' @ num (rs_Distinct (rp_Resources r)) @ '' distinct'') @
     score_section (rp_Assessment r) @
     counter_section ''calls denied:'' (rp_Denials r) @
     counter_section ''policy violations ALLOWED (monitor mode, not blocked):'' (rp_Violations r) @
     scope_section (rp_Scope r) limit @
     writeGroups ''where it went, by root'' (rs_Roots (rp_Resources r)) limit @
     writeGroups ''where it went, by directory'' (rs_Dirs (rp_Resources r)) limit"

section \<open>What the totals say\<close>

definition books_distinct :: "'s gateway \<Rightarrow> bool" where
  "books_distinct g \<longleftrightarrow> distinct (map fst (gw_denials g)) \<and> distinct (map fst (gw_violations g))"

lemma count_up_distinct: "distinct (map fst m) \<Longrightarrow> distinct (map fst (count_up r m))"
  by (simp add: count_up_def distinct_update Let_def)

interpretation book_keys: gateway_invariant books_distinct
  by unfold_locales (auto simp: announces_def completes_def unchanged_def books_distinct_def count_up_distinct)

lemma totalOf_sum: "totalOf m = sum_list (map snd m)"
proof -
  have "foldl (\<lambda>n (_, v). n + v) a m = a + sum_list (map snd m)" for a by (induction m arbitrary: a) auto
  then show ?thesis by (simp add: totalOf_def)
qed

lemma totalOf_counts: "distinct (map fst m) \<Longrightarrow> totalOf m = (\<Sum>r \<in> fst ` set m. counts m r)"
proof (induction m)
  case (Cons p m)
  obtain k v where p: "p = (k, v)" by (cases p)
  have "(\<Sum>r \<in> fst ` set m. counts (p # m) r) = (\<Sum>r \<in> fst ` set m. counts m r)"
    by (rule sum.cong) (use Cons.prems p in \<open>auto simp: counts_def\<close>)
  with Cons p show ?case by (simp add: totalOf_sum) (simp add: counts_def)
qed (simp add: totalOf_def)

text \<open>Counting by key adds up to counting.\<close>

lemma filter_partition:
  "finite A \<Longrightarrow> \<forall>x \<in> set xs. P x \<longrightarrow> key x \<in> A \<Longrightarrow>
    (\<Sum>r \<in> A. length (filter (\<lambda>x. P x \<and> key x = r) xs)) = length (filter P xs)"
proof (induction xs)
  case (Cons x xs)
  have "(\<Sum>r \<in> A. length (filter (\<lambda>x. P x \<and> key x = r) (x # xs))) =
      (\<Sum>r \<in> A. if P x \<and> key x = r then 1 else 0) + (\<Sum>r \<in> A. length (filter (\<lambda>x. P x \<and> key x = r) xs))"
    by (simp flip: sum.distrib) (rule sum.cong, auto)
  with Cons show ?case by (auto simp: sum.delta')
qed simp

definition is_stopped :: "event \<Rightarrow> bool" where
  "is_stopped e \<longleftrightarrow> (case e of ToolCallDecided ev \<Rightarrow> stopped ev | ToolCallCompleted _ \<Rightarrow> False)"

definition is_unenforced :: "event \<Rightarrow> bool" where
  "is_unenforced e \<longleftrightarrow> (case e of ToolCallDecided ev \<Rightarrow> ev_Unenforced ev | ToolCallCompleted _ \<Rightarrow> False)"

definition event_rule :: "event \<Rightarrow> bytes" where
  "event_rule e = (case e of ToolCallDecided ev \<Rightarrow> rule_name (ev_Rule ev) | ToolCallCompleted _ \<Rightarrow> [])"

lemma event_counts_eq:
  "denied_events r es = length (filter (\<lambda>e. is_stopped e \<and> event_rule e = r) es)"
  "unenforced_events r es = length (filter (\<lambda>e. is_unenforced e \<and> event_rule e = r) es)"
  unfolding denied_events_def unenforced_events_def
  by (rule arg_cong [where f = length], rule filter_cong,
      auto simp: is_stopped_def is_unenforced_def event_rule_def split: event.splits)+

lemma total_is_count:
  assumes "distinct (map fst m)" "\<forall>r. counts m r = length (filter (\<lambda>e. P e \<and> event_rule e = r) es)"
  shows "totalOf m = length (filter P es)"
proof -
  have "event_rule e \<in> fst ` set m" if "e \<in> set es" "P e" for e
  proof (rule ccontr)
    assume "event_rule e \<notin> fst ` set m"
    then have "map_of m (event_rule e) = None" by (simp add: map_of_eq_None_iff)
    then have "counts m (event_rule e) = 0" by (simp add: counts_def)
    with assms(2) that show False by (auto simp: filter_empty_conv)
  qed
  then have "(\<Sum>r \<in> fst ` set m. length (filter (\<lambda>e. P e \<and> event_rule e = r) es)) = length (filter P es)"
    by (intro filter_partition) auto
  with totalOf_counts [OF assms(1)] assms(2) show ?thesis by simp
qed

text \<open>
  The report's totals are what happened: after any run, the calls it says were denied are
  exactly the decisions announced as denied and enforced, and the violations it says were
  allowed exactly those announced as let through.\<close>

theorem report_totals_are_the_events:
  "\<exists>g. gateway_run (opts\<lparr>go_Observer := True\<rparr>) (New (map_option NewSession cfg) reg clock) inputs = Some g \<and>
    totalOf (rp_Denials (SessionReport opts g)) = length (filter is_stopped (gw_events g)) \<and>
    totalOf (rp_Violations (SessionReport opts g)) = length (filter is_unenforced (gw_events g))"
proof -
  let ?g = "New (map_option NewSession cfg) reg clock" and ?opts = "opts\<lparr>go_Observer := True\<rparr>"
  have ok: "gateway_ok ?g" by (cases cfg) (simp_all add: gateway_ok_def New_def NewSession_ok)
  have l: "ledger ?g" by (simp add: ledger_def New_def counts_def denied_events_def unenforced_events_def)
  obtain g where g: "gateway_run ?opts ?g inputs = Some g" "ledger g" using books.run_keeps [OF ok l, of ?opts inputs] by auto
  have "books_distinct g"
    using book_keys.run_result [OF g(1) ok] by (simp add: books_distinct_def New_def)
  with g show ?thesis
    by (intro exI [of _ g]) (simp add: SessionReport_def ledger_def books_distinct_def event_counts_eq total_is_count)
qed

lemma truncate_length: "length (truncate s limit) \<le> limit"
  by (simp add: truncate_def) linarith

lemma sortedByCount_set: "set (sortedByCount m) = fst ` set m" "sorted_wrt (\<lambda>a b. counts m a \<ge> counts m b) (sortedByCount m)"
proof -
  show "set (sortedByCount m) = fst ` set m" by (simp add: sortedByCount_def)
  have "sorted (map (\<lambda>k. (- int (counts m k), k)) (sortedByCount m))" by (simp add: sortedByCount_def)
  then have "sorted_wrt (\<lambda>a b. (- int (counts m a), a) \<le> (- int (counts m b), b)) (sortedByCount m)"
    by (simp add: sorted_map)
  then show "sorted_wrt (\<lambda>a b. counts m a \<ge> counts m b) (sortedByCount m)"
    by (rule sorted_wrt_mono_rel [rotated]) (auto simp: less_eq_prod_def)
qed

end
