(* ===== verification/LogReport.thy ===== *)
theory LogReport
  imports Configs Report
begin

text \<open>
  \<open>chokepoint report\<close>, \<open>cmd/chokepoint/commands.go\<close>: its options, the entries gathered from the audit
  logs, the totals over them and the text printed. What a file holds, the logs found in the default folder,
  the clock and the local form of an instant (\<open>Time.Format\<close>) are arguments.
\<close>

section \<open>Options\<close>

datatype log_error = SinceNeedsDuration | BadDuration bytes | UnknownReportOption bytes | NoLogs | CannotOpen bytes | CannotRead bytes

record report_options =
  lo_files :: "bytes list"
  lo_since :: int
  lo_all :: bool

fun report_flags :: "bytes list \<Rightarrow> report_options \<Rightarrow> log_error + report_options" where
  "report_flags [] o' = Inr o'"
| "report_flags (a # as) o' =
     (if a = ''--all'' then report_flags as (o'\<lparr>lo_all := True\<rparr>)
      else if a = ''--since'' then
        (case as of
          [] \<Rightarrow> Inl SinceNeedsDuration
        | v # as \<Rightarrow> (case ParseDuration v of None \<Rightarrow> Inl (BadDuration v) | Some d \<Rightarrow> report_flags as (o'\<lparr>lo_since := d\<rparr>)))
      else if HasPrefix a ''-'' then Inl (UnknownReportOption a)
      else report_flags as (o'\<lparr>lo_files := lo_files o' @ [a]\<rparr>))"

section \<open>Entries\<close>

text \<open>\<open>strings.SplitN(s, "-", 3)\<close> has three parts when \<open>s\<close> has two dashes.\<close>

definition sourceName :: "bytes \<Rightarrow> bytes" where
  "sourceName file =
     (let base = TrimSuffix (Base file) ''.jsonl'' in
      case cut_byte CHR ''-'' base of
        None \<Rightarrow> base
      | Some (_, r) \<Rightarrow>
          (case cut_byte CHR ''-'' r of
            None \<Rightarrow> base
          | Some (digest, server) \<Rightarrow> if length digest = 8 then server else base))"

record sourced =
  so_entry :: entry
  so_source :: bytes

text \<open>The entries of every file, and the lines skipped in each.\<close>

fun gather :: "(bytes \<Rightarrow> bytes option) \<Rightarrow> bytes list \<Rightarrow> log_error + sourced list \<times> (bytes \<times> nat) list" where
  "gather open' [] = Inr ([], [])"
| "gather open' (f # fs) =
     (case open' f of
       None \<Rightarrow> Inl (CannotOpen f)
     | Some raw \<Rightarrow>
         let (got, bad, ok) = Read raw in
         if \<not> ok then Inl (CannotRead f)
         else (case gather open' fs of
             Inl e \<Rightarrow> Inl e
           | Inr (entries, skipped) \<Rightarrow>
               Inr (map (\<lambda>e. \<lparr>so_entry = e, so_source = sourceName f\<rparr>) got @ entries, map (Pair f) bad @ skipped)))"

text \<open>An entry whose record had no readable start time has the zero instant, before every other.\<close>

definition since_filter :: "instant \<Rightarrow> int \<Rightarrow> sourced list \<Rightarrow> sourced list" where
  "since_filter now since entries =
     (if since > 0 then filter (\<lambda>e. case en_At (so_entry e) of None \<Rightarrow> False | Some t \<Rightarrow> t > now - since) entries
      else entries)"

definition at_key :: "sourced \<Rightarrow> int \<times> int" where
  "at_key e = (case en_At (so_entry e) of None \<Rightarrow> (0, 0) | Some t \<Rightarrow> (1, t))"

definition in_order :: "sourced list \<Rightarrow> sourced list" where
  "in_order entries = sort_key at_key entries"

section \<open>Totals\<close>

definition bump_count :: "bytes \<Rightarrow> (bytes \<times> nat) list \<Rightarrow> (bytes \<times> nat) list" where
  "bump_count k m = AList.update k (counts m k + 1) m"

record log_tally =
  ta_sessions :: "bytes set"
  ta_byTool :: "(bytes \<times> nat) list"
  ta_blocked :: nat
  ta_allowed :: nat
  ta_byRule :: "(bytes \<times> nat) list"
  ta_changes :: nat

definition tally_step :: "log_tally \<Rightarrow> sourced \<Rightarrow> log_tally" where
  "tally_step t s =
     (let e = so_entry s;
          t = t\<lparr>ta_sessions := insert (en_Session e) (ta_sessions t), ta_byTool := bump_count (en_Tool e) (ta_byTool t)\<rparr>;
          t = (if Breach e
            then let t = t\<lparr>ta_byRule := bump_count (en_Rule e) (ta_byRule t)\<rparr>
              in if en_Enforced e then t\<lparr>ta_blocked := ta_blocked t + 1\<rparr> else t\<lparr>ta_allowed := ta_allowed t + 1\<rparr>
            else t)
      in foldl (\<lambda>t r. if r = ''watch-changes'' then t\<lparr>ta_changes := ta_changes t + 1\<rparr> else t) t (en_Audited e))"

definition tally_of :: "sourced list \<Rightarrow> log_tally" where
  "tally_of entries =
     foldl tally_step \<lparr>ta_sessions = {}, ta_byTool = [], ta_blocked = 0, ta_allowed = 0, ta_byRule = [], ta_changes = 0\<rparr> entries"

section \<open>The text\<close>

definition sortedKeys :: "(bytes \<times> nat) list \<Rightarrow> bytes list" where
  "sortedKeys m = sort_key (\<lambda>k. (- int (counts m k), k)) (map fst m)"

definition count_lines :: "(bytes \<times> nat) list \<Rightarrow> bytes" where
  "count_lines m = concat (map (\<lambda>k. line (''  '' @ pad_right 28 k @ '' '' @ num (counts m k))) (sortedKeys m))"

definition breach_line :: "(instant option \<Rightarrow> bytes) \<Rightarrow> sourced \<Rightarrow> bytes" where
  "breach_line stamp s =
     (let e = so_entry s; what = (if \<not> en_Enforced e then ''ALLOWED'' else ''BLOCKED'')
      in line (''  '' @ stamp (en_At e) @ ''  '' @ pad_right 7 what @ ''  '' @ pad_right 14 (so_source s) @ '' '' @
           pad_right 22 (en_Tool e) @ '' '' @ pad_right 22 (en_Rule e) @ '' '' @ Join (en_Targets e) '', ''))"

definition breach_section :: "(instant option \<Rightarrow> bytes) \<Rightarrow> log_tally \<Rightarrow> sourced list \<Rightarrow> bytes" where
  "breach_section stamp t entries =
     (if ta_blocked t + ta_allowed t > 0
      then line ''breaches by rule:'' @ count_lines (ta_byRule t) @ line [] @ line ''every breach:'' @
        concat (map (breach_line stamp) (filter (Breach \<circ> so_entry) entries)) @ line []
      else [])"

definition call_line :: "(instant option \<Rightarrow> bytes) \<Rightarrow> sourced \<Rightarrow> bytes" where
  "call_line stamp s =
     (let e = so_entry s
      in line (''  '' @ stamp (en_At e) @ ''  '' @ pad_right 5 (en_Effect e) @ ''  '' @ pad_right 14 (so_source s) @ '' '' @
           pad_right 22 (en_Tool e) @ '' '' @ Join (en_Targets e) '', ''))"

definition log_report_text :: "(instant option \<Rightarrow> bytes) \<Rightarrow> bool \<Rightarrow> sourced list \<Rightarrow> bytes" where
  "log_report_text stamp all entries =
     (if length entries = 0 then line ''no tool calls recorded in that period''
      else
        let t = tally_of entries in
        line (''chokepoint report: '' @ num (length entries) @ '' tool calls in '' @ num (card (ta_sessions t)) @ '' sessions, '' @
          stamp (en_At (so_entry (entries ! 0))) @ '' to '' @ stamp (en_At (so_entry (entries ! (length entries - 1))))) @ line [] @
        line (''  breaches blocked:              '' @ num (ta_blocked t)) @
        line (''  breaches ALLOWED (monitor):    '' @ num (ta_allowed t)) @
        line (''  changes made (writes, edits):  '' @ num (ta_changes t)) @ line [] @
        breach_section stamp t entries @
        line ''calls by tool:'' @ count_lines (ta_byTool t) @
        (if all then line [] @ line ''every call:'' @ concat (map (call_line stamp) entries) else []))"

text \<open>\<open>cmdReport\<close>: \<open>logs\<close> are the logs of the default folder, read when no file is named.\<close>

definition cmdReport ::
  "(bytes \<Rightarrow> bytes option) \<Rightarrow> bytes list \<Rightarrow> instant \<Rightarrow> (instant option \<Rightarrow> bytes) \<Rightarrow> bytes list \<Rightarrow> log_error + bytes" where
  "cmdReport open' logs now stamp args =
     (case report_flags args \<lparr>lo_files = [], lo_since = 0, lo_all = False\<rparr> of
       Inl e \<Rightarrow> Inl e
     | Inr o' \<Rightarrow>
         if lo_files o' = [] \<and> logs = [] then Inl NoLogs
         else case gather open' (if lo_files o' = [] then logs else lo_files o') of
           Inl e \<Rightarrow> Inl e
         | Inr (entries, _) \<Rightarrow> Inr (log_report_text stamp (lo_all o') (in_order (since_filter now (lo_since o') entries))))"

section \<open>What the totals count\<close>

lemma counts_bump: "counts (bump_count k m) r = counts m r + (if k = r then 1 else 0)"
  by (auto simp: bump_count_def counts_def update_conv')

text \<open>The parts of the loop's state, each as a fold of its own.\<close>

abbreviation audit_changes :: "entry \<Rightarrow> nat" where
  "audit_changes e \<equiv> count_list (en_Audited e) ''watch-changes''"

lemma count_changes:
  "foldl (\<lambda>t r. if r = ''watch-changes'' then t\<lparr>ta_changes := ta_changes t + 1\<rparr> else t) t rs =
    t\<lparr>ta_changes := ta_changes t + count_list rs ''watch-changes''\<rparr>"
  by (induction rs arbitrary: t) simp_all

lemma tally_step_fields:
  "ta_sessions (tally_step t s) = insert (en_Session (so_entry s)) (ta_sessions t)"
  "ta_byTool (tally_step t s) = bump_count (en_Tool (so_entry s)) (ta_byTool t)"
  "ta_byRule (tally_step t s) = (if Breach (so_entry s) then bump_count (en_Rule (so_entry s)) (ta_byRule t) else ta_byRule t)"
  "ta_blocked (tally_step t s) = ta_blocked t + (if Breach (so_entry s) \<and> en_Enforced (so_entry s) then 1 else 0)"
  "ta_allowed (tally_step t s) = ta_allowed t + (if Breach (so_entry s) \<and> \<not> en_Enforced (so_entry s) then 1 else 0)"
  "ta_changes (tally_step t s) = ta_changes t + audit_changes (so_entry s)"
  by (simp_all add: tally_step_def Let_def count_changes)

lemma tally_fold:
  fixes t t' :: log_tally
  assumes "t' = foldl tally_step t es"
  shows "ta_sessions t' = ta_sessions t \<union> (\<lambda>s. en_Session (so_entry s)) ` set es"
    "counts (ta_byTool t') k = counts (ta_byTool t) k + length (filter (\<lambda>s. en_Tool (so_entry s) = k) es)"
    "counts (ta_byRule t') k = counts (ta_byRule t) k + length (filter (\<lambda>s. Breach (so_entry s) \<and> en_Rule (so_entry s) = k) es)"
    "ta_blocked t' = ta_blocked t + length (filter (\<lambda>s. Breach (so_entry s) \<and> en_Enforced (so_entry s)) es)"
    "ta_allowed t' = ta_allowed t + length (filter (\<lambda>s. Breach (so_entry s) \<and> \<not> en_Enforced (so_entry s)) es)"
    "ta_changes t' = ta_changes t + sum_list (map (audit_changes \<circ> so_entry) es)"
  using assms by (induction es arbitrary: t) (auto simp: tally_step_fields counts_bump)

lemma tally_of_counts:
  "ta_sessions (tally_of es) = (\<lambda>s. en_Session (so_entry s)) ` set es"
  "counts (ta_byTool (tally_of es)) k = length (filter (\<lambda>s. en_Tool (so_entry s) = k) es)"
  "counts (ta_byRule (tally_of es)) k = length (filter (\<lambda>s. Breach (so_entry s) \<and> en_Rule (so_entry s) = k) es)"
  "ta_blocked (tally_of es) = length (filter (\<lambda>s. Breach (so_entry s) \<and> en_Enforced (so_entry s)) es)"
  "ta_allowed (tally_of es) = length (filter (\<lambda>s. Breach (so_entry s) \<and> \<not> en_Enforced (so_entry s)) es)"
  "ta_changes (tally_of es) = sum_list (map (audit_changes \<circ> so_entry) es)"
  using tally_fold [OF refl, of _ es] by (simp_all add: tally_of_def counts_def)

lemma in_order_counts:
  "length (filter P (in_order es)) = length (filter P es)" "set (in_order es) = set es" "length (in_order es) = length es"
  "sum_list (map g (in_order es)) = sum_list (map g es)" for g :: "sourced \<Rightarrow> nat"
proof -
  show "length (filter P (in_order es)) = length (filter P es)" by (simp add: in_order_def filter_sort)
  show "sum_list (map g (in_order es)) = sum_list (map g es)"
    unfolding in_order_def by (metis mset_map mset_sort sum_mset_sum_list)
qed (simp_all add: in_order_def)

lemma totalOf_bump: "totalOf (bump_count k m) = totalOf m + 1"
proof -
  have "sum_list (map snd (AList.update k (counts m k + 1) m)) = sum_list (map snd m) + 1"
    by (induction m) (auto simp: counts_def)
  then show ?thesis by (simp add: totalOf_sum bump_count_def)
qed

lemma tally_totals:
  "totalOf (ta_byTool (tally_of es)) = length es"
  "totalOf (ta_byRule (tally_of es)) = ta_blocked (tally_of es) + ta_allowed (tally_of es)"
proof -
  have "totalOf (ta_byTool (foldl tally_step t es)) = totalOf (ta_byTool t) + length es" for t
    by (induction es arbitrary: t) (simp_all add: tally_step_fields totalOf_bump)
  then show "totalOf (ta_byTool (tally_of es)) = length es" by (simp add: tally_of_def totalOf_def)
  have "totalOf (ta_byRule t) = ta_blocked t + ta_allowed t \<Longrightarrow>
    totalOf (ta_byRule (foldl tally_step t es)) = ta_blocked (foldl tally_step t es) + ta_allowed (foldl tally_step t es)" for t
    by (induction es arbitrary: t) (simp_all add: tally_step_fields totalOf_bump)
  then show "totalOf (ta_byRule (tally_of es)) = ta_blocked (tally_of es) + ta_allowed (tally_of es)"
    by (simp add: tally_of_def totalOf_def)
qed

text \<open>The loggable decisions of a log file, and the entries they are read back as.\<close>

definition decided_events :: "(bytes \<times> instant \<times> decision_event) list \<Rightarrow> decision_event list" where
  "decided_events ds = map (\<lambda>(_, _, ev). ev) ds"

lemma entry_fields:
  "en_Tool (entry_for tid (sid, now, ev)) = ev_Tool ev" "en_Rule (entry_for tid (sid, now, ev)) = ev_Rule ev"
  "Breach (entry_for tid (sid, now, ev)) \<longleftrightarrow> ev_Effect ev = EffectDeny" "en_Session (entry_for tid (sid, now, ev)) = tid"
  "en_Enforced (entry_for tid (sid, now, ev)) \<longleftrightarrow> ev_Effect ev = EffectDeny \<and> \<not> ev_Unenforced ev"
  "en_Audited (entry_for tid (sid, now, ev)) = ev_Audited ev"
  by (simp_all add: entry_for_def entry_of_def Breach_def EffectDeny_def)

definition sourced_log :: "bytes \<Rightarrow> bytes \<Rightarrow> (bytes \<times> instant \<times> decision_event) list \<Rightarrow> sourced list" where
  "sourced_log f tid ds = map (\<lambda>d. \<lparr>so_entry = entry_for tid d, so_source = sourceName f\<rparr>) ds"

lemma read_written:
  assumes "list_all (loggable ft (aw_traceID a)) ds" "\<not> aw_encErr a" "aw_out a = []"
  shows "Read (aw_out (record_decisions ft (map (\<lambda>d. (None, d)) ds) a)) = (map (entry_for (aw_traceID a)) ds, [], True)"
  using session_log.read_lines [OF assms(1), of 0 "[]"] assms(2,3)
  by (simp add: record_decisions_ok Read_def session_log.log_text_def)

lemma gather_logs:
  assumes "\<forall>f \<in> set files. open' f = Some (aw_out (record_decisions ft (map (\<lambda>d. (None, d)) (ds f)) (New_audit [] onError (tid f) hex)))"
    and "\<forall>f \<in> set files. list_all (loggable ft (traceIDOr (tid f) hex)) (ds f)"
  shows "gather open' files = Inr (concat (map (\<lambda>f. sourced_log f (traceIDOr (tid f) hex) (ds f)) files), [])"
  using assms
proof (induction files)
  case (Cons f files)
  have "Read (aw_out (record_decisions ft (map (\<lambda>d. (None, d)) (ds f)) (New_audit [] onError (tid f) hex))) =
    (map (entry_for (traceIDOr (tid f) hex)) (ds f), [], True)"
    using read_written [of ft "New_audit [] onError (tid f) hex" "ds f"] Cons.prems(2) by (simp add: New_audit_def)
  with Cons show ?case by (simp add: sourced_log_def comp_def)
qed simp

lemma filter_sourced:
  "(\<And>sid now ev. P \<lparr>so_entry = entry_for t (sid, now, ev), so_source = sourceName f\<rparr> \<longleftrightarrow> Q ev) \<Longrightarrow>
    length (filter P (sourced_log f t ds)) = length (filter Q (decided_events ds))"
  by (induction ds) (auto simp: sourced_log_def decided_events_def)

lemma filter_logs:
  assumes "\<And>f sid now ev. P \<lparr>so_entry = entry_for (tid f) (sid, now, ev), so_source = sourceName f\<rparr> \<longleftrightarrow> Q ev"
  shows "length (filter P (concat (map (\<lambda>f. sourced_log f (tid f) (ds f)) files))) =
    length (filter Q (concat (map (\<lambda>f. decided_events (ds f)) files)))"
proof -
  have "length (filter P (sourced_log f (tid f) (ds f))) = length (filter Q (decided_events (ds f)))" for f
    using assms by (rule filter_sourced)
  then show ?thesis by (induction files) simp_all
qed

lemma sessions_logs:
  "(\<lambda>s. en_Session (so_entry s)) ` set (concat (map (\<lambda>f. sourced_log f (tid f) (ds f)) files)) =
    {tid f |f. f \<in> set files \<and> ds f \<noteq> []}"
proof -
  have "(\<lambda>s. en_Session (so_entry s)) ` set (sourced_log f t d) = (if d = [] then {} else {t})" for f t d
    by (induction d) (auto simp: sourced_log_def entry_fields)
  then show ?thesis by (auto simp: image_UN split: if_splits)
qed

lemma sum_logs:
  "sum_list (map (audit_changes \<circ> so_entry) (concat (map (\<lambda>f. sourced_log f (tid f) (ds f)) files))) =
    sum_list (map (\<lambda>ev. count_list (ev_Audited ev) ''watch-changes'') (concat (map (\<lambda>f. decided_events (ds f)) files)))"
proof -
  have "sum_list (map (audit_changes \<circ> so_entry) (sourced_log f t d)) =
    sum_list (map (\<lambda>ev. count_list (ev_Audited ev) ''watch-changes'') (decided_events d))" for f t d
    by (induction d) (auto simp: sourced_log_def decided_events_def entry_fields)
  then show ?thesis by (induction files) simp_all
qed

text \<open>C33: the report over logs that a session each wrote without a failed write is the report of the
  decisions themselves: nothing is skipped, the sessions are counted once, and the totals of breaches blocked
  and allowed, of changes, by tool and by rule are those of the decisions of all the sessions.\<close>

theorem log_report_counts_decisions:
  assumes "\<forall>f \<in> set files. open' f = Some (aw_out (record_decisions ft (map (\<lambda>d. (None, d)) (ds f)) (New_audit [] onError (tid f) hex)))"
    and "\<forall>f \<in> set files. list_all (loggable ft (traceIDOr (tid f) hex)) (ds f)"
    and "evs = concat (map (\<lambda>f. decided_events (ds f)) files)"
  shows "\<exists>entries. gather open' files = Inr (entries, []) \<and> length (in_order entries) = length evs \<and>
    (let t = tally_of (in_order entries) in
     ta_sessions t = {traceIDOr (tid f) hex |f. f \<in> set files \<and> ds f \<noteq> []} \<and>
     ta_blocked t = length (filter (\<lambda>ev. ev_Effect ev = EffectDeny \<and> \<not> ev_Unenforced ev) evs) \<and>
     ta_allowed t = length (filter (\<lambda>ev. ev_Effect ev = EffectDeny \<and> ev_Unenforced ev) evs) \<and>
     ta_changes t = sum_list (map (\<lambda>ev. count_list (ev_Audited ev) ''watch-changes'') evs) \<and>
     (\<forall>k. counts (ta_byTool t) k = length (filter (\<lambda>ev. ev_Tool ev = k) evs)) \<and>
     (\<forall>k. counts (ta_byRule t) k = length (filter (\<lambda>ev. ev_Effect ev = EffectDeny \<and> ev_Rule ev = k) evs)) \<and>
     totalOf (ta_byTool t) = length evs \<and> totalOf (ta_byRule t) = ta_blocked t + ta_allowed t)"
proof -
  define t where "t f = traceIDOr (tid f) hex" for f
  define es where "es = concat (map (\<lambda>f. sourced_log f (t f) (ds f)) files)"
  have g: "gather open' files = Inr (es, [])"
    using gather_logs [OF assms(1,2)] by (simp add: es_def t_def)
  have count: "length (filter P es) = length (filter Q evs)"
    if "\<And>f sid now ev. P \<lparr>so_entry = entry_for (t f) (sid, now, ev), so_source = sourceName f\<rparr> \<longleftrightarrow> Q ev" for P Q
    unfolding es_def assms(3) using that by (rule filter_logs)
  have n: "length es = length evs" using count [of "\<lambda>_. True" "\<lambda>_. True"] by simp
  have s: "(\<lambda>s. en_Session (so_entry s)) ` set es = {traceIDOr (tid f) hex |f. f \<in> set files \<and> ds f \<noteq> []}"
    unfolding es_def sessions_logs by (simp add: t_def)
  have c: "sum_list (map (audit_changes \<circ> so_entry) es) = sum_list (map (\<lambda>ev. count_list (ev_Audited ev) ''watch-changes'') evs)"
    unfolding es_def assms(3) by (rule sum_logs)
  have q: "length (filter (\<lambda>s. Breach (so_entry s) \<and> en_Enforced (so_entry s)) es) =
      length (filter (\<lambda>ev. ev_Effect ev = EffectDeny \<and> \<not> ev_Unenforced ev) evs)"
    "length (filter (\<lambda>s. Breach (so_entry s) \<and> \<not> en_Enforced (so_entry s)) es) =
      length (filter (\<lambda>ev. ev_Effect ev = EffectDeny \<and> ev_Unenforced ev) evs)"
    "length (filter (\<lambda>s. en_Tool (so_entry s) = k) es) = length (filter (\<lambda>ev. ev_Tool ev = k) evs)"
    "length (filter (\<lambda>s. Breach (so_entry s) \<and> en_Rule (so_entry s) = k) es) =
      length (filter (\<lambda>ev. ev_Effect ev = EffectDeny \<and> ev_Rule ev = k) evs)" for k
    by (rule count, auto simp: entry_fields)+
  show ?thesis
    unfolding Let_def by (intro exI [of _ es] conjI allI g) (simp_all only: tally_totals tally_of_counts in_order_counts n s c q)
qed

lemma sublist_concat: "x \<in> set xs \<Longrightarrow> sublist (f x) (concat (map f xs))"
  by (induction xs) (auto intro: sublist_appendI sublist_order.order_trans)

lemma sublist_left: "sublist x b \<Longrightarrow> sublist x (a @ b)" and sublist_right: "sublist x a \<Longrightarrow> sublist x (a @ b)"
  by (auto intro: sublist_order.order_trans)

lemma breach_in_section:
  assumes "s \<in> set entries" "Breach (so_entry s)"
  shows "sublist (breach_line stamp s) (breach_section stamp (tally_of entries) entries)"
proof -
  have "ta_blocked (tally_of entries) + ta_allowed (tally_of entries) > 0"
    unfolding tally_of_counts using assms by (cases "en_Enforced (so_entry s)") (auto simp: filter_empty_conv)
  moreover have "sublist (breach_line stamp s) (concat (map (breach_line stamp) (filter (Breach \<circ> so_entry) entries)))"
    by (rule sublist_concat) (use assms in simp)
  ultimately show ?thesis
    by (simp only: breach_section_def if_True) (intro sublist_left sublist_right)
qed

lemma section_in_text:
  assumes "entries \<noteq> []" "sublist x (breach_section stamp (tally_of entries) entries)"
  shows "sublist x (log_report_text stamp all entries)"
proof -
  have "length entries \<noteq> 0" using assms(1) by simp
  then show ?thesis
    unfolding log_report_text_def Let_def
    by (simp only: if_False simp_thms)
       (rule sublist_left, rule sublist_left, rule sublist_left, rule sublist_left, rule sublist_left, rule sublist_left,
        rule sublist_right, rule assms(2))
qed

text \<open>C34: no breach that is in the logs, and in the period asked for, is left out of the report.\<close>

theorem log_report_lists_every_breach:
  assumes "report_flags args \<lparr>lo_files = [], lo_since = 0, lo_all = False\<rparr> = Inr o'" "lo_files o' \<noteq> [] \<or> logs \<noteq> []"
    and "gather open' (if lo_files o' = [] then logs else lo_files o') = Inr (entries, skipped)"
    and "s \<in> set entries" "Breach (so_entry s)"
    and "lo_since o' > 0 \<longrightarrow> (\<exists>t. en_At (so_entry s) = Some t \<and> t > now - lo_since o')"
  shows "\<exists>text. cmdReport open' logs now stamp args = Inr text \<and> sublist (breach_line stamp s) text"
proof -
  let ?es = "in_order (since_filter now (lo_since o') entries)"
  have s: "s \<in> set ?es"
    using assms(4,6) by (auto simp: in_order_counts since_filter_def)
  have "cmdReport open' logs now stamp args = Inr (log_report_text stamp (lo_all o') ?es)"
    using assms(1-3) by (auto simp: cmdReport_def)
  moreover have "sublist (breach_line stamp s) (log_report_text stamp (lo_all o') ?es)"
    by (rule section_in_text [OF _ breach_in_section [OF s assms(5)]]) (use s in auto)
  ultimately show ?thesis by blast
qed

definition sample_file :: bytes where
  "sample_file = ''/s/git-01234567-fs.jsonl''"

definition sample_open :: "bytes \<Rightarrow> bytes option" where
  "sample_open = (\<lambda>f. if f = sample_file
     then Some (aw_out (record_decisions (\<lambda>_. ''0'') (map (\<lambda>d. (None, d)) [example_decision]) (New_audit [] True ''xy'' ''ab'')))
     else None)"

lemma sample_trace: "traceIDOr ''xy'' ''ab'' = ''ab''"
  by code_simp

theorem log_report_counts_decisions_witness:
  "\<exists>entries. gather sample_open [sample_file] = Inr (entries, []) \<and> ta_allowed (tally_of (in_order entries)) = 1 \<and>
     ta_blocked (tally_of (in_order entries)) = 0"
  using log_report_counts_decisions [of "[sample_file]" sample_open "\<lambda>_. ''0''" "\<lambda>_. [example_decision]" True "\<lambda>_. ''xy''" "''ab''"
      "[example_denial]"] example_loggable
  by (auto simp: sample_open_def sample_trace Let_def decided_events_def example_decision_def example_denial_def)

lemma five_ns: "ParseDuration ''5ns'' = Some 5"
proof -
  have "duration_term ''5ns'' = Some (5, [])"
    by (simp add: duration_term_def is_digit_def byte_def HasPrefix_def unit_value_def)
  then have "duration_terms 0 ''5ns'' = Some 5"
    by (simp add: duration_terms.simps [of 0] duration_terms.simps [of _ "[]"])
  then show ?thesis by (simp add: ParseDuration_def HasPrefix_def)
qed

theorem log_report_lists_every_breach_witness:
  "\<exists>text. cmdReport sample_open [] 10 (\<lambda>_. ''T'') [''--since'', ''5ns'', sample_file] = Inr text \<and>
     sublist (breach_line (\<lambda>_. ''T'') \<lparr>so_entry = entry_for ''ab'' example_decision, so_source = ''fs''\<rparr>) text"
proof (rule log_report_lists_every_breach)
  have "sourceName sample_file = ''fs''" by code_simp
  then show "gather sample_open (if lo_files \<lparr>lo_files = [sample_file], lo_since = 5, lo_all = False\<rparr> = [] then [] else
      lo_files \<lparr>lo_files = [sample_file], lo_since = 5, lo_all = False\<rparr>) =
    Inr ([\<lparr>so_entry = entry_for ''ab'' example_decision, so_source = ''fs''\<rparr>], [])"
    using gather_logs [of "[sample_file]" sample_open "\<lambda>_. ''0''" "\<lambda>_. [example_decision]" True "\<lambda>_. ''xy''" "''ab''"] example_loggable
    by (simp add: sample_open_def sample_trace sourced_log_def)
  show "report_flags [''--since'', ''5ns'', sample_file] \<lparr>lo_files = [], lo_since = 0, lo_all = False\<rparr> =
    Inr \<lparr>lo_files = [sample_file], lo_since = 5, lo_all = False\<rparr>" by (simp add: five_ns sample_file_def HasPrefix_def)
qed (simp_all add: example_decision_def example_denial_def entry_for_def entry_of_def Breach_def EffectDeny_def)

end
