(* ===== verification/Commands.thy ===== *)
theory Commands
  imports LogReport
begin

text \<open>
  The subcommands as a whole, \<open>cmd/chokepoint/commands.go\<close> and \<open>hook.go\<close>: where logs go and what they are
  called, and \<open>wrap\<close>, \<open>unwrap\<close>, \<open>hook install\<close> and \<open>hook uninstall\<close> from their arguments to the
  file they leave. What they ask of the system (the working directory, this binary's path, the files, whether
  a policy loads, SHA-256) is a record of the environment.
\<close>

section \<open>Names\<close>

text \<open>\<open>auditDir\<close> on a system that is not Windows: \<open>XDG_STATE_HOME\<close>, or a folder of the home directory, if known.\<close>

definition auditDir :: "bytes \<Rightarrow> bytes option \<Rightarrow> bytes option" where
  "auditDir xdg home =
     (if xdg \<noteq> [] then Some (filepath_Join [xdg, ''chokepoint''])
      else case home of
        None \<Rightarrow> None
      | Some h \<Rightarrow> Some (filepath_Join [filepath_Join [h, ''.local'', ''state''], ''chokepoint'']))"

definition safe_name_char :: "char \<Rightarrow> bool" where
  "safe_name_char c \<longleftrightarrow> is_letter c \<or> is_digit c \<or> c = CHR ''.'' \<or> c = CHR ''_'' \<or> c = CHR ''-''"

text \<open>A run of other characters becomes one underscore; \<open>running\<close> tells whether a run has begun.\<close>

fun safe_name :: "bool \<Rightarrow> bytes \<Rightarrow> bytes" where
  "safe_name running [] = []"
| "safe_name running (c # s) =
     (if safe_name_char c then c # safe_name False s
      else if running then safe_name True s
      else CHR ''_'' # safe_name True s)"

text \<open>\<open>filepath.Dir\<close>.\<close>

definition filepath_Dir :: "bytes \<Rightarrow> bytes" where
  "filepath_Dir p = Clean (case cut_last_byte CHR ''/'' p of Some (a, _) \<Rightarrow> a @ ''/'' | None \<Rightarrow> [])"

definition logName :: "(bytes \<Rightarrow> bytes) \<Rightarrow> bytes \<Rightarrow> bytes \<Rightarrow> bytes" where
  "logName sha256 config server =
     (let project = Base (filepath_Dir config)
      in safe_name False project @ ''-'' @ hex_encode (take 4 (sha256 config)) @ ''-'' @ safe_name False server @ ''.jsonl'')"

section \<open>Commands\<close>

record cli_env =
  ce_cwd :: bytes
  ce_self :: "bytes option"
  ce_auditDir :: "bytes option"
  ce_loads :: "bytes \<Rightarrow> bool"
  ce_read :: "bytes \<Rightarrow> bytes option"
  ce_sha256 :: "bytes \<Rightarrow> bytes"

definition Abs_path :: "cli_env \<Rightarrow> bytes \<Rightarrow> bytes" where
  "Abs_path env p = (if HasPrefix p ''/'' then Clean p else filepath_Join [ce_cwd env, p])"

datatype cli_result =
  BadOptions option_error | PolicyError bytes | NoExecutable | NoAuditDir | NoServers bytes | ConfigMalformed bytes
| Edited bytes edit_outcome

text \<open>The names of the servers the first reading finds: every member whose key matches adds to the map, a
  \<open>null\<close> clears it, and anything but an object is an error.\<close>

fun probe_servers :: "bytes list \<Rightarrow> (bytes \<times> json) list \<Rightarrow> bytes list option" where
  "probe_servers names [] = Some names"
| "probe_servers names ((k, v) # ms) =
     (if field_matches ''mcpServers'' k then
        (case v of JNull \<Rightarrow> probe_servers [] ms | JObj servers \<Rightarrow> probe_servers (names @ map fst servers) ms | _ \<Rightarrow> None)
      else probe_servers names ms)"

definition probe_config :: "bytes \<Rightarrow> bytes list option" where
  "probe_config raw =
     (case parse_json raw of Some JNull \<Rightarrow> Some [] | Some (JObj ms) \<Rightarrow> probe_servers [] ms | _ \<Rightarrow> None)"

definition rewrite_file :: "cli_env \<Rightarrow> bytes \<Rightarrow> (bytes \<Rightarrow> doc \<Rightarrow> doc \<times> bool) \<Rightarrow> cli_result" where
  "rewrite_file env path edit =
     (case ce_read env path of
       None \<Rightarrow> Edited path EditMissing
     | Some raw \<Rightarrow>
         (case probe_config raw of
           None \<Rightarrow> ConfigMalformed path
         | Some names \<Rightarrow>
             if names = [] then NoServers path else Edited path (editJSONFile (Some raw) False (rewriteServers edit))))"

definition cmdWrap :: "cli_env \<Rightarrow> bytes list \<Rightarrow> cli_result" where
  "cmdWrap env args =
     (case wrap_args args of
       Inl e \<Rightarrow> BadOptions e
     | Inr (config, policyPath) \<Rightarrow>
         let policyAbs = Abs_path env policyPath in
         if \<not> ce_loads env policyAbs then PolicyError policyAbs
         else case ce_self env of
           None \<Rightarrow> NoExecutable
         | Some self \<Rightarrow>
             (case ce_auditDir env of
               None \<Rightarrow> NoAuditDir
             | Some logDir \<Rightarrow>
                 let configAbs = Abs_path env config
                 in rewrite_file env configAbs
                      (wrap_server self policyAbs (\<lambda>name. filepath_Join [logDir, logName (ce_sha256 env) configAbs name]))))"

definition cmdUnwrap :: "cli_env \<Rightarrow> bytes list \<Rightarrow> cli_result" where
  "cmdUnwrap env args =
     (case unwrap_args args of
       Inl e \<Rightarrow> BadOptions e
     | Inr config \<Rightarrow> rewrite_file env (Abs_path env config) (\<lambda>_. unwrap_server (ce_self env)))"

text \<open>The commands of the servers of a configuration, decoded into the struct: \<open>null\<close> leaves the zero value,
  anything else that is not of the field's type is an error.\<close>

fun server_command :: "bytes \<Rightarrow> (bytes \<times> json) list \<Rightarrow> bytes option" where
  "server_command c [] = Some c"
| "server_command c ((k, v) # ms) =
     (if field_matches ''command'' k then Option.bind (string_field c v) (\<lambda>c. server_command c ms) else server_command c ms)"

fun server_commands :: "(bytes \<times> bytes) list \<Rightarrow> (bytes \<times> json) list \<Rightarrow> (bytes \<times> bytes) list option" where
  "server_commands m [] = Some m"
| "server_commands m ((n, v) # ms) =
     (case v of
       JNull \<Rightarrow> server_commands (AList.update n [] m) ms
     | JObj fs \<Rightarrow> Option.bind (server_command [] fs) (\<lambda>c. server_commands (AList.update n c m) ms)
     | _ \<Rightarrow> None)"

fun config_commands :: "(bytes \<times> bytes) list \<Rightarrow> (bytes \<times> json) list \<Rightarrow> (bytes \<times> bytes) list option" where
  "config_commands m [] = Some m"
| "config_commands m ((k, v) # ms) =
     (if field_matches ''mcpServers'' k then
        (case v of
          JNull \<Rightarrow> config_commands [] ms
        | JObj servers \<Rightarrow> Option.bind (server_commands m servers) (\<lambda>m. config_commands m ms)
        | _ \<Rightarrow> None)
      else config_commands m ms)"

definition mcpConfigWrapped :: "cli_env \<Rightarrow> bytes \<Rightarrow> bool" where
  "mcpConfigWrapped env path =
     (case ce_read env path of
       None \<Rightarrow> False
     | Some raw \<Rightarrow>
         (case parse_json raw of
           Some (JObj ms) \<Rightarrow>
             (case config_commands [] ms of
               None \<Rightarrow> False
             | Some m \<Rightarrow> list_ex (\<lambda>(_, c). isChokepoint (ce_self env) c) m)
         | _ \<Rightarrow> False))"

definition cmdHookInstall :: "cli_env \<Rightarrow> bytes list \<Rightarrow> cli_result" where
  "cmdHookInstall env args =
     (case install_args args of
       Inl e \<Rightarrow> BadOptions e
     | Inr o' \<Rightarrow>
         let policyAbs = Abs_path env (io_policy o') in
         if \<not> ce_loads env policyAbs then PolicyError policyAbs
         else case ce_self env of
           None \<Rightarrow> NoExecutable
         | Some self \<Rightarrow>
             (case ce_auditDir env of
               None \<Rightarrow> NoAuditDir
             | Some logDir \<Rightarrow>
                 let settingsAbs = Abs_path env (io_settings o');
                     project = filepath_Dir (filepath_Dir settingsAbs);
                     skipMCP = (io_skip o' = ''on'' \<or> io_skip o' = [] \<and> mcpConfigWrapped env (filepath_Join [project, ''.mcp.json'']));
                     logFile = filepath_Join [logDir, logName (ce_sha256 env) (filepath_Join [project, ''.claude'']) ''claude-code'']
                 in Edited settingsAbs
                      (editJSONFile (ce_read env settingsAbs) True (install_edit (install_command self policyAbs logFile skipMCP)))))"

definition cmdHookUninstall :: "cli_env \<Rightarrow> bytes list \<Rightarrow> cli_result" where
  "cmdHookUninstall env args =
     (case uninstall_args args of
       Inl e \<Rightarrow> BadOptions e
     | Inr settings \<Rightarrow>
         let settingsAbs = Abs_path env settings
         in Edited settingsAbs (editJSONFile (ce_read env settingsAbs) False uninstall_edit))"

section \<open>Log names\<close>

lemma safe_name_set: "set (safe_name b s) \<subseteq> {c. safe_name_char c}"
  by (induction b s rule: safe_name.induct) (auto simp: safe_name_char_def)

lemma byte_digits: "byte c div 16 < 16" "byte c mod 16 < 16"
proof -
  have "byte c < 256" by (rule byte_less)
  then show "byte c div 16 < 16" "byte c mod 16 < 16" by auto
qed

lemma hex_encode_set: "c \<in> set (hex_encode s) \<Longrightarrow> is_hex c"
proof -
  have d: "is_hex (hex_digit n)" if "n < 16" for n
    using that by (simp add: hex_digit_def is_hex_def is_digit_def byte_def)
  show "c \<in> set (hex_encode s) \<Longrightarrow> is_hex c" by (auto simp: hex_encode_def intro!: d byte_digits)
qed

lemma hex_encode_length: "length (hex_encode s) = 2 * length s"
  by (induction s) (simp_all add: hex_encode_def)

lemma safe_name_no_dash: "CHR ''-'' \<notin> set s \<Longrightarrow> CHR ''-'' \<notin> set (safe_name b s)"
  by (induction b s rule: safe_name.induct) auto

lemma Base_joined: "n \<noteq> [] \<Longrightarrow> CHR ''/'' \<notin> set n \<Longrightarrow> Base (d @ ''/'' @ n) = n"
proof -
  assume n: "n \<noteq> []" "CHR ''/'' \<notin> set n"
  then obtain m x where m: "n = m @ [x]" "x \<noteq> CHR ''/''" by (cases n rule: rev_cases) auto
  then have "rev (dropWhile (\<lambda>c. c = CHR ''/'') (rev (d @ ''/'' @ n))) = d @ CHR ''/'' # n" by simp
  moreover have "cut_last_byte CHR ''/'' (d @ CHR ''/'' # n) = Some (d, n)" using n by (simp add: cut_last_byte_Some)
  ultimately show ?thesis using n(1) by (simp add: Base_def)
qed

lemma cut_byte_at: "c \<notin> set a \<Longrightarrow> cut_byte c (a @ c # b) = Some (a, b)"
  by (simp add: cut_byte_Some)

lemma logName_no_slash: "CHR ''/'' \<notin> set (logName sha256 config server)"
proof -
  have s: "CHR ''/'' \<notin> set (safe_name False t)" for t
    using safe_name_set [of False t] by (auto simp: safe_name_char_def is_letter_def is_lower_def is_upper_def is_digit_def byte_def)
  have h: "CHR ''/'' \<notin> set (hex_encode t)" for t
    using hex_encode_set [of "CHR ''/''" t] by (auto simp: is_hex_def is_digit_def byte_def)
  show ?thesis by (simp add: logName_def s h)
qed

text \<open>the log of a server is a file of the log folder itself, whatever its configuration and name, and
  when the project's folder has no dash in its name, the report names the server it came from.\<close>

theorem log_names_its_server:
  assumes "length (sha256 config) = 32"
  shows "CHR ''/'' \<notin> set (logName sha256 config server) \<and>
    (CHR ''-'' \<notin> set (Base (filepath_Dir config)) \<longrightarrow> sourceName (dir @ ''/'' @ logName sha256 config server) = safe_name False server)"
proof (intro conjI impI)
  show s: "CHR ''/'' \<notin> set (logName sha256 config server)" by (rule logName_no_slash)
  assume dash: "CHR ''-'' \<notin> set (Base (filepath_Dir config))"
  let ?p = "safe_name False (Base (filepath_Dir config))" and ?h = "hex_encode (take 4 (sha256 config))"
  have b: "Base (dir @ ''/'' @ logName sha256 config server) = ?p @ ''-'' @ ?h @ ''-'' @ safe_name False server @ ''.jsonl''"
    using Base_joined [OF _ s, of dir] by (simp add: logName_def)
  have t: "TrimSuffix (?p @ ''-'' @ ?h @ ''-'' @ safe_name False server @ ''.jsonl'') ''.jsonl'' =
      ?p @ CHR ''-'' # ?h @ CHR ''-'' # safe_name False server"
    by (simp add: TrimSuffix_def HasSuffix_iff suffix_def)
  have "CHR ''-'' \<notin> set ?h" using hex_encode_set [of "CHR ''-''"] by (auto simp: is_hex_def is_digit_def byte_def)
  then show "sourceName (dir @ ''/'' @ logName sha256 config server) = safe_name False server"
    unfolding sourceName_def b t Let_def
    using safe_name_no_dash [OF dash, of False] assms by (simp add: cut_byte_at hex_encode_length)
qed

text \<open>A dash in the project's name hides the server.\<close>

lemma dash_hides_the_server:
  "sourceName (''/s/'' @ logName (\<lambda>_. replicate 32 CHR ''A'') ''/home/u/my-app/.mcp.json'' ''fs'') = ''my-app-41414141-fs''"
  "sourceName (''/s/'' @ logName (\<lambda>_. replicate 32 CHR ''A'') ''/home/u/my-platform/.mcp.json'' ''fs'') = ''41414141-fs''"
  by code_simp+

theorem log_names_its_server_witness:
  "sourceName (''/s/'' @ logName (\<lambda>_. replicate 32 CHR ''A'') ''/home/u/app/.mcp.json'' ''my fs'') = ''my_fs''"
proof -
  have "CHR ''-'' \<notin> set (Base (filepath_Dir ''/home/u/app/.mcp.json''))" "safe_name False ''my fs'' = ''my_fs''" by code_simp+
  then show ?thesis
    using log_names_its_server [of "\<lambda>_. replicate 32 CHR ''A''" "''/home/u/app/.mcp.json''" "''my fs''" "''/s''"] by simp
qed

section \<open>What an installation leaves\<close>

text \<open>When \<open>hook install\<close> writes the settings, the document, before it is marshalled, holds a hook whose
  command, split into words as the reader \<open>sh_words\<close> does, runs this program's \<open>hook\<close> with the policy that was asked for,
  made absolute and known to load, and without a mode of its own; the previous settings are kept as the
  backup. The marshaller replaces bytes that are not UTF-8, so for such a path the file differs from the
  document.\<close>

lemma installed_hook_runs:
  assumes "cmdHookInstall env args = Edited path (EditWrite d backup)"
  shows "\<exists>o' self cfg args' g h. install_args args = Inr o' \<and> ce_self env = Some self \<and> path = Abs_path env (io_settings o') \<and>
    backup = ce_read env path \<and> g \<in> set (preToolUse d) \<and> h \<in> set (group_hooks g) \<and>
    sh_words (hook_text h) = Some (self # ''hook'' # args') \<and> cmdHook args' = HookRun cfg \<and>
    hc_policyPath cfg = Abs_path env (io_policy o') \<and> ce_loads env (hc_policyPath cfg) \<and> hc_mode cfg = []"
proof -
  obtain o' where o: "install_args args = Inr o'" using assms by (cases "install_args args") (auto simp: cmdHookInstall_def)
  define policyAbs where "policyAbs = Abs_path env (io_policy o')"
  obtain self c where r: "ce_self env = Some self" "ce_loads env policyAbs" "path = Abs_path env (io_settings o')"
    "editJSONFile (ce_read env path) True (install_edit c) = EditWrite d backup"
    "\<exists>l skip. c = install_command self policyAbs l skip"
    using assms o by (auto simp: cmdHookInstall_def Let_def policyAbs_def split: if_splits option.splits)
  from r(5) obtain l skip where c: "c = install_command self policyAbs l skip" by blast
  have w: "\<exists>d0. install_edit c d0 = (d, True) \<and> backup = ce_read env path"
    using r(4) by (auto simp: editJSONFile_def Let_def split: if_splits option.splits json.splits prod.splits)
  then obtain d0 where d0: "install_edit c d0 = (d, True)" "backup = ce_read env path" by blast
  let ?kept = "filter (Not \<circ> isChokepointHookGroup) (preToolUse d0)"
  have "d = setPreToolUse d0 (?kept @ [hook_entry c])"
    using d0(1) by (auto simp: install_edit_def withoutChokepointHooks_def Let_def split: if_splits)
  then have p: "preToolUse d = ?kept @ [hook_entry c]" using preToolUse_set by simp
  have t: "map hook_text (group_hooks (hook_entry c)) = [c]" by (rule hook_entry_text)
  then obtain h where h: "h \<in> set (group_hooks (hook_entry c))" "hook_text h = c" by (metis list.set_intros(1) map_eq_Cons_D)
  from installed_command_runs_hook [of self policyAbs l skip] c h(2)
  obtain args' where "sh_words (hook_text h) = Some (self # ''hook'' # args')"
    "cmdHook args' = HookRun \<lparr>hc_policyPath = policyAbs, hc_auditLog = l, hc_mode = [], hc_skipMCP = skip\<rparr>" by auto
  moreover have "hook_entry c \<in> set (preToolUse d)" unfolding p by simp
  ultimately show ?thesis
    using o r(1-3) d0(2) h(1) by (intro exI [of _ o'] exI [of _ self]) (force simp: policyAbs_def)
qed

definition sample_env :: cli_env where
  "sample_env = \<lparr>ce_cwd = ''/home/u/app'', ce_self = Some ''/opt/my tools/cp'', ce_auditDir = auditDir [] (Some ''/home/u''),
     ce_loads = (\<lambda>p. p = ''/home/u/app/p.yaml''), ce_read = (\<lambda>_. None), ce_sha256 = (\<lambda>_. replicate 32 CHR ''A'')\<rparr>"

definition sample_installed :: doc where
  "sample_installed = [(''hooks'', JObj [(''PreToolUse'', JArr [hook_entry
     (install_command ''/opt/my tools/cp'' ''/home/u/app/p.yaml''
        ''/home/u/.local/state/chokepoint/app-41414141-claude-code.jsonl'' False)])])]"

lemma installed_hook_runs_witness:
  "cmdHookInstall sample_env [''--policy'', ''p.yaml''] =
     Edited ''/home/u/app/.claude/settings.local.json'' (EditWrite sample_installed None) \<and>
   (\<exists>g h args' cfg. g \<in> set (preToolUse sample_installed) \<and> h \<in> set (group_hooks g) \<and>
     sh_words (hook_text h) = Some (''/opt/my tools/cp'' # ''hook'' # args') \<and> cmdHook args' = HookRun cfg)"
proof
  show i: "cmdHookInstall sample_env [''--policy'', ''p.yaml''] =
     Edited ''/home/u/app/.claude/settings.local.json'' (EditWrite sample_installed None)"
    by code_simp
  have "ce_self sample_env = Some ''/opt/my tools/cp''" by (simp add: sample_env_def)
  with installed_hook_runs [OF i]
  show "\<exists>g h args' cfg. g \<in> set (preToolUse sample_installed) \<and> h \<in> set (group_hooks g) \<and>
     sh_words (hook_text h) = Some (''/opt/my tools/cp'' # ''hook'' # args') \<and> cmdHook args' = HookRun cfg"
    by (elim exE conjE) (simp, blast)
qed

end
