(* ===== verification/Starter.thy ===== *)
theory Starter
  imports Commands
begin

text \<open>
  \<open>chokepoint init\<close>, \<open>cmd/chokepoint/commands.go\<close>, and the starter policy it writes, \<open>starter.go\<close>: the text,
  byte for byte, and the policy a YAML decoder reads from it. How the decoder folds the lines of a block
  scalar is the parameter \<open>folded\<close>. The lemmas follow the text through \<open>policy.Parse\<close> to its decisions.
\<close>

section \<open>Options\<close>

record init_options =
  in_mode :: bytes
  in_out :: bytes

fun init_flags :: "bytes list \<Rightarrow> init_options \<Rightarrow> option_error + init_options" where
  "init_flags [] o' = Inr o'"
| "init_flags (a # as) o' =
     (if a = ''--monitor'' then init_flags as (o'\<lparr>in_mode := ModeMonitor\<rparr>)
      else if a = ''--output'' \<or> a = ''-o'' then
        (case as of [] \<Rightarrow> Inl (NeedsPath ''--output'') | v # as \<Rightarrow> init_flags as (o'\<lparr>in_out := v\<rparr>))
      else Inl (UnknownOption a))"

definition init_args :: "bytes list \<Rightarrow> option_error + init_options" where
  "init_args args = init_flags args \<lparr>in_mode = ModeEnforce, in_out = defaultPolicyFile\<rparr>"

section \<open>The text\<close>

definition yamlQuote :: "bytes \<Rightarrow> bytes" where
  "yamlQuote s =
     [CHR 0x22] @ concat (map (\<lambda>c. if c = CHR 0x5C then [CHR 0x5C, CHR 0x5C] else if c = CHR 0x22 then [CHR 0x5C, CHR 0x22] else [c]) s) @
     [CHR 0x22]"

text \<open>The text has no tilde; in the literals below it stands for a backslash.\<close>

definition bslash :: "bytes \<Rightarrow> bytes" where
  "bslash s = map (\<lambda>c. if c = CHR ''~'' then CHR 0x5C else c) s"

definition block_scalar :: "bytes list \<Rightarrow> bytes list" where
  "block_scalar ls = map (\<lambda>l. ''      '' @ l) ls"

definition starter_head :: "bytes \<Rightarrow> bytes \<Rightarrow> bytes list" where
  \<open>starter_head workspace mode =
     [''# chokepoint policy, written by `chokepoint init`.'',
      ''#'',
      ''# Every tool call your agent makes through a wrapped MCP server is checked'',
      ''# against the rules below, top to bottom. The first deny that matches decides.'',
      ''# Every decision is written to the audit log; `chokepoint report` reads it.'',
      [],
      ''# enforce: refuse a call that breaks a rule.'',
      ''# monitor: let it through, so an unattended agent keeps working, and record'',
      ''#          it as a violation. Switch without editing: --mode monitor.'',
      ''#          Monitor mode blocks nothing, except rules marked'',
      ''#          always_enforce: true (see no-secrets below).'',
      ''mode: '' @ mode,
      [],
      ''default_effect: allow'',
      [],
      ''# Where the agent may reach. Anything else is out of bounds.'',
      ''#'',
      ''# Folders are matched on the real path, so "../" tricks do not get out. Add a'',
      ''# URL prefix for each site the agent may fetch from; with none listed, every'',
      ''# web request is out of bounds, which is what you want for an agent that'',
      ''# should stay off the internet.'',
      ''workspace:'',
      ''  - '' @ yamlQuote workspace,
      ''  # - https://docs.python.org'',
      ''  # - https://api.github.com'',
      [],
      ''rules:'']\<close>

definition protect_match :: "bytes \<Rightarrow> bytes list" where
  \<open>protect_match logs =
     [''(tool.matches("(?i)(write|edit|create|move|rename|delete|remove|notebook)") || tool == "Bash") &&'',
      ''targets.exists(t,'',
      bslash ''  t.matches("(^|[/~~~~])(chokepoint~~.yaml|~~.mcp~~.json|~~.mcp~~.json~~.chokepoint-backup|claude_desktop_config~~.json)$") ||'',
      bslash ''  t.matches("(^|[/~~~~])~~.(claude|cursor)([/~~~~]|$)") ||'',
      ''  t.startsWith('' @ logs @ '') ||'',
      ''  (('' @ logs @ ''.startsWith(t + "/") || '' @ logs @ bslash ''.startsWith(t + "~~")) &&'',
      ''    (tool.matches("(?i)(delete|remove|move|rename)") ||'',
      bslash ''     (tool == "Bash" && args.command.matches("(^|[~~s;&|(])(rm|mv|rmdir|shred|unlink)(~~s|$)")))))'']\<close>

definition protect_agent_config :: "bytes \<Rightarrow> bytes list" where
  \<open>protect_agent_config logs =
     [''  # The agent may not change what watches it: these rules, its MCP config,'',
      ''  # Claude Code's or Cursor's settings, or the audit logs. An agent that can'',
      ''  # unwrap its servers or delete the log can end its own supervision, and in'',
      ''  # monitor mode it would erase the record that mode exists to keep. So this'',
      ''  # one blocks in monitor mode too; delete always_enforce to let it through.'',
      ''  # Shell commands that name these files are refused whether they read or'',
      ''  # write them, since a command's effect cannot be told from its text.'',
      ''  - name: protect-agent-config'',
      ''    match: >-''] @
     block_scalar (protect_match logs) @
     [''    effect: deny'',
      ''    always_enforce: true'',
      ''    message: The agent may not change its own rules, tool configuration or audit logs.'']\<close>

definition tool_definition_changed_rule :: "bytes list" where
  \<open>tool_definition_changed_rule =
     [[],
      ''  # A server that changes a tool's definition mid-session is the signature of'',
      ''  # tool poisoning: the agent re-reads the new description and follows it.'',
      ''  - name: tool-definition-changed'',
      ''    match: tool_definition_changed'',
      ''    effect: deny'',
      ''    message: This tool changed after the session started. Have a person re-approve the server.'']\<close>

definition secrets_match :: "bytes list" where
  \<open>secrets_match =
     [''targets.exists(t,'',
      bslash ''  t.matches("(^|[/~~~~])(~~.ssh|~~.aws|~~.gnupg|~~.kube|~~.docker|~~.azure|~~.config/gcloud)([/~~~~]|$)") ||'',
      bslash ''  t.matches("(^|[/~~~~])~~.env(~~.(local|dev|development|prod|production|staging|test))?$") ||'',
      bslash ''  t.matches("~~.(pem|key|p12|pfx|keystore|jks)$") ||'',
      bslash ''  t.matches("(^|[/~~~~])(id_rsa|id_dsa|id_ecdsa|id_ed25519|~~.netrc|~~.git-credentials|~~.pgpass|~~.npmrc|~~.pypirc|credentials|credentials~~.json)$") ||'',
      ''  t.matches("^(file://)?/etc/(shadow|gshadow|sudoers)"))'']\<close>

definition no_secrets :: "bytes list" where
  \<open>no_secrets =
     [[],
      ''  # Credentials and keys, wherever they are, including inside the workspace.'',
      ''  - name: no-secrets'',
      ''    match: >-''] @
     block_scalar secrets_match @
     [''    effect: deny'',
      ''    # Uncomment to keep this blocking even in monitor mode.'',
      ''    # always_enforce: true'',
      ''    message: Credentials and keys are off limits to the agent.'']\<close>

definition metadata_match :: "bytes list" where
  \<open>metadata_match =
     [''targets.exists(t,'',
      ''  t.contains("169.254.169.254") || t.contains("metadata.google.internal") ||'',
      ''  t.contains("100.100.100.200") || t.contains("fd00:ec2::254"))'']\<close>

definition no_cloud_metadata :: "bytes list" where
  \<open>no_cloud_metadata =
     [[],
      ''  # Cloud instance metadata hands out the machine's own cloud credentials.'',
      ''  - name: no-cloud-metadata'',
      ''    match: >-''] @
     block_scalar metadata_match @
     [''    effect: deny'',
      ''    # always_enforce: true'',
      ''    message: Cloud instance metadata is off limits to the agent.'']\<close>

definition network_match :: "bytes list" where
  \<open>network_match =
     [''tool == "Bash" && has(args.command) &&'',
      bslash ''args.command.matches("(^|[~~s;&|(~~x60$])(curl|wget|nc|ncat|netcat|socat|telnet|ssh|scp|sftp|rsync|ftp)(~~s|$)")'']\<close>

definition no_shell_network :: "bytes list" where
  \<open>no_shell_network =
     [[],
      ''  # Raw network commands in a shell. The hook reads paths and URLs out of a'',
      ''  # command's text, and "curl example.com" has no URL in it to check, so the'',
      ''  # commands themselves are refused and the agent is pointed at a web tool'',
      ''  # the workspace can check. Package managers (npm, pip, git) are not'',
      ''  # covered; add them here if the agent must not install anything.'',
      ''  - name: no-shell-network'',
      ''    match: >-''] @
     block_scalar network_match @
     [''    effect: deny'',
      ''    message: Network commands in the shell are off limits; use the web fetch tool, which is checked against the allowed sites.'']\<close>

definition outside_workspace :: "bytes list" where
  \<open>outside_workspace =
     [[],
      ''  # The boundary declared in workspace above.'',
      ''  - name: outside-workspace'',
      ''    match: scope_declared && out_of_scope.size() > 0'',
      ''    effect: deny'',
      ''    message: That is outside the folders and sites this agent may use.'']\<close>

definition watch_changes :: "bytes list" where
  \<open>watch_changes =
     [[],
      ''  # Not a breach: recorded so the report can show what the agent changed.'',
      ''  - name: watch-changes'',
      ''    match: tool.matches("(?i)(write|edit|create|move|rename|delete|remove)")'',
      ''    effect: audit'']\<close>

definition starter_lines :: "bytes \<Rightarrow> bytes \<Rightarrow> bytes \<Rightarrow> bytes list" where
  "starter_lines workspace mode logs =
     starter_head workspace mode @ protect_agent_config logs @ tool_definition_changed_rule @
     no_secrets @ no_cloud_metadata @ no_shell_network @ outside_workspace @ watch_changes"

definition starterPolicy :: "(bytes \<Rightarrow> bool) \<Rightarrow> bytes \<Rightarrow> bytes \<Rightarrow> bytes \<Rightarrow> bytes" where
  "starterPolicy pr workspace mode logDir =
     concat (map (\<lambda>l. l @ [newline]) (starter_lines workspace mode (quote pr logDir)))"

section \<open>Writing it\<close>

text \<open>Opening the file for writing, which must not exist yet.\<close>

datatype open_outcome = Created | AlreadyExists | CannotCreate

datatype init_result =
  InitBadOptions option_error | InitExists bytes | InitCannotCreate bytes | InitNoAuditDir bytes | InitWrote bytes bytes

definition cmdInit :: "(bytes \<Rightarrow> bool) \<Rightarrow> (bytes \<Rightarrow> open_outcome) \<Rightarrow> cli_env \<Rightarrow> bytes list \<Rightarrow> init_result" where
  "cmdInit pr create env args =
     (case init_args args of
       Inl e \<Rightarrow> InitBadOptions e
     | Inr o' \<Rightarrow>
         (case create (in_out o') of
           AlreadyExists \<Rightarrow> InitExists (in_out o')
         | CannotCreate \<Rightarrow> InitCannotCreate (in_out o')
         | Created \<Rightarrow>
             (case ce_auditDir env of
               None \<Rightarrow> InitNoAuditDir (in_out o')
             | Some logs \<Rightarrow> InitWrote (in_out o') (starterPolicy pr (ce_cwd env) (in_mode o') logs))))"

text \<open>The file it leaves behind, if it creates one.\<close>

definition init_leaves :: "init_result \<Rightarrow> (bytes \<times> bytes) option" where
  "init_leaves r = (case r of InitNoAuditDir p \<Rightarrow> Some (p, []) | InitWrote p t \<Rightarrow> Some (p, t) | _ \<Rightarrow> None)"

text \<open>An \<open>init\<close> that cannot tell where logs go leaves an empty policy behind, which stops the next one.\<close>

lemma failed_init_blocks_the_next:
  assumes "cmdInit pr create env args = InitNoAuditDir path" "create' path = AlreadyExists"
  shows "init_leaves (cmdInit pr create env args) = Some (path, []) \<and> cmdInit pr create' env' args = InitExists path"
  using assms by (auto simp: cmdInit_def init_leaves_def split: sum.splits open_outcome.splits option.splits)

section \<open>What it says\<close>

definition starter_rule :: "bytes \<Rightarrow> bytes \<Rightarrow> effect \<Rightarrow> bool \<Rightarrow> bytes \<Rightarrow> 'p rule" where
  "starter_rule name match eff always msg = \<lparr>rl_Name = name, rl_Match = match, rl_Effect = eff, rl_Message = msg,
     rl_AlwaysEnforce = always, rl_program = None\<rparr>"

definition protect_rule :: "(bytes list \<Rightarrow> bytes) \<Rightarrow> bytes \<Rightarrow> 'p rule" where
  "protect_rule folded logs = starter_rule ''protect-agent-config'' (folded (protect_match logs)) EffectDeny True
     ''The agent may not change its own rules, tool configuration or audit logs.''"

definition boundary_rules :: "(bytes list \<Rightarrow> bytes) \<Rightarrow> 'p rule list" where
  "boundary_rules folded =
     [starter_rule ''tool-definition-changed'' ''tool_definition_changed'' EffectDeny False
        ''This tool changed after the session started. Have a person re-approve the server.'',
      starter_rule ''no-secrets'' (folded secrets_match) EffectDeny False
        ''Credentials and keys are off limits to the agent.'',
      starter_rule ''no-cloud-metadata'' (folded metadata_match) EffectDeny False
        ''Cloud instance metadata is off limits to the agent.'',
      starter_rule ''no-shell-network'' (folded network_match) EffectDeny False
        ''Network commands in the shell are off limits; use the web fetch tool, which is checked against the allowed sites.'',
      starter_rule ''outside-workspace'' ''scope_declared && out_of_scope.size() > 0'' EffectDeny False
        ''That is outside the folders and sites this agent may use.'']"

definition watch_rule :: "'p rule" where
  \<open>watch_rule = starter_rule ''watch-changes'' ''tool.matches("(?i)(write|edit|create|move|rename|delete|remove)")'' EffectAudit False []\<close>

definition starter_rules :: "(bytes list \<Rightarrow> bytes) \<Rightarrow> bytes \<Rightarrow> 'p rule list" where
  "starter_rules folded logs = protect_rule folded logs # boundary_rules folded @ [watch_rule]"

definition starter_document :: "(bytes list \<Rightarrow> bytes) \<Rightarrow> bytes \<Rightarrow> bytes \<Rightarrow> bytes \<Rightarrow> 'p policy" where
  "starter_document folded workspace mode logs =
     \<lparr>pl_DefaultEffect = EffectAllow, pl_Workspace = [workspace], pl_RateWindow = [], pl_Mode = mode,
      pl_Rules = starter_rules folded logs, pl_rateWindow = 0\<rparr>"

section \<open>The text spells the document\<close>

text \<open>The rules as a source states them: a name, an expression on one line or on several, an effect, whether
  it is always enforced, and a message.\<close>

datatype source_expression = OneLine bytes | Lines "bytes list"

type_synonym source_rule = "bytes \<times> source_expression \<times> effect \<times> bool \<times> bytes"

definition starter_source :: "bytes \<Rightarrow> source_rule list" where
  \<open>starter_source logs =
     [(''protect-agent-config'', Lines (protect_match logs), EffectDeny, True,
         ''The agent may not change its own rules, tool configuration or audit logs.''),
      (''tool-definition-changed'', OneLine ''tool_definition_changed'', EffectDeny, False,
         ''This tool changed after the session started. Have a person re-approve the server.''),
      (''no-secrets'', Lines secrets_match, EffectDeny, False, ''Credentials and keys are off limits to the agent.''),
      (''no-cloud-metadata'', Lines metadata_match, EffectDeny, False,
         ''Cloud instance metadata is off limits to the agent.''),
      (''no-shell-network'', Lines network_match, EffectDeny, False,
         ''Network commands in the shell are off limits; use the web fetch tool, which is checked against the allowed sites.''),
      (''outside-workspace'', OneLine ''scope_declared && out_of_scope.size() > 0'', EffectDeny, False,
         ''That is outside the folders and sites this agent may use.''),
      (''watch-changes'', OneLine ''tool.matches("(?i)(write|edit|create|move|rename|delete|remove)")'', EffectAudit, False, [])]\<close>

definition read_rule :: "(bytes list \<Rightarrow> bytes) \<Rightarrow> source_rule \<Rightarrow> 'p rule" where
  "read_rule folded = (\<lambda>(name, e, eff, always, msg).
     starter_rule name (case e of OneLine m \<Rightarrow> m | Lines ls \<Rightarrow> folded ls) eff always msg)"

definition written_rule :: "source_rule \<Rightarrow> bytes list" where
  "written_rule = (\<lambda>(name, e, eff, always, msg).
     [''  - name: '' @ name] @
     (case e of OneLine m \<Rightarrow> [''    match: '' @ m] | Lines ls \<Rightarrow> ''    match: >-'' # block_scalar ls) @
     [''    effect: '' @ eff] @ (if always then [''    always_enforce: true''] else []) @
     (if msg = [] then [] else [''    message: '' @ msg]))"

text \<open>Neither blank nor a comment.\<close>

definition significant :: "bytes \<Rightarrow> bool" where
  "significant l \<longleftrightarrow> (case dropWhile (\<lambda>c. c = CHR '' '') l of [] \<Rightarrow> False | c # _ \<Rightarrow> c \<noteq> CHR ''#'')"

lemma starter_rules_source: "starter_rules folded logs = map (read_rule folded) (starter_source logs)"
  by (simp add: starter_rules_def starter_source_def read_rule_def protect_rule_def boundary_rules_def watch_rule_def)

lemma significant_block: "significant l \<Longrightarrow> significant (''      '' @ l)"
  by (simp add: significant_def)

lemma block_kept: "list_all significant ls \<Longrightarrow> filter significant (block_scalar ls) = block_scalar ls"
  by (auto simp: block_scalar_def list_all_iff filter_id_conv significant_block simp del: append.simps)

lemma expressions_kept:
  "list_all significant (protect_match logs)" "list_all significant secrets_match"
  "list_all significant metadata_match" "list_all significant network_match"
proof -
  show "list_all significant (protect_match logs)"
    by (simp add: protect_match_def significant_def bslash_def)
qed (code_simp+)

text \<open>Without blank lines and comments, the text is the settings followed by the rules of the source, each
  with its name, its expression, its effect and its message, in order and nothing else.\<close>

lemma starter_text:
  "filter significant (starter_lines workspace mode logs) =
     [''mode: '' @ mode, ''default_effect: allow'', ''workspace:'', ''  - '' @ yamlQuote workspace, ''rules:''] @
     concat (map written_rule (starter_source logs))"
proof -
  have "filter significant (starter_head workspace mode) =
      [''mode: '' @ mode, ''default_effect: allow'', ''workspace:'', ''  - '' @ yamlQuote workspace, ''rules:'']"
    by (simp add: starter_head_def significant_def yamlQuote_def)
  moreover have "filter significant (protect_agent_config logs) = written_rule (starter_source logs ! 0)"
    "filter significant tool_definition_changed_rule = written_rule (starter_source logs ! 1)"
    "filter significant no_secrets = written_rule (starter_source logs ! 2)"
    "filter significant no_cloud_metadata = written_rule (starter_source logs ! 3)"
    "filter significant no_shell_network = written_rule (starter_source logs ! 4)"
    "filter significant outside_workspace = written_rule (starter_source logs ! 5)"
    "filter significant watch_changes = written_rule (starter_source logs ! 6)"
    unfolding protect_agent_config_def tool_definition_changed_rule_def no_secrets_def no_cloud_metadata_def
      no_shell_network_def outside_workspace_def watch_changes_def filter_append block_kept [OF expressions_kept(1)]
      block_kept [OF expressions_kept(2)] block_kept [OF expressions_kept(3)] block_kept [OF expressions_kept(4)]
    by (simp_all add: starter_source_def written_rule_def significant_def EffectDeny_def EffectAudit_def)
  moreover have "starter_source logs = map (\<lambda>i. starter_source logs ! i) [0, 1, 2, 3, 4, 5, 6]"
    by (simp add: starter_source_def)
  then have "concat (map written_rule (starter_source logs)) =
      concat (map (\<lambda>i. written_rule (starter_source logs ! i)) [0, 1, 2, 3, 4, 5, 6])"
    by (metis (no_types, lifting) comp_def list.map_comp map_eq_conv)
  ultimately show ?thesis by (simp add: starter_lines_def)
qed

section \<open>What it decides\<close>

text \<open>The program of an expression the library accepts as boolean, and whether it holds of a request.\<close>

definition cel_program :: "('a, 'p) cel_env \<Rightarrow> bytes \<Rightarrow> 'p option" where
  "cel_program env m =
     (case ce_Compile env m of
       Inl _ \<Rightarrow> None
     | Inr ast \<Rightarrow>
         if ce_OutputType env ast \<noteq> BoolType then None
         else (case ce_Program env ast of Inl _ \<Rightarrow> None | Inr prog \<Rightarrow> Some prog))"

definition cel_holds :: "('a, 'p) cel_env \<Rightarrow> ('p \<Rightarrow> vars \<Rightarrow> bytes + cel_val) \<Rightarrow> vars \<Rightarrow> 'p rule \<Rightarrow> bool" where
  "cel_holds env eval vars r \<longleftrightarrow>
     (case cel_program env (rl_Match r) of None \<Rightarrow> False | Some prog \<Rightarrow> eval prog vars = Inr (CelBool True))"

definition cel_accepts :: "('a, 'p) cel_env \<Rightarrow> 'p rule \<Rightarrow> bool" where
  "cel_accepts env r \<longleftrightarrow> TrimSpace (rl_Match r) \<noteq> [] \<and> cel_program env (rl_Match r) \<noteq> None"

definition with_program :: "('a, 'p) cel_env \<Rightarrow> 'p rule \<Rightarrow> 'p rule" where
  "with_program env r = r\<lparr>rl_program := cel_program env (rl_Match r)\<rparr>"

lemma with_program_fields [simp]:
  "rl_Name (with_program env r) = rl_Name r" "rl_Effect (with_program env r) = rl_Effect r"
  "rl_AlwaysEnforce (with_program env r) = rl_AlwaysEnforce r" "rl_Message (with_program env r) = rl_Message r"
  by (simp_all add: with_program_def)

lemma compile_accepted_rule:
  assumes "cel_accepts env r" "rl_Name r \<noteq> []" "rl_Effect r \<in> {EffectAllow, EffectDeny, EffectAudit}"
    "rl_AlwaysEnforce r \<Longrightarrow> rl_Effect r = EffectDeny"
  shows "compile_rule env i r = Inr (with_program env r)"
  using assms
  by (auto simp: compile_rule_def cel_accepts_def cel_program_def with_program_def validEffect_None [THEN iffD2]
      split: sum.splits if_splits)

lemma compile_accepted_rules:
  assumes "list_all (\<lambda>r. cel_accepts env r \<and> rl_Name r \<noteq> [] \<and> rl_Effect r \<in> {EffectAllow, EffectDeny, EffectAudit} \<and>
    (rl_AlwaysEnforce r \<longrightarrow> rl_Effect r = EffectDeny)) rs"
  shows "compile_rules env i rs = Inr (map (with_program env) rs)"
  using assms by (induction rs arbitrary: i) (auto simp: compile_accepted_rule)

lemma with_program_matches:
  "cel_accepts env r \<Longrightarrow> rule_matches eval (with_program env r) vars = Inr True \<longleftrightarrow> cel_holds env eval vars r"
  by (auto simp: cel_accepts_def cel_holds_def rule_matches_def with_program_def isTrue_def split: sum.splits cel_val.splits)

text \<open>A policy of denials followed by audit rules denies exactly what one of the denials matches.\<close>

lemma effects_differ [simp]:
  "EffectDeny \<noteq> EffectAudit" "EffectAudit \<noteq> EffectDeny" "EffectAllow \<noteq> EffectDeny" "EffectDeny \<noteq> EffectAllow"
  by (simp_all add: EffectDeny_def EffectAudit_def EffectAllow_def)

lemma denials_decide:
  assumes "list_all (\<lambda>r. rl_Effect r = EffectDeny) ds" "list_all (\<lambda>r. rl_Effect r = EffectAudit) as"
  shows "dc_Effect (first_match eval dflt vars (ds @ as)) =
    (if list_ex (\<lambda>r. rule_matches eval r vars = Inr True) ds then EffectDeny else dflt)"
proof -
  have "find (decides eval vars) as = None"
    using assms(2) by (auto simp: find_None_iff decides_def list_all_iff)
  moreover have "find (decides eval vars) (ds @ as) =
      (case find (decides eval vars) ds of None \<Rightarrow> find (decides eval vars) as | Some r \<Rightarrow> Some r)"
    by (induction ds) auto
  ultimately show ?thesis
    using assms(1) by (auto simp: first_match_def Let_def find_None_iff find_Some_iff decides_def list_all_iff
        list_ex_iff split: option.splits)
qed

lemma first_rule_decides:
  assumes "rl_Effect r = EffectDeny" "rl_AlwaysEnforce r" "list_all (\<lambda>r. \<not> rl_AlwaysEnforce r) rs"
  shows "dc_AlwaysEnforce (first_match eval dflt vars (r # rs)) \<longleftrightarrow> rule_matches eval r vars = Inr True"
  using assms by (auto simp: first_match_def Let_def decides_def list_all_iff find_Some_iff split: option.splits)

lemma starter_rule_fields [simp]:
  "rl_Effect (protect_rule folded logs) = EffectDeny" "rl_Name (protect_rule folded logs) \<noteq> []"
  "rl_AlwaysEnforce (protect_rule folded logs)"
  "rl_Effect watch_rule = EffectAudit" "rl_Name watch_rule \<noteq> []" "\<not> rl_AlwaysEnforce watch_rule"
  by (simp_all add: protect_rule_def watch_rule_def starter_rule_def)

lemma boundary_rules_fields [simp]:
  "r \<in> set (boundary_rules folded) \<Longrightarrow> rl_Effect r = EffectDeny"
  "r \<in> set (boundary_rules folded) \<Longrightarrow> rl_Name r \<noteq> []"
  "r \<in> set (boundary_rules folded) \<Longrightarrow> \<not> rl_AlwaysEnforce r"
  by (auto simp: boundary_rules_def starter_rule_def)

lemma compile_starter:
  assumes "newEnv declarations = Inr cel" "list_all (cel_accepts cel) (starter_rules folded logs)"
    and "mode \<in> {ModeEnforce, ModeMonitor}"
  shows "Compile newEnv (starter_document folded ws mode logs) =
    Inr ((starter_document folded ws mode logs)\<lparr>pl_Rules := map (with_program cel) (starter_rules folded logs)\<rparr>)"
proof -
  have "compile_rules cel 0 (starter_rules folded logs) = Inr (map (with_program cel) (starter_rules folded logs))"
    using assms(2) by (intro compile_accepted_rules) (auto simp: starter_rules_def list_all_iff)
  moreover have "validEffect EffectAllow = None" by (simp add: validEffect_def)
  moreover have "Mode_Valid mode = None" "mode \<noteq> []" "EffectAllow \<noteq> []"
    using assms(3) by (auto simp: Mode_Valid_def ModeEnforce_def ModeMonitor_def EffectAllow_def)
  ultimately show ?thesis
    using assms(1) by (simp add: Compile_def starter_document_def compile_window_def TrimSpace_def strip_leading.simps)
qed

lemma starter_decisions:
  fixes eval vars
  assumes "list_all (cel_accepts cel) (starter_rules folded logs)"
  defines "d \<equiv> first_match eval EffectAllow vars (map (with_program cel) (starter_rules folded logs))"
  shows "dc_Effect d = (if list_ex (cel_holds cel eval vars) (protect_rule folded logs # boundary_rules folded) then EffectDeny else EffectAllow)"
    and "dc_AlwaysEnforce d \<longleftrightarrow> cel_holds cel eval vars (protect_rule folded logs)"
proof -
  let ?ds = "protect_rule folded logs # boundary_rules folded"
  have d: "d = first_match eval EffectAllow vars (map (with_program cel) ?ds @ map (with_program cel) [watch_rule])"
    by (simp add: d_def starter_rules_def)
  have "list_ex (\<lambda>r. rule_matches eval r vars = Inr True) (map (with_program cel) ?ds) = list_ex (cel_holds cel eval vars) ?ds"
    using assms(1) with_program_matches [of cel _ eval vars]
    by (auto simp: starter_rules_def list_all_iff list_ex_iff)
  moreover have "list_all (\<lambda>r. rl_Effect r = EffectDeny) (map (with_program cel) ?ds)"
    "list_all (\<lambda>r. rl_Effect r = EffectAudit) (map (with_program cel) [watch_rule])"
    by (simp_all add: list_all_iff)
  ultimately show "dc_Effect d = (if list_ex (cel_holds cel eval vars) ?ds then EffectDeny else EffectAllow)"
    unfolding d by (simp only: denials_decide)
  have "dc_AlwaysEnforce d \<longleftrightarrow> rule_matches eval (with_program cel (protect_rule folded logs)) vars = Inr True"
    unfolding d list.map append_Cons
    by (intro first_rule_decides) (auto simp: list_all_iff)
  then show "dc_AlwaysEnforce d \<longleftrightarrow> cel_holds cel eval vars (protect_rule folded logs)"
    using assms(1) by (simp add: starter_rules_def with_program_matches)
qed

lemma init_mode: "init_args args = Inr o' \<Longrightarrow> in_mode o' \<in> {ModeEnforce, ModeMonitor}"
proof -
  have "init_flags args o0 = Inr o' \<Longrightarrow> in_mode o0 \<in> {ModeEnforce, ModeMonitor} \<Longrightarrow> in_mode o' \<in> {ModeEnforce, ModeMonitor}" for o0
    by (induction args o0 rule: init_flags.induct) (auto split: if_splits list.splits)
  then show "init_args args = Inr o' \<Longrightarrow> ?thesis" by (simp add: init_args_def)
qed

text \<open>
  The policy that \<open>init\<close> writes is one the program accepts, in the mode asked for and with the current
  folder as its workspace, once the decoder reads the text as the document that the lemma above says it spells and
  CEL accepts the expressions. It denies a request exactly when one of its six boundary expressions holds of it, allows every
  other, and the denial stands in monitor mode exactly when the agent would change its own rules,
  configuration or logs.\<close>

theorem init_policy_holds_its_boundaries:
  assumes "init_args args = Inr o'" "create (in_out o') = Created" "ce_auditDir env = Some logDir"
    and "decode (starterPolicy pr (ce_cwd env) (in_mode o') logDir) =
      Inr (starter_document folded (ce_cwd env) (in_mode o') (quote pr logDir))"
    and "newEnv declarations = Inr cel" "list_all (cel_accepts cel) (starter_rules folded (quote pr logDir))"
  shows "\<exists>contents q. cmdInit pr create env args = InitWrote (in_out o') contents \<and>
    Parse_policy newEnv (decode contents) = Inr q \<and> pl_Mode q = in_mode o' \<and>
    pl_Workspace q = [ce_cwd env] \<and>
    HasAlwaysEnforce (Some q) \<and>
    (\<forall>req. dc_Effect (Evaluate eval q req) =
        (if list_ex (cel_holds cel eval (request_vars req)) (protect_rule folded (quote pr logDir) # boundary_rules folded)
         then EffectDeny else EffectAllow) \<and>
      dc_AlwaysEnforce (Evaluate eval q req) = cel_holds cel eval (request_vars req) (protect_rule folded (quote pr logDir)))"
proof -
  let ?rules = "starter_rules folded (quote pr logDir)"
  let ?q = "(starter_document folded (ce_cwd env) (in_mode o') (quote pr logDir))\<lparr>pl_Rules := map (with_program cel) ?rules\<rparr>"
  let ?text = "starterPolicy pr (ce_cwd env) (in_mode o') logDir"
  have "cmdInit pr create env args = InitWrote (in_out o') ?text"
    using assms(1-3) by (simp add: cmdInit_def)
  moreover have "Parse_policy newEnv (decode ?text) = Inr ?q"
    using compile_starter [of newEnv, OF assms(5,6) init_mode [OF assms(1)]] assms(4) by (simp add: Parse_policy_def)
  moreover have "HasAlwaysEnforce (Some ?q)"
    by (simp add: HasAlwaysEnforce_def starter_rules_def)
  moreover have "Evaluate eval ?q req = first_match eval EffectAllow (request_vars req) (map (with_program cel) ?rules)" for req
    by (simp add: Evaluate_def evaluate_rules_eq starter_document_def)
  ultimately show ?thesis
    using starter_decisions [OF assms(6), of eval] by (intro exI [of _ ?text] exI [of _ ?q]) (simp add: starter_document_def)
qed

section \<open>An example\<close>

definition starter_env :: cli_env where
  "starter_env = \<lparr>ce_cwd = ''/srv/app'', ce_self = Some ''/bin/chokepoint'', ce_auditDir = Some ''/var/log/cp'',
     ce_loads = (\<lambda>_. True), ce_read = (\<lambda>_. None), ce_sha256 = id\<rparr>"

text \<open>A CEL library whose program is the text of an expression, and which knows one of them.\<close>

definition changed_eval :: "bytes \<Rightarrow> vars \<Rightarrow> bytes + cel_val" where
  "changed_eval prog vars =
     (if prog = ''tool_definition_changed'' then
        (case map_of vars prog of Some (VBool b) \<Rightarrow> Inr (CelBool b) | _ \<Rightarrow> Inl ''no such variable'')
      else Inr (CelBool False))"

definition example_cel :: "(bytes, bytes) cel_env" where
  "example_cel = \<lparr>ce_Compile = Inr, ce_OutputType = (\<lambda>_. BoolType), ce_Program = Inr\<rparr>"

lemma example_starter_accepted:
  "list_all (cel_accepts example_cel) (starter_rules concat (quote (\<lambda>_. True) ''/var/log/cp'') :: bytes rule list)"
  by code_simp

lemma init_policy_holds_its_boundaries_witness:
  "\<exists>contents q. cmdInit (\<lambda>_. True) (\<lambda>_. Created) starter_env [''--monitor''] = InitWrote ''chokepoint.yaml'' contents \<and>
     pl_Mode q = ModeMonitor \<and> dc_Effect (Evaluate changed_eval q (example_request ''read'')) = EffectAllow \<and>
     dc_Effect (Evaluate changed_eval q ((example_request ''read'')\<lparr>rq_ToolDefinitionChanged := True\<rparr>)) = EffectDeny"
proof -
  let ?logs = "quote (\<lambda>_. True) ''/var/log/cp''"
  let ?rules = "protect_rule concat ?logs # boundary_rules concat :: bytes rule list"
  have o': "init_args [''--monitor''] = Inr \<lparr>in_mode = ModeMonitor, in_out = ''chokepoint.yaml''\<rparr>"
    by (simp add: init_args_def defaultPolicyFile_def)
  note known = cel_holds_def cel_program_def example_cel_def changed_eval_def boundary_rules_def starter_rule_def
    protect_rule_def protect_match_def secrets_match_def metadata_match_def network_match_def request_vars_def example_request_def
  have "list_ex (cel_holds example_cel changed_eval (request_vars ((example_request ''read'')\<lparr>rq_ToolDefinitionChanged := True\<rparr>))) ?rules"
    by (simp add: known)
  moreover have "\<not> list_ex (cel_holds example_cel changed_eval (request_vars (example_request ''read''))) ?rules"
    by (simp add: known)
  ultimately show ?thesis
    using init_policy_holds_its_boundaries [OF o', of "\<lambda>_. Created" starter_env "''/var/log/cp''"
        "\<lambda>_. Inr (starter_document concat ''/srv/app'' ModeMonitor ?logs)" "\<lambda>_. True" concat
        "\<lambda>_. Inr example_cel" example_cel changed_eval] example_starter_accepted
    by (auto simp: starter_env_def)
qed

end
