(* ===== verification/Telemetry.thy ===== *)
theory Telemetry
  imports AuditLog
begin

text \<open>
  The telemetry observer, \<open>internal/telemetry\<close>: the metrics and the spans of a session. The metrics
  registry, the tracer, the exporter and the listener are third-party; a span is the list of calls
  the code makes on it, a metric what the code adds to it. The lock makes each operation one step.
\<close>

section \<open>State\<close>

definition SpanTTL :: int where
  "SpanTTL = 5 * 60 * 1000000000"

datatype otel_value = OtelString bytes | OtelBool bool | OtelInt int | OtelFloat64 real | OtelStringSlice "bytes list"

fun otel_value_of :: "attr_value \<Rightarrow> otel_value" where
  "otel_value_of (AString s) = OtelString s"
| "otel_value_of (ABool b) = OtelBool b"
| "otel_value_of (AInt i) = OtelInt i"
| "otel_value_of (AFloat f) = OtelFloat64 f"
| "otel_value_of (AStrings ss) = OtelStringSlice ss"

definition otelAttrs :: "attr list \<Rightarrow> (bytes \<times> otel_value) list" where
  "otelAttrs attrs = map (\<lambda>(k, v). (k, otel_value_of v)) attrs"

datatype span_call = SetError bytes | SetOk | SetLatencyMs real | EndSpan

record otel_span =
  ot_attrs :: "(bytes \<times> otel_value) list"
  ot_calls :: "span_call list"

record tel_metrics =
  mt_toolCalls :: "bytes \<times> bytes \<Rightarrow> nat"
  mt_denials :: "bytes \<times> bytes \<Rightarrow> nat"
  mt_audits :: "bytes \<Rightarrow> nat"
  mt_upstreamErrors :: "bytes \<Rightarrow> nat"
  mt_duration :: "(bytes \<times> int) list"
  mt_decompositionScore :: "real option"
  mt_sessionCalls :: nat
  mt_sessionTargets :: nat
  mt_abandonedSpans :: nat

text \<open>A gauge that holds no number is \<open>None\<close>.\<close>

definition newMetrics :: tel_metrics where
  "newMetrics = \<lparr>mt_toolCalls = \<lambda>_. 0, mt_denials = \<lambda>_. 0, mt_audits = \<lambda>_. 0, mt_upstreamErrors = \<lambda>_. 0,
     mt_duration = [], mt_decompositionScore = None, mt_sessionCalls = 0, mt_sessionTargets = 0, mt_abandonedSpans = 0\<rparr>"

text \<open>The spans started, and those held open under their request: an index and when it started.\<close>

type_synonym pending_span = "nat \<times> instant"

record telemetry =
  tl_metrics :: "tel_metrics option"
  tl_store :: "otel_span list"
  tl_spans :: "(bytes \<times> pending_span) list"

definition New_telemetry :: "bool \<Rightarrow> telemetry" where
  "New_telemetry metricsEnabled =
     \<lparr>tl_metrics = (if metricsEnabled then Some newMetrics else None), tl_store = [], tl_spans = []\<rparr>"

definition PendingSpans :: "telemetry \<Rightarrow> nat" where
  "PendingSpans t = length (tl_spans t)"

section \<open>Operations\<close>

definition inc :: "('k \<Rightarrow> nat) \<Rightarrow> 'k \<Rightarrow> 'k \<Rightarrow> nat" where
  "inc f k = f(k := f k + 1)"

definition on_metrics :: "(tel_metrics \<Rightarrow> tel_metrics) \<Rightarrow> telemetry \<Rightarrow> telemetry" where
  "on_metrics f t = t\<lparr>tl_metrics := map_option f (tl_metrics t)\<rparr>"

definition start_span :: "(bytes \<times> otel_value) list \<Rightarrow> telemetry \<Rightarrow> nat \<times> telemetry" where
  "start_span attrs t = (length (tl_store t), t\<lparr>tl_store := tl_store t @ [\<lparr>ot_attrs = attrs, ot_calls = []\<rparr>]\<rparr>)"

definition span_do :: "nat \<Rightarrow> span_call list \<Rightarrow> telemetry \<Rightarrow> telemetry" where
  "span_do n cs t =
     t\<lparr>tl_store := (tl_store t)[n := (tl_store t ! n)\<lparr>ot_calls := ot_calls (tl_store t ! n) @ cs\<rparr>]\<rparr>"

definition effect_label :: "decision_event \<Rightarrow> bytes" where
  "effect_label ev = (if ev_Unenforced ev then ''violation_allowed'' else ev_Effect ev)"

definition decided_metrics :: "decision_event \<Rightarrow> tel_metrics \<Rightarrow> tel_metrics" where
  "decided_metrics ev m =
     (let m = m\<lparr>mt_toolCalls := inc (mt_toolCalls m) (ev_Tool ev, effect_label ev)\<rparr>;
          m = m\<lparr>mt_audits := foldl inc (mt_audits m) (ev_Audited ev)\<rparr>;
          m = (if ev_Effect ev = EffectDeny \<and> \<not> ev_Unenforced ev
            then m\<lparr>mt_denials := inc (mt_denials m) (ev_Tool ev, ev_Rule ev)\<rparr> else m);
          m = m\<lparr>mt_decompositionScore := (if ev_ScoreUnavailable ev then None else Some (ev_Score ev))\<rparr>
      in m\<lparr>mt_sessionCalls := ev_SessionCalls ev, mt_sessionTargets := ev_SessionTargets ev\<rparr>)"

definition tel_ToolCallDecided :: "instant \<Rightarrow> decision_event \<Rightarrow> telemetry \<Rightarrow> telemetry" where
  "tel_ToolCallDecided now ev t =
     (let t = on_metrics (decided_metrics ev) t;
          (n, t) = start_span (otelAttrs (Attributes ev)) t;
          t = (if ev_Unenforced ev
            then span_do n [SetError (''policy violation allowed (monitor mode): '' @ ev_Rule ev)] t else t)
      in if ev_Effect ev = EffectDeny \<and> \<not> ev_Unenforced ev
         then span_do n [SetError (''denied by policy: '' @ ev_Rule ev), EndSpan] t
         else if ev_ID ev = [] then span_do n [EndSpan] t
         else t\<lparr>tl_spans := AList.update (ev_ID ev) (n, now) (tl_spans t)\<rparr>)"

text \<open>\<open>Latency.Microseconds()\<close> truncates; in milliseconds.\<close>

definition latency_ms :: "int \<Rightarrow> real" where
  "latency_ms d = real_of_int (if d < 0 then - (- d div 1000) else d div 1000) / 1000"

definition completed_metrics :: "completion_event \<Rightarrow> tel_metrics \<Rightarrow> tel_metrics" where
  "completed_metrics ev m =
     (let m = m\<lparr>mt_duration := mt_duration m @ [(cp_Tool ev, cp_Latency ev)]\<rparr>
      in if cp_Errored ev then m\<lparr>mt_upstreamErrors := inc (mt_upstreamErrors m) (cp_Tool ev)\<rparr> else m)"

definition tel_ToolCallCompleted :: "completion_event \<Rightarrow> telemetry \<Rightarrow> telemetry" where
  "tel_ToolCallCompleted ev t =
     (let t = on_metrics (completed_metrics ev) t;
          pending = map_of (tl_spans t) (cp_ID ev);
          t = t\<lparr>tl_spans := AList.delete (cp_ID ev) (tl_spans t)\<rparr>
      in case pending of
        None \<Rightarrow> t
      | Some (n, _) \<Rightarrow>
          span_do n [SetLatencyMs (latency_ms (cp_Latency ev)),
            if cp_Errored ev then SetError ''upstream returned an error'' else SetOk, EndSpan] t)"

definition abandon :: "telemetry \<Rightarrow> bytes \<times> pending_span \<Rightarrow> telemetry" where
  "abandon t = (\<lambda>(_, n, _).
     on_metrics (\<lambda>m. m\<lparr>mt_abandonedSpans := mt_abandonedSpans m + 1\<rparr>)
       (span_do n [SetError ''upstream never answered'', EndSpan] t))"

definition expired :: "instant \<Rightarrow> bytes \<times> pending_span \<Rightarrow> bool" where
  "expired now = (\<lambda>(_, _, started). started < now - SpanTTL)"

definition expireSpans :: "instant \<Rightarrow> telemetry \<Rightarrow> telemetry" where
  "expireSpans now t =
     foldl abandon (t\<lparr>tl_spans := filter (Not \<circ> expired now) (tl_spans t)\<rparr>) (filter (expired now) (tl_spans t))"

definition closeAllSpans :: "bytes \<Rightarrow> telemetry \<Rightarrow> telemetry" where
  "closeAllSpans reason t =
     foldl (\<lambda>t (_, n, _). span_do n [SetError reason, EndSpan] t) (t\<lparr>tl_spans := []\<rparr>) (tl_spans t)"

section \<open>Runs\<close>

datatype tel_step = Decided instant decision_event | Completed completion_event | Sweep instant | Stop bytes

fun tel_apply :: "tel_step \<Rightarrow> telemetry \<Rightarrow> telemetry" where
  "tel_apply (Decided now ev) t = tel_ToolCallDecided now ev t"
| "tel_apply (Completed ev) t = tel_ToolCallCompleted ev t"
| "tel_apply (Sweep now) t = expireSpans now t"
| "tel_apply (Stop reason) t = closeAllSpans reason t"

definition tel_run :: "tel_step list \<Rightarrow> telemetry \<Rightarrow> telemetry" where
  "tel_run steps t = fold tel_apply steps t"

definition ended :: "otel_span \<Rightarrow> bool" where
  "ended s \<longleftrightarrow> EndSpan \<in> set (ot_calls s)"
section \<open>The spans of a run\<close>

definition open_spans :: "telemetry \<Rightarrow> nat set" where
  "open_spans t = {n. n < length (tl_store t) \<and> \<not> ended (tl_store t ! n)}"

definition held_index :: "bytes \<times> pending_span \<Rightarrow> nat" where
  "held_index p = fst (snd p)"

lemma held_index_simp [simp]: "held_index (k, n, s) = n"
  by (simp add: held_index_def)

definition pending_index :: "telemetry \<Rightarrow> nat list" where
  "pending_index t = map held_index (tl_spans t)"

text \<open>A span is ended at most once, by its last call.\<close>

definition span_ok :: "otel_span \<Rightarrow> bool" where
  "span_ok s \<longleftrightarrow> EndSpan \<notin> set (butlast (ot_calls s))"

definition tel_inv :: "nat \<Rightarrow> telemetry \<Rightarrow> bool" where
  "tel_inv k t \<longleftrightarrow> distinct (map fst (tl_spans t)) \<and> distinct (pending_index t) \<and> set (pending_index t) \<subseteq> open_spans t \<and>
     list_all span_ok (tl_store t) \<and> card (open_spans t) = PendingSpans t + k"

text \<open>The spans lost to a reused request id: a forwarded decision whose id is still held.\<close>

definition holds_span :: "decision_event \<Rightarrow> bool" where
  "holds_span ev \<longleftrightarrow> \<not> (ev_Effect ev = EffectDeny \<and> \<not> ev_Unenforced ev) \<and> ev_ID ev \<noteq> []"

fun replaces :: "tel_step \<Rightarrow> telemetry \<Rightarrow> bool" where
  "replaces (Decided now ev) t \<longleftrightarrow> holds_span ev \<and> ev_ID ev \<in> set (map fst (tl_spans t))"
| "replaces _ t \<longleftrightarrow> False"

fun replaced :: "tel_step list \<Rightarrow> telemetry \<Rightarrow> nat" where
  "replaced [] t = 0"
| "replaced (st # sts) t = (if replaces st t then 1 else 0) + replaced sts (tel_apply st t)"

lemma finite_open [simp]: "finite (open_spans t)"
  by (simp add: open_spans_def)

lemma on_metrics_frame [simp]:
  "tl_store (on_metrics f t) = tl_store t" "tl_spans (on_metrics f t) = tl_spans t"
  "open_spans (on_metrics f t) = open_spans t" "pending_index (on_metrics f t) = pending_index t"
  "tel_inv k (on_metrics f t) = tel_inv k t"
  by (simp_all add: on_metrics_def open_spans_def pending_index_def tel_inv_def PendingSpans_def)

lemma span_do_frame [simp]:
  "tl_spans (span_do n cs t) = tl_spans t" "tl_metrics (span_do n cs t) = tl_metrics t"
  "pending_index (span_do n cs t) = pending_index t" "length (tl_store (span_do n cs t)) = length (tl_store t)"
  by (simp_all add: span_do_def pending_index_def)

lemma spans_update [simp]:
  "open_spans (t\<lparr>tl_spans := s\<rparr>) = open_spans t" "tl_store (t\<lparr>tl_spans := s\<rparr>) = tl_store t"
  by (simp_all add: open_spans_def)

lemma open_spans_do:
  "n \<in> open_spans t \<Longrightarrow> open_spans (span_do n cs t) = (if EndSpan \<in> set cs then open_spans t - {n} else open_spans t)"
  by (auto simp: open_spans_def span_do_def ended_def nth_list_update)

lemma span_ok_do:
  assumes "n \<in> open_spans t" "list_all span_ok (tl_store t)" "EndSpan \<notin> set (butlast cs)"
  shows "list_all span_ok (tl_store (span_do n cs t))"
  using assms by (auto simp: list_all_length span_do_def open_spans_def ended_def span_ok_def nth_list_update butlast_append
      dest: in_set_butlastD)

lemma start_span_open:
  "start_span as t = (n, t') \<Longrightarrow> n = length (tl_store t) \<and> open_spans t' = insert n (open_spans t) \<and> n \<notin> open_spans t \<and>
     tl_spans t' = tl_spans t \<and> (list_all span_ok (tl_store t) \<longrightarrow> list_all span_ok (tl_store t'))"
  by (auto simp: start_span_def open_spans_def ended_def nth_append span_ok_def less_Suc_eq)

text \<open>Ending a group of open spans.\<close>

lemma end_all:
  assumes "distinct (map held_index ps)" "set (map held_index ps) \<subseteq> open_spans t" "list_all span_ok (tl_store t)"
    and f: "\<And>t p. f t p = on_metrics g (span_do (held_index p) [SetError e, EndSpan] t)"
  shows "open_spans (foldl f t ps) = open_spans t - set (map held_index ps) \<and>
    list_all span_ok (tl_store (foldl f t ps)) \<and> tl_spans (foldl f t ps) = tl_spans t"
  using assms(1-3)
proof (induction ps arbitrary: t)
  case (Cons p ps)
  let ?n = "held_index p"
  let ?t = "on_metrics g (span_do ?n [SetError e, EndSpan] t)"
  have n: "?n \<in> open_spans t" "?n \<notin> set (map held_index ps)"
    using Cons.prems by auto
  have o: "open_spans ?t = open_spans t - {?n}" using n by (simp add: open_spans_do)
  have "open_spans (foldl f ?t ps) = open_spans ?t - set (map held_index ps) \<and>
    list_all span_ok (tl_store (foldl f ?t ps)) \<and> tl_spans (foldl f ?t ps) = tl_spans ?t"
  proof (rule Cons.IH)
    show "set (map held_index ps) \<subseteq> open_spans ?t" unfolding o using Cons.prems(2) n(2) by (simp add: subset_Diff_insert)
  qed (use Cons.prems n in \<open>simp_all add: span_ok_do\<close>)
  with o show ?case unfolding foldl_Cons f [of t p] by auto
qed simp
lemma pending_index_simps:
  "pending_index (t\<lparr>tl_spans := ps\<rparr>) = map held_index ps"
  by (simp add: pending_index_def)

lemma index_update:
  "n \<notin> set (map held_index al) \<Longrightarrow> distinct (map held_index al) \<Longrightarrow>
     distinct (map held_index (AList.update k (n, s) al)) \<and>
     set (map held_index (AList.update k (n, s) al)) \<subseteq> insert n (set (map held_index al))"
  by (induction al) auto

lemma length_update: "length (AList.update k v al) = (if k \<in> set (map fst al) then length al else length al + 1)"
  by (induction al) auto

lemma held_delete:
  assumes "distinct (map fst al)" "map_of al k = Some (n, s)" "distinct (map held_index al)"
  shows "length al = length (AList.delete k al) + 1 \<and> distinct (map held_index (AList.delete k al)) \<and>
    set (map held_index (AList.delete k al)) = set (map held_index al) - {n}"
  using assms
proof (induction al)
  case (Cons p al)
  show ?case
  proof (cases "fst p = k")
    case True
    with Cons.prems have "k \<notin> set (map fst al)" by auto
    then have "AList.delete k al = al" by (simp add: delete_id)
    with True Cons.prems show ?thesis by (cases p) auto
  next
    case False
    with Cons.prems have m: "map_of al k = Some (n, s)" by (cases p) auto
    with Cons have IH: "length al = length (AList.delete k al) + 1 \<and> distinct (map held_index (AList.delete k al)) \<and>
      set (map held_index (AList.delete k al)) = set (map held_index al) - {n}" by simp
    have "(k, n, s) \<in> set al" using m by (rule map_of_SomeD)
    then have "n \<in> held_index ` set al" by force
    then have "held_index p \<noteq> n" using Cons.prems(3) by auto
    with False IH Cons.prems show ?thesis by (cases p) auto
  qed
qed simp

lemma decided_inv:
  assumes "tel_inv k t"
  shows "tel_inv (k + (if replaces (Decided now ev) t then 1 else 0)) (tel_ToolCallDecided now ev t)"
proof -
  define t0 where "t0 = on_metrics (decided_metrics ev) t"
  obtain n t1 where s: "start_span (otelAttrs (Attributes ev)) t0 = (n, t1)" by fastforce
  define t2 where "t2 = (if ev_Unenforced ev
    then span_do n [SetError (''policy violation allowed (monitor mode): '' @ ev_Rule ev)] t1 else t1)"
  note i = assms [unfolded tel_inv_def]
  from start_span_open [OF s] have o1: "open_spans t1 = insert n (open_spans t)" "n \<notin> open_spans t" "tl_spans t1 = tl_spans t"
    "list_all span_ok (tl_store t1)" using i by (auto simp: t0_def)
  then have o2: "open_spans t2 = insert n (open_spans t)" "tl_spans t2 = tl_spans t" "list_all span_ok (tl_store t2)"
    by (simp_all add: t2_def open_spans_do span_ok_do)
  then have p2: "pending_index t2 = pending_index t" "PendingSpans t2 = PendingSpans t"
    by (simp_all add: pending_index_def PendingSpans_def)
  have ending: "tel_inv k (span_do n (cs @ [EndSpan]) t2)" if "EndSpan \<notin> set cs" for cs
    using i o1(2) o2 p2 that by (simp add: tel_inv_def open_spans_do span_ok_do PendingSpans_def)
  show ?thesis
  proof (cases "holds_span ev")
    case False
    then have "tel_ToolCallDecided now ev t = span_do n [EndSpan] t2 \<or>
      tel_ToolCallDecided now ev t = span_do n ([SetError (''denied by policy: '' @ ev_Rule ev)] @ [EndSpan]) t2"
      by (auto simp: tel_ToolCallDecided_def holds_span_def t2_def s t0_def [symmetric])
    with ending [of "[]"] ending [of "[SetError (''denied by policy: '' @ ev_Rule ev)]"] False show ?thesis by auto
  next
    case True
    let ?ps = "AList.update (ev_ID ev) (n, now) (tl_spans t)"
    have t: "tel_ToolCallDecided now ev t = t2\<lparr>tl_spans := ?ps\<rparr>"
      using True o2(2) by (auto simp: tel_ToolCallDecided_def holds_span_def t2_def s Let_def t0_def [symmetric])
    have "n \<notin> set (pending_index t)" using i o1(2) by blast
    with index_update [of n "tl_spans t" "ev_ID ev" now] i
    have "distinct (pending_index (t2\<lparr>tl_spans := ?ps\<rparr>))"
      "set (pending_index (t2\<lparr>tl_spans := ?ps\<rparr>)) \<subseteq> insert n (open_spans t)"
      by (auto simp: pending_index_def)
    with True i o1(2) o2 show ?thesis
      unfolding t by (simp add: tel_inv_def PendingSpans_def length_update distinct_update)
  qed
qed

lemma completed_inv:
  assumes "tel_inv k t"
  shows "tel_inv k (tel_ToolCallCompleted ev t)"
proof -
  define t0 where "t0 = on_metrics (completed_metrics ev) t"
  have i: "tel_inv k t0" using assms by (simp add: t0_def)
  let ?t = "t0\<lparr>tl_spans := AList.delete (cp_ID ev) (tl_spans t0)\<rparr>"
  show ?thesis
  proof (cases "map_of (tl_spans t0) (cp_ID ev)")
    case None
    then have "AList.delete (cp_ID ev) (tl_spans t0) = tl_spans t0" by (simp add: map_of_eq_None_iff delete_id)
    with i None show ?thesis by (simp add: tel_ToolCallCompleted_def t0_def [symmetric])
  next
    case (Some ns)
    then obtain n s where h: "map_of (tl_spans t0) (cp_ID ev) = Some (n, s)" by (cases ns) auto
    have d: "distinct (map fst (tl_spans t0))" "distinct (map held_index (tl_spans t0))"
      using i by (simp_all add: tel_inv_def pending_index_def)
    note del = held_delete [OF d(1) h d(2)]
    have n: "n \<in> open_spans t0" using i map_of_SomeD [OF h] by (force simp: tel_inv_def pending_index_def image_subset_iff)
    let ?cs = "[SetLatencyMs (latency_ms (cp_Latency ev)), if cp_Errored ev then SetError ''upstream returned an error'' else SetOk, EndSpan]"
    have "tel_ToolCallCompleted ev t = span_do n ?cs ?t" using h by (simp add: tel_ToolCallCompleted_def t0_def [symmetric])
    moreover have "pending_index ?t = map held_index (AList.delete (cp_ID ev) (tl_spans t0))" by (rule pending_index_simps)
    then have p: "distinct (pending_index ?t)" "set (pending_index ?t) = set (pending_index t0) - {n}"
      using del by (simp_all add: pending_index_def)
    have "set (pending_index ?t) \<subseteq> open_spans t0 - {n}" using i p(2) by (auto simp: tel_inv_def)
    moreover have "n \<in> open_spans ?t" using n by simp
    ultimately show ?thesis
      using i del n d p(1) by (simp add: tel_inv_def open_spans_do span_ok_do PendingSpans_def distinct_delete)
  qed
qed
lemma sweep_inv:
  assumes "tel_inv k t"
  shows "tel_inv k (expireSpans now t)"
proof -
  let ?out = "filter (expired now) (tl_spans t)" and ?t = "t\<lparr>tl_spans := filter (Not \<circ> expired now) (tl_spans t)\<rparr>"
  let ?in = "filter (Not \<circ> expired now) (tl_spans t)"
  note i = assms [unfolded tel_inv_def pending_index_def]
  have d: "distinct (map held_index ?out)" "distinct (map held_index ?in)" "distinct (map fst ?in)"
    using i by (auto intro: distinct_map_filter)
  have s: "set (map held_index ?out) \<subseteq> open_spans ?t" using i by auto
  have "open_spans (expireSpans now t) = open_spans ?t - set (map held_index ?out) \<and>
      list_all span_ok (tl_store (expireSpans now t)) \<and> tl_spans (expireSpans now t) = tl_spans ?t"
    unfolding expireSpans_def using i
    by (intro end_all [OF d(1) s]) (auto simp: abandon_def held_index_def split: prod.splits)
  moreover have "set (map held_index ?in) \<inter> set (map held_index ?out) = {}"
    using i by (auto simp: distinct_map dest: inj_onD)
  moreover have "card (set (map held_index ?out)) = length ?out" using d(1) by (metis distinct_card length_map)
  moreover have "length (tl_spans t) = length ?in + length ?out"
    using sum_length_filter_compl [of "expired now" "tl_spans t"] by (simp add: comp_def)
  ultimately show ?thesis
    using i d s by (simp add: tel_inv_def pending_index_def PendingSpans_def card_Diff_subset) auto
qed

lemma stop_inv:
  assumes "tel_inv k t"
  shows "tel_inv k (closeAllSpans reason t) \<and> tl_spans (closeAllSpans reason t) = []"
proof -
  note i = assms [unfolded tel_inv_def pending_index_def]
  have m: "on_metrics (\<lambda>m. m) u = u" for u by (cases u) (simp add: on_metrics_def option.map_ident)
  have "open_spans (closeAllSpans reason t) = open_spans (t\<lparr>tl_spans := []\<rparr>) - set (map held_index (tl_spans t)) \<and>
      list_all span_ok (tl_store (closeAllSpans reason t)) \<and> tl_spans (closeAllSpans reason t) = tl_spans (t\<lparr>tl_spans := []\<rparr>)"
    unfolding closeAllSpans_def using i
    by (intro end_all [where g = "\<lambda>m. m"]) (auto simp: m held_index_def split: prod.splits)
  moreover have "card (set (map held_index (tl_spans t))) = length (tl_spans t)" using i by (metis distinct_card length_map)
  ultimately show ?thesis using i by (simp add: tel_inv_def pending_index_def PendingSpans_def card_Diff_subset)
qed

lemma apply_inv: "tel_inv k t \<Longrightarrow> tel_inv (k + (if replaces st t then 1 else 0)) (tel_apply st t)"
proof (cases st)
  case (Decided now ev)
  then show "tel_inv k t \<Longrightarrow> ?thesis" using decided_inv [of k t now ev] by simp
qed (simp_all add: completed_inv sweep_inv stop_inv)

lemma run_inv: "tel_inv k t \<Longrightarrow> tel_inv (k + replaced steps t) (tel_run steps t)"
proof (induction steps arbitrary: k t)
  case (Cons st steps)
  from Cons.IH [OF apply_inv [OF Cons.prems, of st]] show ?case by (simp add: tel_run_def add.assoc)
qed (simp add: tel_run_def)

definition is_decided :: "tel_step \<Rightarrow> bool" where
  "is_decided st \<longleftrightarrow> (case st of Decided _ _ \<Rightarrow> True | _ \<Rightarrow> False)"

lemma fold_frame: "(\<And>t p. length (tl_store (f t p)) = length (tl_store t)) \<Longrightarrow>
    length (tl_store (foldl f t ps)) = length (tl_store t)"
  by (induction ps arbitrary: t) simp_all

lemma apply_starts: "length (tl_store (tel_apply st t)) = length (tl_store t) + (if is_decided st then 1 else 0)"
proof (cases st)
  case (Decided now ev)
  then show ?thesis by (simp add: is_decided_def tel_ToolCallDecided_def start_span_def Let_def)
next
  case (Completed ev)
  then show ?thesis by (simp add: is_decided_def tel_ToolCallCompleted_def Let_def split: option.splits)
next
  case (Sweep now)
  then show ?thesis by (simp add: is_decided_def expireSpans_def) (subst fold_frame; simp add: abandon_def split: prod.splits)
next
  case (Stop reason)
  then show ?thesis by (simp add: is_decided_def closeAllSpans_def) (subst fold_frame; simp split: prod.splits)
qed

lemma run_starts: "length (tl_store (tel_run steps t)) = length (tl_store t) + length (filter is_decided steps)"
  by (induction steps arbitrary: t) (simp_all add: tel_run_def apply_starts)

text \<open>C39: every decision starts one span; a span is ended at most once and never touched after; and
  at any time the spans not yet ended are those awaiting a response and those whose request id a
  later forwarded call took over, which nothing will ever end. After the final sweep only those are left.\<close>

theorem spans_accounted_for:
  "length (tl_store (tel_run steps (New_telemetry m))) = length (filter is_decided steps) \<and>
   list_all (\<lambda>s. EndSpan \<notin> set (butlast (ot_calls s))) (tl_store (tel_run steps (New_telemetry m))) \<and>
   card (open_spans (tel_run steps (New_telemetry m))) =
     PendingSpans (tel_run steps (New_telemetry m)) + replaced steps (New_telemetry m) \<and>
   card (open_spans (closeAllSpans reason (tel_run steps (New_telemetry m)))) = replaced steps (New_telemetry m)"
proof -
  have "tel_inv 0 (New_telemetry m)"
    by (simp add: tel_inv_def New_telemetry_def pending_index_def PendingSpans_def open_spans_def)
  from run_inv [OF this, of steps] have i: "tel_inv (replaced steps (New_telemetry m)) (tel_run steps (New_telemetry m))" by simp
  then have "list_all span_ok (tl_store (tel_run steps (New_telemetry m)))" by (simp add: tel_inv_def)
  then have "list_all (\<lambda>s. EndSpan \<notin> set (butlast (ot_calls s))) (tl_store (tel_run steps (New_telemetry m)))"
    by (auto simp: list_all_iff span_ok_def)
  moreover have "card (open_spans (closeAllSpans reason (tel_run steps (New_telemetry m)))) = replaced steps (New_telemetry m)"
    using stop_inv [OF i, of reason] by (simp add: tel_inv_def PendingSpans_def)
  ultimately show ?thesis using i by (simp add: run_starts New_telemetry_def tel_inv_def)
qed

section \<open>The metrics of a run\<close>

fun decided_event :: "tel_step \<Rightarrow> decision_event list" where
  "decided_event (Decided now ev) = [ev]"
| "decided_event st = []"

fun completed_event :: "tel_step \<Rightarrow> completion_event list" where
  "completed_event (Completed ev) = [ev]"
| "completed_event st = []"

definition counted :: "('e \<Rightarrow> bool) \<Rightarrow> 'e list \<Rightarrow> nat" where
  "counted P evs = length (filter P evs)"

definition stopped_by :: "bytes \<Rightarrow> bytes \<Rightarrow> decision_event \<Rightarrow> bool" where
  "stopped_by tool r = (\<lambda>ev. ev_Effect ev = EffectDeny \<and> \<not> ev_Unenforced ev \<and> ev_Tool ev = tool \<and> ev_Rule ev = r)"

definition decisions_of :: "tel_step list \<Rightarrow> decision_event list" where
  "decisions_of steps = concat (map decided_event steps)"

definition completions_of :: "tel_step list \<Rightarrow> completion_event list" where
  "completions_of steps = concat (map completed_event steps)"

text \<open>What the counters of \<open>m'\<close> have over those of \<open>m\<close> after the given decisions and completions.\<close>

definition counts_over :: "tel_metrics \<Rightarrow> decision_event list \<Rightarrow> completion_event list \<Rightarrow> tel_metrics \<Rightarrow> bool" where
  "counts_over m ds cs m' \<longleftrightarrow>
     (\<forall>tool l. mt_toolCalls m' (tool, l) = mt_toolCalls m (tool, l) + counted (\<lambda>ev. ev_Tool ev = tool \<and> effect_label ev = l) ds) \<and>
     (\<forall>tool r. mt_denials m' (tool, r) = mt_denials m (tool, r) + counted (stopped_by tool r) ds) \<and>
     (\<forall>r. mt_audits m' r = mt_audits m r + sum_list (map (\<lambda>ev. count_list (ev_Audited ev) r) ds)) \<and>
     (\<forall>tool. mt_upstreamErrors m' tool = mt_upstreamErrors m tool + counted (\<lambda>ev. cp_Errored ev \<and> cp_Tool ev = tool) cs)"

lemma counts_refl: "counts_over m [] [] m"
  by (simp add: counts_over_def counted_def)

lemma counts_trans: "counts_over m ds cs m' \<Longrightarrow> counts_over m' ds' cs' m'' \<Longrightarrow> counts_over m (ds @ ds') (cs @ cs') m''"
  by (simp add: counts_over_def counted_def)

lemma foldl_inc: "foldl inc f rs r = f r + count_list rs r"
  by (induction rs arbitrary: f) (simp_all add: inc_def)

lemma decided_counts: "counts_over m [ev] [] (decided_metrics ev m)"
  by (simp add: counts_over_def counted_def decided_metrics_def foldl_inc stopped_by_def Let_def) (simp add: inc_def)

lemma completed_counts: "counts_over m [] [ev] (completed_metrics ev m)"
  by (simp add: counts_over_def counted_def completed_metrics_def Let_def) (simp add: inc_def)

lemma abandon_counts: "tl_metrics t = Some m \<Longrightarrow> \<exists>m'. tl_metrics (foldl abandon t ps) = Some m' \<and> counts_over m [] [] m'"
proof (induction ps arbitrary: t m)
  case (Cons p ps)
  let ?m = "m\<lparr>mt_abandonedSpans := mt_abandonedSpans m + 1\<rparr>"
  have "tl_metrics (abandon t p) = Some ?m" using Cons.prems by (simp add: abandon_def on_metrics_def split: prod.splits)
  from Cons.IH [OF this] obtain m' where "tl_metrics (foldl abandon t (p # ps)) = Some m'" "counts_over ?m [] [] m'" by auto
  then show ?case by (auto simp: counts_over_def)
qed (auto intro: counts_refl)

lemma apply_counts:
  assumes "tl_metrics t = Some m"
  shows "\<exists>m'. tl_metrics (tel_apply st t) = Some m' \<and> counts_over m (decided_event st) (completed_event st) m'"
proof (cases st)
  case (Decided now ev)
  have "tl_metrics (tel_ToolCallDecided now ev t) = Some (decided_metrics ev m)"
    using assms by (simp add: tel_ToolCallDecided_def start_span_def on_metrics_def Let_def)
  with Decided decided_counts show ?thesis by simp
next
  case (Completed ev)
  have "tl_metrics (tel_ToolCallCompleted ev t) = Some (completed_metrics ev m)"
    using assms by (simp add: tel_ToolCallCompleted_def on_metrics_def Let_def split: option.splits)
  with Completed completed_counts show ?thesis by simp
next
  case (Sweep now)
  then show ?thesis using assms by (simp add: expireSpans_def abandon_counts)
next
  case (Stop reason)
  have "tl_metrics (foldl (\<lambda>t (_, n, _). span_do n [SetError reason, EndSpan] t) u ps) = tl_metrics u" for u :: telemetry and ps :: "(bytes \<times> pending_span) list"
    by (induction ps arbitrary: u) (auto split: prod.splits)
  with Stop assms show ?thesis by (simp add: closeAllSpans_def counts_refl)
qed

lemma run_counts:
  "tl_metrics t = Some m \<Longrightarrow> \<exists>m'. tl_metrics (tel_run steps t) = Some m' \<and>
     counts_over m (concat (map decided_event steps)) (concat (map completed_event steps)) m'"
proof (induction steps arbitrary: t m)
  case (Cons st steps)
  from apply_counts [OF Cons.prems, of st] obtain m1 where
    m1: "tl_metrics (tel_apply st t) = Some m1" "counts_over m (decided_event st) (completed_event st) m1" by auto
  from Cons.IH [OF m1(1)] m1(2) show ?case by (auto simp: tel_run_def dest: counts_trans)
qed (auto simp: tel_run_def intro: counts_refl)

text \<open>C40: the counters are exact: over any run the tool-call counter of a tool and label is the number
  of decisions with them, the denial counter counts only calls that were stopped, the audit counter
  every audit rule that matched and the error counter every errored completion.\<close>

theorem metrics_count_the_events:
  "\<exists>m. tl_metrics (tel_run steps (New_telemetry True)) = Some m \<and>
    mt_toolCalls m (tool, l) = length (filter (\<lambda>ev. ev_Tool ev = tool \<and> effect_label ev = l) (decisions_of steps)) \<and>
    mt_denials m (tool, r) =
      length (filter (\<lambda>ev. ev_Effect ev = EffectDeny \<and> \<not> ev_Unenforced ev \<and> ev_Tool ev = tool \<and> ev_Rule ev = r) (decisions_of steps)) \<and>
    mt_audits m r = sum_list (map (\<lambda>ev. count_list (ev_Audited ev) r) (decisions_of steps)) \<and>
    mt_upstreamErrors m tool = length (filter (\<lambda>ev. cp_Errored ev \<and> cp_Tool ev = tool) (completions_of steps))"
proof -
  have "tl_metrics (New_telemetry True) = Some newMetrics" by (simp add: New_telemetry_def)
  from run_counts [OF this, of steps] show ?thesis
    by (auto simp: decisions_of_def completions_of_def counts_over_def counted_def newMetrics_def stopped_by_def)
qed

section \<open>Marks of a violation\<close>

text \<open>A violation monitor mode let through is marked as an error, and marked \<open>Ok\<close> over it when the
  upstream answers.\<close>

lemma breach_mark_then_ok:
  assumes "ev_Unenforced ev" "ev_ID ev \<noteq> []" "cp_ID c = ev_ID ev" "\<not> cp_Errored c"
  shows "ot_calls (last (tl_store (tel_run [Decided now ev, Completed c] t))) =
    [SetError (''policy violation allowed (monitor mode): '' @ ev_Rule ev), SetLatencyMs (latency_ms (cp_Latency c)), SetOk, EndSpan]"
  using assms by (simp add: tel_run_def tel_ToolCallDecided_def tel_ToolCallCompleted_def start_span_def on_metrics_def span_do_def
      Let_def update_conv')
text \<open>An unreadable request that monitor mode forwards is announced with its id, which opens a span,
  and is not among the calls the gateway will complete: the span is swept as never answered.\<close>

lemma unreadable_forward_never_completed:
  assumes "go_Monitor opts" "\<not> HasAlwaysEnforce (go_Policy opts)" "go_Observer opts" "IDKey msg \<noteq> []"
  shows "\<exists>g' ev. refuseUnreadable opts msg r d g = Some (g', Inr forward) \<and> gw_pending g' = gw_pending g \<and>
    gw_events g' = gw_events g @ [ToolCallDecided ev] \<and> ev_ID ev = IDKey msg \<and> holds_span ev"
  using assms by (simp add: refuseUnreadable_def tell_def recordViolation_def holds_span_def zero_decision_def Let_def)

end
