(* ===== verification/Wiring.thy ===== *)
theory Wiring
  imports Chokepoint Starter Telemetry
begin

text \<open>
  How the parts are put together, \<open>main\<close> and \<open>run\<close> of \<open>cmd/chokepoint/main.go\<close>: the command that is
  chosen, what a session sets up before the server is started, and the observers its gateway tells of its
  decisions. The lemmas follow a decision into the audit log and out of \<open>chokepoint report\<close>.
\<close>

section \<open>Choosing a command\<close>

definition subcommands :: "bytes list" where
  "subcommands = [''init'', ''wrap'', ''unwrap'', ''report'', ''hook'']"

datatype action = Subcommand bytes "bytes list" | BadUsage args_error | ShowVersion | RunSession config

definition main_action :: "bytes list \<Rightarrow> action" where
  "main_action args =
     (case args of
       a # as \<Rightarrow> if a \<in> set subcommands then Subcommand a as
         else (case parseArgs args of Inl e \<Rightarrow> BadUsage e | Inr cfg \<Rightarrow> if cf_showVersion cfg then ShowVersion else RunSession cfg)
     | [] \<Rightarrow> (case parseArgs args of Inl e \<Rightarrow> BadUsage e | Inr cfg \<Rightarrow> if cf_showVersion cfg then ShowVersion else RunSession cfg))"

section \<open>Observers\<close>

record observers =
  ob_audit :: "audit_writer option"
  ob_telemetry :: "telemetry option"

text \<open>
  Each observer reads the clock for itself, and the audit writer draws a span id; the write has an outcome.
\<close>

record stamp =
  sm_spanID :: bytes
  sm_auditNow :: instant
  sm_telNow :: instant
  sm_write :: write_outcome

definition observers_ToolCallDecided :: "(real \<Rightarrow> bytes) \<Rightarrow> stamp \<Rightarrow> decision_event \<Rightarrow> observers \<Rightarrow> observers" where
  "observers_ToolCallDecided ft st ev o' =
     (let o' = o'\<lparr>ob_audit := map_option (audit_ToolCallDecided ft (sm_spanID st) (sm_auditNow st) (sm_write st) ev) (ob_audit o')\<rparr>
      in o'\<lparr>ob_telemetry := map_option (tel_ToolCallDecided (sm_telNow st) ev) (ob_telemetry o')\<rparr>)"

definition observers_ToolCallCompleted :: "completion_event \<Rightarrow> observers \<Rightarrow> observers" where
  "observers_ToolCallCompleted ev o' =
     (let o' = o'\<lparr>ob_audit := map_option (audit_ToolCallCompleted ev) (ob_audit o')\<rparr>
      in o'\<lparr>ob_telemetry := map_option (tel_ToolCallCompleted ev) (ob_telemetry o')\<rparr>)"

definition notify :: "(real \<Rightarrow> bytes) \<Rightarrow> observers \<Rightarrow> stamp \<times> event \<Rightarrow> observers" where
  "notify ft o' = (\<lambda>(st, e). case e of
     ToolCallDecided ev \<Rightarrow> observers_ToolCallDecided ft st ev o'
   | ToolCallCompleted c \<Rightarrow> observers_ToolCallCompleted c o')"

section \<open>Setting a session up\<close>

text \<open>
  What the set-up asks of the system: the policy file, the audit log (what the file holds, if it opens),
  whether telemetry and the server start.
\<close>

record 'p start_env =
  se_load :: "bytes \<Rightarrow> bytes + 'p policy"
  se_openLog :: "bytes \<Rightarrow> bytes option"
  se_randomHex :: bytes
  se_telemetry :: "config \<Rightarrow> bytes option"
  se_start :: "bytes list \<Rightarrow> bytes option"

datatype start_error = PolicyNotLoaded bytes | WorkspaceInvalid scope_error | AuditLogNotOpened | TelemetryFailed bytes | UpstreamNotStarted bytes

definition open_audit :: "'p start_env \<Rightarrow> config \<Rightarrow> start_error + audit_writer option" where
  "open_audit env cfg =
     (if cf_auditLog cfg = [] then Inr None
      else case se_openLog env (cf_auditLog cfg) of
        None \<Rightarrow> Inl AuditLogNotOpened
      | Some content \<Rightarrow> Inr (Some (New_audit content True [] (se_randomHex env))))"

definition start_telemetry :: "'p start_env \<Rightarrow> config \<Rightarrow> start_error + telemetry option" where
  "start_telemetry env cfg =
     (if cf_metricsAddr cfg = [] \<and> cf_otlpEndpoint cfg = [] then Inr None
      else case se_telemetry env cfg of
        Some e \<Rightarrow> Inl (TelemetryFailed e)
      | None \<Rightarrow> Inr (Some (New_telemetry (cf_metricsAddr cfg \<noteq> []))))"

definition load_policy :: "'p start_env \<Rightarrow> config \<Rightarrow> start_error + 'p policy option \<times> scope" where
  "load_policy env cfg =
     (if cf_policyPath cfg = [] then Inr (None, \<lparr>sc_entries = []\<rparr>)
      else case se_load env (cf_policyPath cfg) of
        Inl e \<Rightarrow> Inl (PolicyNotLoaded e)
      | Inr pol \<Rightarrow>
          let pol = load_mode cfg pol in
          (case NewScope (pl_Workspace pol) of Inl e \<Rightarrow> Inl (WorkspaceInvalid e) | Inr sc \<Rightarrow> Inr (Some pol, sc)))"

definition run_setup :: "'p start_env \<Rightarrow> config \<Rightarrow> start_error + 'p policy option \<times> scope \<times> observers" where
  "run_setup env cfg =
     (case load_policy env cfg of
       Inl e \<Rightarrow> Inl e
     | Inr (pol, sc) \<Rightarrow>
         (case open_audit env cfg of
           Inl e \<Rightarrow> Inl e
         | Inr aw \<Rightarrow>
             (case start_telemetry env cfg of
               Inl e \<Rightarrow> Inl e
             | Inr tel \<Rightarrow>
                 (case se_start env (cf_upstream cfg) of
                   Some e \<Rightarrow> Inl (UpstreamNotStarted e)
                 | None \<Rightarrow> Inr (pol, sc, \<lparr>ob_audit = aw, ob_telemetry = tel\<rparr>)))))"

text \<open>\<open>observerOrNil\<close>: the gateway is given observers exactly when there are some.\<close>

definition observerOrNil :: "observers \<Rightarrow> bool" where
  "observerOrNil o' \<longleftrightarrow> ob_audit o' \<noteq> None \<or> ob_telemetry o' \<noteq> None"

lemma setup_observed: "run_setup env cfg = Inr (pol, sc, obs) \<Longrightarrow> observerOrNil obs = observed cfg"
  by (auto simp: run_setup_def open_audit_def start_telemetry_def observerOrNil_def observed_def split: sum.splits option.splits if_splits)

lemma setup_audit:
  "run_setup env cfg = Inr (pol, sc, obs) \<Longrightarrow> cf_auditLog cfg \<noteq> [] \<Longrightarrow>
    \<exists>content. se_openLog env (cf_auditLog cfg) = Some content \<and> ob_audit obs = Some (New_audit content True [] (se_randomHex env))"
  by (auto simp: run_setup_def open_audit_def split: sum.splits option.splits if_splits)

section \<open>What the audit writer is told\<close>

definition decided_stamps :: "(stamp \<times> event) list \<Rightarrow> (write_outcome \<times> bytes \<times> instant \<times> decision_event) list" where
  "decided_stamps seen = List.map_filter (\<lambda>(st, e). case e of
     ToolCallDecided ev \<Rightarrow> Some (sm_write st, sm_spanID st, sm_auditNow st, ev) | ToolCallCompleted _ \<Rightarrow> None) seen"

lemma decided_stamps_simps [simp]:
  "decided_stamps [] = []"
  "decided_stamps ((st, ToolCallDecided ev) # seen) = (sm_write st, sm_spanID st, sm_auditNow st, ev) # decided_stamps seen"
  "decided_stamps ((st, ToolCallCompleted c) # seen) = decided_stamps seen"
  by (simp_all add: decided_stamps_def List.map_filter_def)

lemma notified_audit:
  "ob_audit obs = Some a \<Longrightarrow> ob_audit (foldl (notify ft) obs seen) = Some (record_decisions ft (decided_stamps seen) a)"
proof (induction seen arbitrary: obs a)
  case (Cons x seen)
  obtain st e where x: "x = (st, e)" by (cases x)
  show ?case
  proof (cases e)
    case (ToolCallDecided ev)
    with Cons x show ?thesis
      by (simp add: notify_def observers_ToolCallDecided_def record_decisions_def)
  next
    case (ToolCallCompleted c)
    with Cons x show ?thesis
      by (simp add: notify_def observers_ToolCallCompleted_def audit_ToolCallCompleted_def)
  qed
qed (simp add: record_decisions_def)
section \<open>The books of a session\<close>

text \<open>A decision announced as let through is a denial.\<close>

definition unenforced_denials :: "'s gateway \<Rightarrow> bool" where
  "unenforced_denials g \<longleftrightarrow> (\<forall>ev. ToolCallDecided ev \<in> set (gw_events g) \<longrightarrow> ev_Unenforced ev \<longrightarrow> ev_Effect ev = EffectDeny)"

interpretation violations: gateway_invariant unenforced_denials
  by unfold_locales (auto simp: announces_def completes_def unchanged_def unenforced_denials_def)

lemma session_books:
  assumes "gateway_run opts (run_state cfg clock) inputs = Some g" "go_Observer opts"
  shows "totalOf (rp_Denials (SessionReport opts g)) = length (filter is_stopped (gw_events g))"
    "totalOf (rp_Violations (SessionReport opts g)) = length (filter is_unenforced (gw_events g))" "unenforced_denials g"
proof -
  have "ledger (run_state cfg clock)" "books_distinct (run_state cfg clock)" "unenforced_denials (run_state cfg clock)"
    by (simp_all add: run_state_def ledger_def New_def counts_def denied_events_def unenforced_events_def books_distinct_def unenforced_denials_def)
  then have g: "ledger g" "books_distinct g" "unenforced_denials g"
    using books.run_result [OF assms(1) run_state_ok] book_keys.run_result [OF assms(1) run_state_ok]
      violations.run_result [OF assms(1) run_state_ok] assms(2) by blast+
  then show "totalOf (rp_Denials (SessionReport opts g)) = length (filter is_stopped (gw_events g))"
    "totalOf (rp_Violations (SessionReport opts g)) = length (filter is_unenforced (gw_events g))" "unenforced_denials g"
    by (simp_all add: SessionReport_def ledger_def books_distinct_def event_counts_eq total_is_count)
qed

text \<open>The decisions among the events, as the report counts them.\<close>

lemma stamped_events:
  "length (filter is_stopped (map snd seen)) =
    length (filter (\<lambda>ev. ev_Effect ev = EffectDeny \<and> \<not> ev_Unenforced ev) (decided_events (map snd (decided_stamps seen))))"
  "length (filter is_unenforced (map snd seen)) =
    length (filter ev_Unenforced (decided_events (map snd (decided_stamps seen))))"
  "set (decided_events (map snd (decided_stamps seen))) = {ev. ToolCallDecided ev \<in> set (map snd seen)}"
proof -
  have *: "length (filter is_stopped (map snd seen)) =
      length (filter (\<lambda>ev. ev_Effect ev = EffectDeny \<and> \<not> ev_Unenforced ev) (decided_events (map snd (decided_stamps seen)))) \<and>
    length (filter is_unenforced (map snd seen)) =
      length (filter ev_Unenforced (decided_events (map snd (decided_stamps seen)))) \<and>
    set (decided_events (map snd (decided_stamps seen))) = {ev. ToolCallDecided ev \<in> set (map snd seen)}"
  proof (induction seen)
    case (Cons x seen)
    obtain st e where "x = (st, e)" by (cases x)
    with Cons show ?case
      by (cases e) (auto simp: decided_events_def is_stopped_def is_unenforced_def stopped_def)
  qed (simp add: decided_events_def)
  then show "length (filter is_stopped (map snd seen)) =
      length (filter (\<lambda>ev. ev_Effect ev = EffectDeny \<and> \<not> ev_Unenforced ev) (decided_events (map snd (decided_stamps seen))))"
    "length (filter is_unenforced (map snd seen)) = length (filter ev_Unenforced (decided_events (map snd (decided_stamps seen))))"
    "set (decided_events (map snd (decided_stamps seen))) = {ev. ToolCallDecided ev \<in> set (map snd seen)}" by blast+
qed

text \<open>
  C30: The log report and the session report tell the same story: after a session whose writes to a fresh
  audit log all succeeded, \<open>chokepoint report\<close> over that log skips nothing, counts one call per announced
  decision, and the breaches it says were blocked and allowed are as many as the session report says were
  denied and let through.\<close>

theorem log_agrees_with_session_report:
  assumes "run_setup senv cfg = Inr (pol, sc, obs)" "cf_auditLog cfg \<noteq> []" "se_openLog senv (cf_auditLog cfg) = Some []"
    and "gateway_run opts (run_state cfg clock) inputs = Some g" "opts = run_gateway env cfg pol sc"
    and "map snd seen = gw_events g" "list_all (\<lambda>(st, _). sm_write st = None) seen"
    and "list_all (loggable ft (se_randomHex senv)) (map snd (decided_stamps seen))"
    and "open' (cf_auditLog cfg) = map_option aw_out (ob_audit (foldl (notify ft) obs seen))"
  shows "\<exists>entries. gather open' [cf_auditLog cfg] = Inr (entries, []) \<and>
    length (in_order entries) = length (decided_stamps seen) \<and>
    ta_blocked (tally_of (in_order entries)) = totalOf (rp_Denials (SessionReport opts g)) \<and>
    ta_allowed (tally_of (in_order entries)) = totalOf (rp_Violations (SessionReport opts g))"
proof -
  let ?ds = "map snd (decided_stamps seen)" and ?tid = "se_randomHex senv"
  have a: "ob_audit obs = Some (New_audit [] True [] ?tid)" using setup_audit [OF assms(1,2)] assms(3) by auto
  have w: "decided_stamps seen = map (\<lambda>d. (None, d)) ?ds"
    using assms(7)
  proof (induction seen)
    case (Cons x seen)
    obtain st e where "x = (st, e)" by (cases x)
    with Cons show ?case by (cases e) simp_all
  qed simp
  have t: "traceIDOr [] ?tid = ?tid" by (simp add: traceIDOr_def)
  have "open' (cf_auditLog cfg) = Some (aw_out (record_decisions ft (map (\<lambda>d. (None, d)) ?ds) (New_audit [] True [] ?tid)))"
    unfolding assms(9) notified_audit [OF a] w [symmetric] by simp
  then have "gather open' [cf_auditLog cfg] = Inr (sourced_log (cf_auditLog cfg) ?tid ?ds, [])"
    using gather_logs [of "[cf_auditLog cfg]" open' ft "\<lambda>_. ?ds" True "\<lambda>_. []" ?tid] assms(8) by (simp add: t)
  moreover have obs: "go_Observer opts" unfolding assms(5) run_gateway_simps using assms(2) by (simp add: observed_def)
  have "length (filter (\<lambda>s. Breach (so_entry s) \<and> en_Enforced (so_entry s)) (sourced_log (cf_auditLog cfg) ?tid ?ds)) =
      length (filter is_stopped (gw_events g))"
    unfolding assms(6) [symmetric] stamped_events by (rule filter_sourced) (simp add: entry_fields)
  moreover have "length (filter (\<lambda>s. Breach (so_entry s) \<and> \<not> en_Enforced (so_entry s)) (sourced_log (cf_auditLog cfg) ?tid ?ds)) =
      length (filter is_unenforced (gw_events g))"
  proof -
    have "length (filter (\<lambda>s. Breach (so_entry s) \<and> \<not> en_Enforced (so_entry s)) (sourced_log (cf_auditLog cfg) ?tid ?ds)) =
        length (filter (\<lambda>ev. ev_Effect ev = EffectDeny \<and> ev_Unenforced ev) (decided_events ?ds))"
      by (rule filter_sourced) (auto simp: entry_fields)
    also have "\<dots> = length (filter ev_Unenforced (decided_events ?ds))"
      using session_books(3) [OF assms(4) obs] stamped_events(3) [of seen]
      by (intro arg_cong [where f = length] filter_cong) (auto simp: assms(6) unenforced_denials_def)
    finally show ?thesis unfolding assms(6) [symmetric] stamped_events .
  qed
  moreover have "length (sourced_log (cf_auditLog cfg) ?tid ?ds) = length (decided_stamps seen)" by (simp add: sourced_log_def)
  ultimately show ?thesis using session_books(1,2) [OF assms(4) obs] by (simp add: tally_of_counts in_order_counts)
qed

section \<open>An example\<close>

definition sample_start :: "bytes start_env" where
  "sample_start = \<lparr>se_load = (\<lambda>_. Inl []), se_openLog = (\<lambda>_. Some []), se_randomHex = ''ab'', se_telemetry = (\<lambda>_. None),
     se_start = (\<lambda>_. None)\<rparr>"

definition sample_config_run :: config where
  "sample_config_run = zero_config\<lparr>cf_auditLog := ''/s/git-01234567-fs.jsonl'', cf_maxCalls := DefaultMaxCalls, cf_upstream := [''srv'']\<rparr>"

definition sample_run_options :: "(bytes, bytes, bytes, bytes) gateway_options" where
  "sample_run_options = run_gateway (gateway_env.truncate (example_options None)) sample_config_run None \<lparr>sc_entries = []\<rparr>"

definition unparseable_decision :: decision_event where
  "unparseable_decision = zero_decision\<lparr>ev_Tool := ''(unparseable)'', ev_Effect := EffectDeny, ev_Rule := RuleMalformedRequest,
     ev_ScoreUnavailable := True\<rparr>"

definition sample_seen :: "(stamp \<times> event) list" where
  "sample_seen = [(\<lparr>sm_spanID = ''00'', sm_auditNow = 7, sm_telNow = 7, sm_write = None\<rparr>, ToolCallDecided unparseable_decision)]"

definition sample_session :: "bytes gateway" where
  "sample_session = RecordUnparseable sample_run_options (run_state sample_config_run int) True DecodeError"

lemma sample_session_events: "gw_events sample_session = [ToolCallDecided unparseable_decision]"
  by (simp add: sample_session_def RecordUnparseable_def gate_simps Let_def run_state_def New_def sample_run_options_def
      run_gateway_simps observed_def sample_config_run_def unparseable_decision_def zero_decision_def gw_assess_def Assess_def NewSession_def Len_def empty_ring_def)

lemma unparseable_loggable: "loggable (\<lambda>_. ''0'') ''ab'' (''00'', 7, unparseable_decision)"
proof -
  have "json_bound (record_json (decided_record (\<lambda>_. ''0'') ''ab'' ''00'' 7 unparseable_decision)) < 10000"
    by (simp add: decided_record_def unparseable_decision_def zero_decision_def Attributes_def encodeAttrs_simps encodeValue_def
        attr_int_def EffectDeny_def RuleMalformedRequest_def record_json_def attr_json_def status_json_def key_defs Itoa_def nat_digits.simps)
  with encode_bound(1) have "length (record_line (\<lambda>_. ''0'') ''ab'' (''00'', 7, unparseable_decision)) < 10000"
    unfolding record_line_def prod.case by (rule le_less_trans)
  moreover have "valid_utf8 [] \<and> valid_utf8 ''(unparseable)'' \<and> valid_utf8 RuleMalformedRequest \<and> valid_utf8 EffectDeny \<and>
    valid_utf8 ''ab'' \<and> valid_utf8 ''00'' \<and> int64 7" by code_simp
  ultimately show ?thesis
    by (simp add: loggable_def recordable_def unparseable_decision_def zero_decision_def MaxLogLine_def)
qed

theorem log_agrees_with_session_report_witness:
  "\<exists>entries. gather (\<lambda>_. map_option aw_out (ob_audit (foldl (notify (\<lambda>_. ''0''))
       \<lparr>ob_audit = Some (New_audit [] True [] ''ab''), ob_telemetry = None\<rparr> sample_seen))) [''/s/git-01234567-fs.jsonl''] = Inr (entries, []) \<and>
     ta_blocked (tally_of (in_order entries)) = totalOf (rp_Denials (SessionReport sample_run_options sample_session))"
proof -
  let ?obs = "\<lparr>ob_audit = Some (New_audit [] True [] ''ab''), ob_telemetry = None\<rparr>"
  have log: "cf_auditLog sample_config_run = ''/s/git-01234567-fs.jsonl''" by (simp add: sample_config_run_def)
  have s: "run_setup sample_start sample_config_run = Inr (None, \<lparr>sc_entries = []\<rparr>, ?obs)"
    by (simp add: run_setup_def load_policy_def open_audit_def start_telemetry_def sample_start_def sample_config_run_def zero_config_def)
  have g: "gateway_run sample_run_options (run_state sample_config_run int) [Unparseable True DecodeError] = Some sample_session"
    by (simp add: gateway_step_def sample_session_def)
  have e: "map snd sample_seen = gw_events sample_session" by (simp add: sample_session_events sample_seen_def)
  have w: "list_all (\<lambda>(st, _). sm_write st = None) sample_seen" by (simp add: sample_seen_def)
  have l: "list_all (loggable (\<lambda>_. ''0'') (se_randomHex sample_start)) (map snd (decided_stamps sample_seen))"
    using unparseable_loggable by (simp add: sample_start_def sample_seen_def)
  have o: "se_openLog sample_start (cf_auditLog sample_config_run) = Some []" "cf_auditLog sample_config_run \<noteq> []"
    by (simp_all add: sample_start_def log)
  from log_agrees_with_session_report [OF s o(2,1) g sample_run_options_def e w l refl] show ?thesis unfolding log by blast
qed

end
